(* ===== verification/Prelude.thy ===== *)
theory Prelude
  imports Main "HOL-Library.Word" "HOL-Library.Monad_Syntax"
begin

text \<open>
  Shared vocabulary of the development: the machine integer types of the sources, the
  execution monad, memory cells addressed by index, and the frame relation between two
  heaps.

  Execution monad. A C++ operation that can run into undefined behaviour (a null or
  out-of-range dereference, a write past the end of a vector, an iterator past the end) or
  that may fail to return is a function into \<open>'a option\<close>: \<open>None\<close> stands for
  undefined behaviour, an abort or divergence, \<open>Some r\<close> for a normal return with result
  \<open>r\<close>. A theorem that an operation returns \<open>Some\<close> is therefore a memory safety
  and termination statement. Regular error returns of the code (a null pointer result, a
  \<open>false\<close>, an empty optional) are values inside \<open>Some\<close>.
\<close>

section \<open>Machine integers\<close>

text \<open>
  Unsigned integers keep their width and wrap around. The signed 64-bit quantities of the
  sources (prices in ticks, timestamps) are only compared, stored and converted, except for
  one multiplication in \<open>Contract::occ_symbol\<close>; they are \<open>int\<close>s, and \<open>in_i64\<close>
  says that a value is representable.
\<close>

type_synonym u8 = "8 word"
type_synonym u16 = "16 word"
type_synonym u32 = "32 word"
type_synonym u64 = "64 word"
type_synonym i64 = int

definition in_i64 :: "int \<Rightarrow> bool" where
  "in_i64 x \<longleftrightarrow> - (2 ^ 63) \<le> x \<and> x < 2 ^ 63"

named_theorems exec_simps \<open>unfolding of the execution monad\<close>
named_theorems frame_intros \<open>frame properties of heaps\<close>

lemma sub_add_wrap [simp]: "(b :: 'a :: len word) + (a - b) = a"
  by simp

lemma word_sub_eq_0 [simp]: "(a - b = (0 :: 'a :: len word)) = (a = b)"
  by simp

lemma word_pos_iff: "((0 :: 'a :: len word) < a) = (a \<noteq> 0)"
  by (simp add: word_neq_0_conv)

lemma unat_sub_le: "(b :: 'a :: len word) \<le> a \<Longrightarrow> unat (a - b) = unat a - unat b"
  by (simp add: unat_sub word_le_nat_alt)

section \<open>Memory cells\<close>

text \<open>
  A slab of objects is a list; an address is an index into it. Every access is checked:
  an address outside the slab is undefined behaviour.
\<close>

type_synonym ptr = nat

definition deref :: "'a list \<Rightarrow> ptr \<Rightarrow> 'a option" where
  "deref h p = (if p < length h then Some (h ! p) else None)"

definition modify_at :: "'a list \<Rightarrow> ptr \<Rightarrow> ('a \<Rightarrow> 'a) \<Rightarrow> 'a list option" where
  "modify_at h p f = (if p < length h then Some (h[p := f (h ! p)]) else None)"

lemma deref_Some [simp]: "p < length h \<Longrightarrow> deref h p = Some (h ! p)"
  by (simp add: deref_def)

lemma deref_eq_Some: "deref h p = Some x \<longleftrightarrow> p < length h \<and> x = h ! p"
  by (auto simp: deref_def)

lemma modify_at_Some [simp]: "p < length h \<Longrightarrow> modify_at h p f = Some (h[p := f (h ! p)])"
  by (simp add: modify_at_def)

lemma bind_Some_E:
  assumes "Option.bind m f = Some r"
  obtains x where "m = Some x" and "f x = Some r"
  using assms by (cases m) auto

declare Option.bind_eq_Some_conv [exec_simps]

section \<open>Frames\<close>

text \<open>\<open>same_outside S h h'\<close>: the two heaps have the same size and differ at most on \<open>S\<close>.\<close>

definition same_outside :: "ptr set \<Rightarrow> 'a list \<Rightarrow> 'a list \<Rightarrow> bool" where
  "same_outside S h h' \<longleftrightarrow> length h' = length h \<and> (\<forall>p. p \<notin> S \<longrightarrow> p < length h \<longrightarrow> h' ! p = h ! p)"

lemma same_outside_refl [simp, frame_intros]: "same_outside S h h"
  by (simp add: same_outside_def)

lemma same_outside_trans:
  "same_outside S h h' \<Longrightarrow> same_outside T h' h'' \<Longrightarrow> same_outside (S \<union> T) h h''"
  by (auto simp: same_outside_def)

lemma same_outside_trans_same:
  "same_outside S h h' \<Longrightarrow> same_outside S h' h'' \<Longrightarrow> same_outside S h h''"
  by (auto simp: same_outside_def)

lemma same_outside_mono: "same_outside S h h' \<Longrightarrow> S \<subseteq> T \<Longrightarrow> same_outside T h h'"
  by (auto simp: same_outside_def)

lemma same_outside_update [frame_intros]: "p \<in> S \<Longrightarrow> same_outside S h (h[p := x])"
  by (auto simp: same_outside_def) (metis nth_list_update_neq)

lemma same_outside_nth: "same_outside S h h' \<Longrightarrow> p \<notin> S \<Longrightarrow> p < length h \<Longrightarrow> h' ! p = h ! p"
  by (simp add: same_outside_def)

lemma same_outside_length: "same_outside S h h' \<Longrightarrow> length h' = length h"
  by (simp add: same_outside_def)

lemma same_outside_map:
  assumes "same_outside S h h'" and "set ps \<inter> S = {}" and "set ps \<subseteq> {..<length h}"
  shows "map ((!) h') ps = map ((!) h) ps"
  using assms by (auto simp: same_outside_def)

section \<open>Options and lists\<close>

lemma option_ext: "(\<And>v. x = Some v \<longleftrightarrow> y = Some v) \<Longrightarrow> x = y"
  by (cases x; cases y) auto

lemma distinct_bounded_length:
  "distinct xs \<Longrightarrow> set xs \<subseteq> {..<n} \<Longrightarrow> length xs \<le> (n :: nat)"
  using card_mono [of "{..<n}" "set xs"] by (simp add: distinct_card)

lemma filter_keys_notin: "k \<notin> fst ` set m \<Longrightarrow> filter (\<lambda>e. fst e \<noteq> k) m = m"
  by (rule filter_True) auto

lemma map_keys_notin:
  "k \<notin> fst ` set m \<Longrightarrow> map (\<lambda>e. if fst e = k then f e else e) m = m"
  by (rule map_idI) auto

lemma sum_list_map_unat_append [simp]:
  "sum_list (map (\<lambda>x. unat (f x)) (xs @ ys)) =
   sum_list (map (\<lambda>x. unat (f x)) xs) + sum_list (map (\<lambda>x. unat (f x)) ys)"
  by simp

section \<open>Sequences of operations\<close>

text \<open>
  A component driven by operations that may be undefined (\<open>None\<close>) and that its clients may only
  call when \<open>allowed\<close>. If every allowed operation is defined and keeps an invariant, then every
  admissible sequence runs to its end and ends in the invariant.
\<close>

fun run :: "('op \<Rightarrow> 's \<Rightarrow> 's option) \<Rightarrow> 'op list \<Rightarrow> 's \<Rightarrow> 's option" where
  "run exec [] s = Some s"
| "run exec (a # as) s = Option.bind (exec a s) (run exec as)"

fun admissible :: "('op \<Rightarrow> 's \<Rightarrow> 's option) \<Rightarrow> ('op \<Rightarrow> 's \<Rightarrow> bool) \<Rightarrow> 'op list \<Rightarrow> 's \<Rightarrow> bool" where
  "admissible exec allowed [] s = True"
| "admissible exec allowed (a # as) s =
     (allowed a s \<and> (case exec a s of None \<Rightarrow> True | Some s' \<Rightarrow> admissible exec allowed as s'))"

locale op_system =
  fixes exec :: "'op \<Rightarrow> 's \<Rightarrow> 's option"
    and allowed :: "'op \<Rightarrow> 's \<Rightarrow> bool"
    and inv :: "'s \<Rightarrow> bool"
  assumes exec_inv: "inv s \<Longrightarrow> allowed a s \<Longrightarrow> \<exists>s'. exec a s = Some s' \<and> inv s'"
begin

lemma run_inv: "inv s \<Longrightarrow> admissible exec allowed as s \<Longrightarrow> \<exists>s'. run exec as s = Some s' \<and> inv s'"
proof (induction "as" arbitrary: s)
  case (Cons a as')
  obtain s' where "exec a s = Some s'" "inv s'" using exec_inv Cons.prems by fastforce
  then show ?case using Cons by auto
qed simp

end

end
