(* ===== verification/Core_Types.thy ===== *)
theory Core_Types
  imports Prelude
begin

text \<open>
  \<open>include/ordbk/core/types.hpp\<close>, \<open>include/ordbk/orderbook/order.hpp\<close> and
  \<open>include/ordbk/orderbook/trade.hpp\<close>: the strong types, the enumerations, the order record
  and the trade record.

  The C++ enumerations have a fixed underlying type, so a \<open>static_cast\<close> from a byte of
  the wire can yield a value that is no enumerator. The gateway makes such casts without a
  check; the \<open>_raw\<close> constructors carry these values, and every comparison of the code
  with an enumerator treats them as different from all enumerators.
\<close>

section \<open>Enumerations\<close>

datatype side = Buy | Sell | Side_raw u8

datatype order_type = Limit | Market | OrderType_raw u8

datatype time_in_force = GTC | IOC | FOK | Day | Tif_raw u8

datatype order_status = New | PartiallyFilled | Filled | Cancelled | Rejected

definition side_cast :: "u8 \<Rightarrow> side" where
  "side_cast v = (if v = 0 then Buy else if v = 1 then Sell else Side_raw v)"

definition order_type_cast :: "u8 \<Rightarrow> order_type" where
  "order_type_cast v = (if v = 0 then Limit else if v = 1 then Market else OrderType_raw v)"

definition tif_cast :: "u8 \<Rightarrow> time_in_force" where
  "tif_cast v = (if v = 0 then GTC else if v = 1 then IOC else if v = 2 then FOK
     else if v = 3 then Day else Tif_raw v)"

primrec order_status_u8 :: "order_status \<Rightarrow> u8" where
  "order_status_u8 New = 0"
| "order_status_u8 PartiallyFilled = 1"
| "order_status_u8 Filled = 2"
| "order_status_u8 Cancelled = 3"
| "order_status_u8 Rejected = 4"

definition opposite :: "side \<Rightarrow> side" where
  "opposite s = (if s = Buy then Sell else Buy)"

lemma opposite_Buy [simp]: "opposite Buy = Sell"
  by (simp add: opposite_def)

lemma opposite_not_Buy [simp]: "s \<noteq> Buy \<Longrightarrow> opposite s = Buy"
  by (simp add: opposite_def)

lemma opposite_eq_Buy: "opposite s = Buy \<longleftrightarrow> s \<noteq> Buy"
  by (simp add: opposite_def)

section \<open>Quantities\<close>

text \<open>\<open>Quantity\<close> is an unsigned 64-bit integer; its operators wrap around.\<close>

definition kZeroQty :: u64 where
  "kZeroQty = 0"

definition qty_min :: "u64 \<Rightarrow> u64 \<Rightarrow> u64" where
  "qty_min a b = (if a < b then a else b)"

lemma qty_min_eq: "qty_min a b = min a b"
  by (auto simp: qty_min_def min_def)

section \<open>Orders and trades\<close>

record order =
  order_id :: u64
  limit_price :: i64
  initial_qty :: u64
  filled_qty :: u64
  order_instrument :: u32
  order_client :: u32
  status :: order_status
  side :: side
  order_type :: order_type
  tif :: time_in_force
  ts :: i64
  enqueue_ns :: i64
  match_complete_ns :: i64
  level_prev :: "ptr option"
  level_next :: "ptr option"

text \<open>\<open>Order{}\<close>: every field value-initialised.\<close>

definition order_default :: order where
  "order_default = \<lparr>order_id = 0, limit_price = 0, initial_qty = 0, filled_qty = kZeroQty,
     order_instrument = 0, order_client = 0, status = New, side = Buy, order_type = Limit,
     tif = GTC, ts = 0, enqueue_ns = 0, match_complete_ns = 0,
     level_prev = None, level_next = None\<rparr>"

definition remaining :: "order \<Rightarrow> u64" where
  "remaining ord = initial_qty ord - filled_qty ord"

definition is_fully_filled :: "order \<Rightarrow> bool" where
  "is_fully_filled ord \<longleftrightarrow> filled_qty ord = initial_qty ord"

definition is_terminal :: "order \<Rightarrow> bool" where
  "is_terminal ord \<longleftrightarrow> status ord = Filled \<or> status ord = Cancelled \<or> status ord = Rejected"

record trade =
  maker_id :: u64
  taker_id :: u64
  trade_instrument :: u32
  trade_price :: i64
  trade_quantity :: u64
  trade_ts :: i64

type_synonym heap = "order list"

section \<open>Facts about the order record\<close>

lemma remaining_0_iff: "remaining ord = 0 \<longleftrightarrow> is_fully_filled ord"
  by (auto simp: remaining_def is_fully_filled_def)

text \<open>No wrap-around in \<open>remaining\<close>: the filled quantity is within the order.\<close>

lemma filled_le_iff: "filled_qty ord \<le> initial_qty ord \<longleftrightarrow> remaining ord \<le> initial_qty ord"
proof
  assume "remaining ord \<le> initial_qty ord"
  then have "unat (initial_qty ord - remaining ord) = unat (initial_qty ord) - unat (remaining ord)"
    by (rule unat_sub_le)
  moreover have "initial_qty ord - remaining ord = filled_qty ord" by (simp add: remaining_def)
  ultimately show "filled_qty ord \<le> initial_qty ord" by (simp add: word_le_nat_alt)
qed (simp add: remaining_def unat_sub_le word_le_nat_alt)

lemma filled_less_iff:
  "filled_qty ord < initial_qty ord \<longleftrightarrow> remaining ord \<noteq> 0 \<and> remaining ord \<le> initial_qty ord"
  using filled_le_iff [of ord] remaining_0_iff [of ord] by (auto simp: is_fully_filled_def)

text \<open>A fill of at most the remaining quantity moves exactly that much, without wrapping.\<close>

lemma remaining_after_fill:
  assumes "f \<le> remaining ord"
  shows "unat (remaining (ord\<lparr>filled_qty := filled_qty ord + f\<rparr>)) = unat (remaining ord) - unat f"
proof -
  have "remaining (ord\<lparr>filled_qty := filled_qty ord + f\<rparr>) = remaining ord - f"
    by (simp add: remaining_def)
  then show ?thesis using assms by (simp add: unat_sub_le)
qed

lemma filled_after_fill:
  assumes "f \<le> remaining ord" and "filled_qty ord \<le> initial_qty ord"
  shows "unat (filled_qty ord + f) = unat (filled_qty ord) + unat f"
    and "filled_qty ord + f \<le> initial_qty ord"
proof -
  have "unat (remaining ord) = unat (initial_qty ord) - unat (filled_qty ord)"
    using assms(2) by (simp add: remaining_def unat_sub_le)
  moreover have "unat f \<le> unat (remaining ord)" and "unat (filled_qty ord) \<le> unat (initial_qty ord)"
    using assms by (simp_all add: word_le_nat_alt)
  moreover have "unat (initial_qty ord) < 2 ^ 64"
    using unsigned_less [of "initial_qty ord", where ?'a = nat] by simp
  ultimately have "unat (filled_qty ord) + unat f < 2 ^ 64"
    and le: "unat (filled_qty ord) + unat f \<le> unat (initial_qty ord)" by linarith+
  then show "unat (filled_qty ord + f) = unat (filled_qty ord) + unat f"
    by (simp add: unat_word_ariths)
  with le show "filled_qty ord + f \<le> initial_qty ord"
    by (simp add: word_le_nat_alt)
qed

text \<open>
  The list links of an order are private to the price level it rests in; \<open>core\<close> is the
  order without them, what the rest of the system sees.
\<close>

definition core :: "order \<Rightarrow> order" where
  "core ord = ord\<lparr>level_prev := None, level_next := None\<rparr>"

lemma core_simps [simp]:
  "order_id (core ord) = order_id ord" "limit_price (core ord) = limit_price ord"
  "initial_qty (core ord) = initial_qty ord" "filled_qty (core ord) = filled_qty ord"
  "order_instrument (core ord) = order_instrument ord" "status (core ord) = status ord"
  "side (core ord) = side ord" "order_type (core ord) = order_type ord" "tif (core ord) = tif ord"
  "ts (core ord) = ts ord" "remaining (core ord) = remaining ord"
  "is_fully_filled (core ord) = is_fully_filled ord" "is_terminal (core ord) = is_terminal ord"
  by (simp_all add: core_def remaining_def is_fully_filled_def is_terminal_def)

lemma core_core [simp]: "core (core ord) = core ord"
  by (simp add: core_def)

lemma core_links [simp]:
  "core (ord\<lparr>level_prev := a\<rparr>) = core ord" "core (ord\<lparr>level_next := b\<rparr>) = core ord"
  by (simp_all add: core_def)

lemma core_updates [simp]:
  "core (ord\<lparr>filled_qty := q\<rparr>) = (core ord)\<lparr>filled_qty := q\<rparr>"
  "core (ord\<lparr>status := s\<rparr>) = (core ord)\<lparr>status := s\<rparr>"
  "core (ord\<lparr>match_complete_ns := t\<rparr>) = (core ord)\<lparr>match_complete_ns := t\<rparr>"
  by (simp_all add: core_def)

end
