(* ===== verification/Messages.thy ===== *)
theory Messages
  imports Core_Types
begin

text \<open>
  \<open>include/ordbk/protocol/protocol.hpp\<close> and \<open>include/ordbk/protocol/messages.hpp\<close>: the constants of
  the wire protocol, the message header and the message bodies. The two enumerations have \<open>uint8_t\<close>
  as their underlying type and are cast from wire bytes without a check, so each has a constructor
  for the values that are no enumerator.
\<close>

section \<open>Constants\<close>

definition kProtocolVersion :: u8 where
  "kProtocolVersion = 1"

definition kHeaderSize :: nat where
  "kHeaderSize = 8"

definition kMaxBodySize :: nat where
  "kMaxBodySize = 4096"

section \<open>Enumerations\<close>

datatype msg_type =
    MT_Logon | MT_Logout | MT_Heartbeat | MT_NewOrder | MT_CancelOrder
  | MT_OrderAck | MT_OrderReject | MT_Fill | MT_Cancelled | MT_raw u8

datatype reject_reason =
    RR_Unknown | UnknownInstrument | InvalidQuantity | InvalidPrice | InvalidTif
  | NotLoggedOn | DuplicateOrderId | InsufficientLiquidity | RR_raw u8

fun msg_type_u8 :: "msg_type \<Rightarrow> u8" where
  "msg_type_u8 MT_Logon = 0x01"
| "msg_type_u8 MT_Logout = 0x02"
| "msg_type_u8 MT_Heartbeat = 0x03"
| "msg_type_u8 MT_NewOrder = 0x10"
| "msg_type_u8 MT_CancelOrder = 0x11"
| "msg_type_u8 MT_OrderAck = 0x20"
| "msg_type_u8 MT_OrderReject = 0x21"
| "msg_type_u8 MT_Fill = 0x22"
| "msg_type_u8 MT_Cancelled = 0x23"
| "msg_type_u8 (MT_raw b) = b"

definition msg_type_cast :: "u8 \<Rightarrow> msg_type" where
  "msg_type_cast b =
     (if b = 0x01 then MT_Logon else if b = 0x02 then MT_Logout else if b = 0x03 then MT_Heartbeat
      else if b = 0x10 then MT_NewOrder else if b = 0x11 then MT_CancelOrder
      else if b = 0x20 then MT_OrderAck else if b = 0x21 then MT_OrderReject
      else if b = 0x22 then MT_Fill else if b = 0x23 then MT_Cancelled else MT_raw b)"

fun reject_reason_u8 :: "reject_reason \<Rightarrow> u8" where
  "reject_reason_u8 RR_Unknown = 0"
| "reject_reason_u8 UnknownInstrument = 1"
| "reject_reason_u8 InvalidQuantity = 2"
| "reject_reason_u8 InvalidPrice = 3"
| "reject_reason_u8 InvalidTif = 4"
| "reject_reason_u8 NotLoggedOn = 5"
| "reject_reason_u8 DuplicateOrderId = 6"
| "reject_reason_u8 InsufficientLiquidity = 7"
| "reject_reason_u8 (RR_raw b) = b"

definition reject_reason_cast :: "u8 \<Rightarrow> reject_reason" where
  "reject_reason_cast b =
     (if b = 0 then RR_Unknown else if b = 1 then UnknownInstrument else if b = 2 then InvalidQuantity
      else if b = 3 then InvalidPrice else if b = 4 then InvalidTif else if b = 5 then NotLoggedOn
      else if b = 6 then DuplicateOrderId else if b = 7 then InsufficientLiquidity else RR_raw b)"

text \<open>A cast to the underlying type and back; the \<open>raw\<close> constructors hold only other values.\<close>

definition proper_msg_type :: "msg_type \<Rightarrow> bool" where
  "proper_msg_type t \<longleftrightarrow> msg_type_cast (msg_type_u8 t) = t"

definition proper_reason :: "reject_reason \<Rightarrow> bool" where
  "proper_reason r \<longleftrightarrow> reject_reason_cast (reject_reason_u8 r) = r"

lemma msg_type_u8_cast [simp]: "msg_type_u8 (msg_type_cast b) = b"
  by (simp add: msg_type_cast_def)

lemma reject_reason_u8_cast [simp]: "reject_reason_u8 (reject_reason_cast b) = b"
  by (simp add: reject_reason_cast_def)

lemma proper_cast [simp]: "proper_msg_type (msg_type_cast b)" "proper_reason (reject_reason_cast b)"
  by (simp_all add: proper_msg_type_def proper_reason_def)

section \<open>Messages\<close>

record message_header =
  protocol_version :: u8
  msg_type :: msg_type
  body_length :: u16
  sequence :: u32

record logon_msg =
  lo_client_id :: u32

record new_order_msg =
  no_client_order_id :: u64
  no_instrument_id :: u32
  no_side :: u8
  no_order_type :: u8
  no_tif :: u8
  no_price :: i64
  no_quantity :: u64

record cancel_order_msg =
  co_client_order_id :: u64
  co_instrument_id :: u32

record order_ack_msg =
  oa_client_order_id :: u64
  oa_server_order_id :: u64

record order_reject_msg =
  rj_client_order_id :: u64
  rj_reason :: reject_reason

record fill_msg =
  fl_client_order_id :: u64
  fl_server_order_id :: u64
  fl_price :: i64
  fl_quantity :: u64
  fl_post_status :: u8

record cancelled_msg =
  cn_client_order_id :: u64

datatype message_body =
    LogonMsg logon_msg
  | LogoutMsg
  | HeartbeatMsg
  | NewOrderMsg new_order_msg
  | CancelOrderMsg cancel_order_msg
  | OrderAckMsg order_ack_msg
  | OrderRejectMsg order_reject_msg
  | FillMsg fill_msg
  | CancelledMsg cancelled_msg

record decoded_message =
  dm_header :: message_header
  dm_body :: message_body

text \<open>The values a C++ object can hold: prices are 64-bit, casts give enumerators where there is one.\<close>

fun body_ok :: "message_body \<Rightarrow> bool" where
  "body_ok (NewOrderMsg m) = in_i64 (no_price m)"
| "body_ok (FillMsg m) = in_i64 (fl_price m)"
| "body_ok (OrderRejectMsg m) = proper_reason (rj_reason m)"
| "body_ok _ = True"

end
