(* ===== verification/Wire.thy ===== *)
theory Wire
  imports Prelude
begin

unbundle bit_operations_syntax

text \<open>
  The \<open>BufferWriter\<close> and \<open>BufferReader\<close> of \<open>protocol/codec.hpp\<close>: cursors over a fixed span of bytes
  that write and read little-endian integers. Each returns false, and moves nothing, when the span
  has too few bytes left. The interface \<open>wire_field\<close> is what the message codec relies on: a field
  type has a fixed width, its bytes are appended to what was written, and reading inverts writing.
\<close>

record buffer_writer =
  w_buf :: "u8 list"
  w_pos :: nat

record buffer_reader =
  r_buf :: "u8 list"
  r_pos :: nat

definition new_writer :: "u8 list \<Rightarrow> buffer_writer" where
  "new_writer buf = \<lparr>w_buf = buf, w_pos = 0\<rparr>"

definition new_reader :: "u8 list \<Rightarrow> buffer_reader" where
  "new_reader buf = \<lparr>r_buf = buf, r_pos = 0\<rparr>"

definition reader_remaining :: "buffer_reader \<Rightarrow> nat" where
  "reader_remaining r = length (r_buf r) - r_pos r"

section \<open>Writing\<close>

text \<open>\<open>buf_[pos_++] = b\<close>\<close>

definition put_byte :: "u8 \<Rightarrow> buffer_writer \<Rightarrow> buffer_writer option" where
  "put_byte b w = do {
     buf \<leftarrow> modify_at (w_buf w) (w_pos w) (\<lambda>_. b);
     Some (w\<lparr>w_buf := buf, w_pos := w_pos w + 1\<rparr>)
   }"

text \<open>The loop of \<open>write_u32\<close> and \<open>write_u64\<close>: the bytes \<open>i, ..., i + k - 1\<close> of \<open>v\<close>.\<close>

fun put_bytes :: "nat \<Rightarrow> nat \<Rightarrow> 'a :: len word \<Rightarrow> buffer_writer \<Rightarrow> buffer_writer option" where
  "put_bytes i 0 v w = Some w"
| "put_bytes i (Suc k) v w = do {
     w' \<leftarrow> put_byte (ucast (drop_bit (8 * i) v AND 0xFF)) w;
     put_bytes (Suc i) k v w'
   }"

definition write_u8 :: "u8 \<Rightarrow> buffer_writer \<Rightarrow> (bool \<times> buffer_writer) option" where
  "write_u8 v w =
     (if w_pos w + 1 > length (w_buf w) then Some (False, w)
      else do { w' \<leftarrow> put_byte v w; Some (True, w') })"

definition write_u16 :: "u16 \<Rightarrow> buffer_writer \<Rightarrow> (bool \<times> buffer_writer) option" where
  "write_u16 v w =
     (if w_pos w + 2 > length (w_buf w) then Some (False, w)
      else do {
        w1 \<leftarrow> put_byte (ucast (v AND 0xFF)) w;
        w2 \<leftarrow> put_byte (ucast (drop_bit 8 v AND 0xFF)) w1;
        Some (True, w2)
      })"

definition write_u32 :: "u32 \<Rightarrow> buffer_writer \<Rightarrow> (bool \<times> buffer_writer) option" where
  "write_u32 v w =
     (if w_pos w + 4 > length (w_buf w) then Some (False, w)
      else do { w' \<leftarrow> put_bytes 0 4 v w; Some (True, w') })"

definition write_u64 :: "u64 \<Rightarrow> buffer_writer \<Rightarrow> (bool \<times> buffer_writer) option" where
  "write_u64 v w =
     (if w_pos w + 8 > length (w_buf w) then Some (False, w)
      else do { w' \<leftarrow> put_bytes 0 8 v w; Some (True, w') })"

definition write_i64 :: "i64 \<Rightarrow> buffer_writer \<Rightarrow> (bool \<times> buffer_writer) option" where
  "write_i64 v w = write_u64 (word_of_int v) w"

text \<open>\<open>a && b\<close> on calls that write.\<close>

definition wand ::
  "(buffer_writer \<Rightarrow> (bool \<times> buffer_writer) option) \<Rightarrow> (buffer_writer \<Rightarrow> (bool \<times> buffer_writer) option) \<Rightarrow>
   buffer_writer \<Rightarrow> (bool \<times> buffer_writer) option" where
  "wand a b w = do { (ok, w') \<leftarrow> a w; if ok then b w' else Some (False, w') }"

section \<open>Reading\<close>

text \<open>
  A read returns whether it succeeded, its out-parameter and the advanced cursor: \<open>Some (None, r)\<close>
  when it returned false, \<open>Some (Some v, r')\<close> when it returned true.
\<close>

type_synonym 'a read_op = "buffer_reader \<Rightarrow> ('a option \<times> buffer_reader) option"

definition get_byte :: "buffer_reader \<Rightarrow> (u8 \<times> buffer_reader) option" where
  "get_byte r = do {
     b \<leftarrow> deref (r_buf r) (r_pos r);
     Some (b, r\<lparr>r_pos := r_pos r + 1\<rparr>)
   }"

text \<open>The loop \<open>v |= byte << (8 * i)\<close>.\<close>

fun get_bytes :: "nat \<Rightarrow> nat \<Rightarrow> 'a :: len word \<Rightarrow> buffer_reader \<Rightarrow> ('a word \<times> buffer_reader) option" where
  "get_bytes i 0 v r = Some (v, r)"
| "get_bytes i (Suc k) v r = do {
     (b, r') \<leftarrow> get_byte r;
     get_bytes (Suc i) k (v OR push_bit (8 * i) (ucast b)) r'
   }"

definition read_u8 :: "u8 read_op" where
  "read_u8 r =
     (if r_pos r + 1 > length (r_buf r) then Some (None, r)
      else do { (b, r') \<leftarrow> get_byte r; Some (Some b, r') })"

definition read_u16 :: "u16 read_op" where
  "read_u16 r =
     (if r_pos r + 2 > length (r_buf r) then Some (None, r)
      else do {
        (a, r1) \<leftarrow> get_byte r;
        (b, r2) \<leftarrow> get_byte r1;
        Some (Some (ucast a OR push_bit 8 (ucast b)), r2)
      })"

definition read_u32 :: "u32 read_op" where
  "read_u32 r =
     (if r_pos r + 4 > length (r_buf r) then Some (None, r)
      else do { (v, r') \<leftarrow> get_bytes 0 4 0 r; Some (Some v, r') })"

definition read_u64 :: "u64 read_op" where
  "read_u64 r =
     (if r_pos r + 8 > length (r_buf r) then Some (None, r)
      else do { (v, r') \<leftarrow> get_bytes 0 8 0 r; Some (Some v, r') })"

definition read_i64 :: "i64 read_op" where
  "read_i64 r = do {
     (u, r') \<leftarrow> read_u64 r;
     Some (case u of None \<Rightarrow> (None, r') | Some x \<Rightarrow> (Some (sint x), r'))
   }"

text \<open>\<open>if (!r.read(x)) return std::nullopt;\<close> followed by the rest.\<close>

definition rbind :: "'a read_op \<Rightarrow> ('a \<Rightarrow> 'b read_op) \<Rightarrow> 'b read_op" where
  "rbind m f r = do {
     (x, r') \<leftarrow> m r;
     case x of None \<Rightarrow> Some (None, r') | Some v \<Rightarrow> f v r'
   }"

definition rreturn :: "'a \<Rightarrow> 'a read_op" where
  "rreturn v r = Some (Some v, r)"

section \<open>Little-endian bytes\<close>

definition le_bytes :: "nat \<Rightarrow> 'a :: len word \<Rightarrow> u8 list" where
  "le_bytes n v = map (\<lambda>i. ucast (drop_bit (8 * i) v AND 0xFF)) [0..<n]"

definition le_word :: "u8 list \<Rightarrow> 'a :: len word" where
  "le_word bs = foldl (\<lambda>v i. v OR push_bit (8 * i) (ucast (bs ! i))) 0 [0..<length bs]"

lemma length_le_bytes [simp]: "length (le_bytes n v) = n"
  by (simp add: le_bytes_def)

lemma mask_byte: "(0xFF :: 'a :: len word) = mask 8"
  by (simp add: mask_eq_exp_minus_1)

lemma bit_le_bytes:
  fixes v :: "'a :: len word"
  assumes "i < n"
  shows "bit (le_bytes n v ! i) j \<longleftrightarrow> j < 8 \<and> bit v (8 * i + j)"
  using assms bit_imp_le_length [of v "8 * i + j"] by (auto simp: le_bytes_def mask_byte bit_simps)

lemma bit_fold_or:
  fixes v0 :: "'a :: len word"
  shows "bit (foldl (\<lambda>v i. v OR push_bit (8 * i) (ucast (f i :: u8))) v0 is) n \<longleftrightarrow>
     bit v0 n \<or> (n < LENGTH('a) \<and> (\<exists>i \<in> set is. 8 * i \<le> n \<and> bit (f i) (n - 8 * i)))"
  by (induction "is" arbitrary: v0) (auto simp: bit_simps)

lemma bit_le_word:
  fixes bs :: "u8 list"
  shows "bit (le_word bs :: 'a :: len word) n \<longleftrightarrow>
    n < LENGTH('a) \<and> n div 8 < length bs \<and> bit (bs ! (n div 8)) (n mod 8)"
proof -
  have "(\<exists>i \<in> set [0..<length bs]. 8 * i \<le> n \<and> bit (bs ! i) (n - 8 * i)) \<longleftrightarrow>
      n div 8 < length bs \<and> bit (bs ! (n div 8)) (n mod 8)" (is "?l \<longleftrightarrow> ?r")
  proof
    assume ?l
    then obtain i where i: "i < length bs" "8 * i \<le> n" "bit (bs ! i) (n - 8 * i)" by auto
    then have "n - 8 * i < 8" using bit_imp_le_length [OF i(3)] by simp
    then have "n div 8 = i \<and> n mod 8 = n - 8 * i" using i(2) by presburger
    then show ?r using i by simp
  next
    assume ?r
    then show ?l by (intro bexI [of _ "n div 8"]) (simp_all add: minus_mult_div_eq_mod)
  qed
  then show ?thesis by (simp add: le_word_def bit_fold_or)
qed

lemma le_word_bytes: "8 * n = LENGTH('a) \<Longrightarrow> le_word (le_bytes n v) = (v :: 'a :: len word)"
  by (rule bit_word_eqI) (auto simp: bit_le_word bit_le_bytes)

lemma le_bytes_word:
  assumes "8 * length bs = LENGTH('a)"
  shows "le_bytes (length bs) (le_word bs :: 'a :: len word) = bs"
proof (rule nth_equalityI)
  fix i assume "i < length (le_bytes (length bs) (le_word bs :: 'a word))"
  then have i: "i < length bs" by simp
  then have "8 * i + j < LENGTH('a)" if "j < 8" for j using assms that by simp
  then show "le_bytes (length bs) (le_word bs :: 'a word) ! i = bs ! i"
    using i bit_imp_le_length [of "bs ! i"] by (intro bit_word_eqI) (auto simp: bit_le_bytes bit_le_word)
qed simp

section \<open>Cursors\<close>

text \<open>Where a writer has room, and the writer after appending bytes.\<close>

definition fits :: "buffer_writer \<Rightarrow> nat \<Rightarrow> bool" where
  "fits w n \<longleftrightarrow> w_pos w + n \<le> length (w_buf w)"

definition put_all :: "u8 list \<Rightarrow> buffer_writer \<Rightarrow> buffer_writer" where
  "put_all bs w = w\<lparr>w_buf := take (w_pos w) (w_buf w) @ bs @ drop (w_pos w + length bs) (w_buf w),
     w_pos := w_pos w + length bs\<rparr>"

lemma put_all_Nil [simp]: "put_all [] w = w"
  by (simp add: put_all_def)

lemma put_all_pos [simp]: "w_pos (put_all bs w) = w_pos w + length bs"
  by (simp add: put_all_def)

lemma fits_put_all: "fits w (length bs) \<Longrightarrow> fits (put_all bs w) n \<longleftrightarrow> fits w (length bs + n)"
  by (auto simp: fits_def put_all_def)

lemma put_all_append: "fits w (length xs + length ys) \<Longrightarrow> put_all ys (put_all xs w) = put_all (xs @ ys) w"
  by (simp add: fits_def put_all_def add.commute add.left_commute)

lemma put_byte_fits: "fits w 1 \<Longrightarrow> put_byte b w = Some (put_all [b] w)"
  by (simp add: put_byte_def put_all_def fits_def upd_conv_take_nth_drop)

lemma put_bytes_fits:
  "fits w k \<Longrightarrow> put_bytes i k v w = Some (put_all (map (\<lambda>i. ucast (drop_bit (8 * i) v AND 0xFF)) [i..<i + k]) w)"
proof (induction k arbitrary: i w)
  case (Suc k)
  have f1: "fits w 1" using Suc.prems by (simp add: fits_def)
  have "fits (put_all [b] w) k" for b using fits_put_all [of w "[b]" k] f1 Suc.prems by simp
  moreover have "[i..<i + Suc k] = i # [Suc i..<Suc i + k]" by (simp add: upt_rec)
  ultimately show ?case
    using Suc.IH Suc.prems put_byte_fits [OF f1] by (simp add: put_all_append del: upt_Suc)
qed simp

text \<open>
  A call that writes \<open>bs\<close>: with enough room it appends them and returns true, else it returns false.
\<close>

definition wr_spec :: "(buffer_writer \<Rightarrow> (bool \<times> buffer_writer) option) \<Rightarrow> u8 list \<Rightarrow> bool" where
  "wr_spec wr bs \<longleftrightarrow> (\<forall>w. w_pos w \<le> length (w_buf w) \<longrightarrow> (if fits w (length bs) then wr w = Some (True, put_all bs w) else \<exists>w'. wr w = Some (False, w')))"

lemma wr_spec_fits: "wr_spec wr bs \<Longrightarrow> fits w (length bs) \<Longrightarrow> wr w = Some (True, put_all bs w)"
  by (simp add: wr_spec_def fits_def)

lemma wr_spec_wand:
  assumes a: "wr_spec a xs" and b: "wr_spec b ys"
  shows "wr_spec (wand a b) (xs @ ys)"
  unfolding wr_spec_def
proof (intro allI impI)
  fix w :: buffer_writer
  assume w: "w_pos w \<le> length (w_buf w)"
  show "if fits w (length (xs @ ys)) then wand a b w = Some (True, put_all (xs @ ys) w) else \<exists>w'. wand a b w = Some (False, w')"
  proof (cases "fits w (length xs)")
    case True
    then have "wand a b w = b (put_all xs w)" using wr_spec_fits [OF a] by (simp add: wand_def)
    moreover have "w_pos (put_all xs w) \<le> length (w_buf (put_all xs w))"
      using True fits_put_all [OF True, of 0] by (simp add: fits_def)
    moreover have "fits (put_all xs w) (length ys) \<longleftrightarrow> fits w (length (xs @ ys))"
      using fits_put_all [OF True, of "length ys"] by simp
    ultimately show ?thesis
      using b [unfolded wr_spec_def, rule_format, of "put_all xs w"] put_all_append [of w xs ys] by (auto split: if_splits)
  next
    case False
    then have "\<not> fits w (length (xs @ ys))" by (simp add: fits_def)
    moreover obtain w' where "a w = Some (False, w')" using a [unfolded wr_spec_def, rule_format, OF w] False by auto
    ultimately show ?thesis by (simp add: wand_def)
  qed
qed

text \<open>What a reader has ahead of it.\<close>

definition ahead :: "buffer_reader \<Rightarrow> u8 list" where
  "ahead r = drop (r_pos r) (r_buf r)"

definition adv :: "nat \<Rightarrow> buffer_reader \<Rightarrow> buffer_reader" where
  "adv n r = r\<lparr>r_pos := r_pos r + n\<rparr>"

lemma ahead_adv [simp]: "ahead (adv n r) = drop n (ahead r)"
  by (simp add: ahead_def adv_def add.commute)

lemma ahead_new [simp]: "ahead (new_reader bs) = bs"
  by (simp add: ahead_def new_reader_def)

lemma adv_adv [simp]: "adv n (adv k r) = adv (k + n) r"
  by (simp add: adv_def)

lemma adv_0 [simp]: "adv 0 r = r"
  by (simp add: adv_def)

lemma too_short_iff: "r_pos r + Suc n > length (r_buf r) \<longleftrightarrow> length (ahead r) < Suc n"
  by (auto simp: ahead_def)

lemma get_byte_ahead: "ahead r = b # bs \<Longrightarrow> get_byte r = Some (b, adv 1 r)"
  by (cases "r_pos r < length (r_buf r)")
     (auto simp: get_byte_def adv_def ahead_def Cons_nth_drop_Suc [symmetric])

lemma get_bytes_ahead:
  "k \<le> length (ahead r) \<Longrightarrow>
   get_bytes i k v r = Some (foldl (\<lambda>v j. v OR push_bit (8 * j) (ucast (ahead r ! (j - i)))) v [i..<i + k], adv k r)"
proof (induction k arbitrary: i v r)
  case (Suc k)
  then obtain b bs where a: "ahead r = b # bs" by (cases "ahead r") auto
  let ?v = "v OR push_bit (8 * i) (ucast b)"
  have "get_bytes i (Suc k) v r = get_bytes (Suc i) k ?v (adv 1 r)" using get_byte_ahead [OF a] by simp
  also have "\<dots> = Some (foldl (\<lambda>v j. v OR push_bit (8 * j) (ucast (bs ! (j - Suc i)))) ?v [Suc i..<Suc i + k], adv (Suc k) r)"
    using Suc.IH [of "adv 1 r" "Suc i" ?v] Suc.prems a by simp
  also have "foldl (\<lambda>v j. v OR push_bit (8 * j) (ucast (bs ! (j - Suc i)))) ?v [Suc i..<Suc i + k] =
      foldl (\<lambda>v j. v OR push_bit (8 * j) (ucast (ahead r ! (j - i)))) ?v [Suc i..<Suc i + k]"
    by (rule foldl_cong) (auto simp: a nth_Cons' Suc_diff_Suc)
  finally show ?case using a by (simp add: upt_rec)
qed simp

lemma get_word_ahead:
  assumes "k \<le> length (ahead r)"
  shows "get_bytes 0 k 0 r = Some (le_word (take k (ahead r)), adv k r)"
proof -
  have "foldl (\<lambda>v j. v OR push_bit (8 * j) (ucast (ahead r ! (j - 0)))) 0 [0..<0 + k] =
      (le_word (take k (ahead r)) :: 'a word)"
    unfolding le_word_def by (rule foldl_cong) (use assms in auto)
  then show ?thesis using get_bytes_ahead [OF assms, of 0 "0 :: 'a word"] by (simp only:)
qed

text \<open>A read that returns false.\<close>

definition fails :: "'a read_op \<Rightarrow> buffer_reader \<Rightarrow> bool" where
  "fails m r \<longleftrightarrow> (\<exists>r'. m r = Some (None, r'))"

section \<open>Field types\<close>

locale wire_field =
  fixes wr :: "'a \<Rightarrow> buffer_writer \<Rightarrow> (bool \<times> buffer_writer) option"
    and rd :: "'a read_op"
    and enc :: "'a \<Rightarrow> u8 list"
    and dec :: "u8 list \<Rightarrow> 'a"
    and width :: nat
    and valid :: "'a \<Rightarrow> bool"
  assumes length_enc: "length (enc v) = width"
    and wr_enc: "wr_spec (wr v) (enc v)"
    and rd_fits: "width \<le> length (ahead r) \<Longrightarrow> rd r = Some (Some (dec (take width (ahead r))), adv width r)"
    and rd_short: "length (ahead r) < width \<Longrightarrow> rd r = Some (None, r)"
    and dec_enc: "valid v \<Longrightarrow> dec (enc v) = v"
    and enc_dec: "length bs = width \<Longrightarrow> enc (dec bs) = bs"
    and valid_dec: "length bs = width \<Longrightarrow> valid (dec bs)"
begin

lemma rbind_fits: "width \<le> length (ahead r) \<Longrightarrow> rbind rd f r = f (dec (take width (ahead r))) (adv width r)"
  by (simp add: rbind_def rd_fits)

lemma rbind_short: "length (ahead r) < width \<Longrightarrow> rbind rd f r = Some (None, r)"
  by (simp add: rbind_def rd_short)

lemma rbind_enc: "valid v \<Longrightarrow> ahead r = enc v @ bs \<Longrightarrow> rbind rd f r = f v (adv width r)"
  by (simp add: rbind_fits length_enc dec_enc)

lemma fails_rbind: "(\<And>v. width \<le> length (ahead r) \<Longrightarrow> fails (f v) (adv width r)) \<Longrightarrow> fails (rbind rd f) r"
  by (cases "width \<le> length (ahead r)") (auto simp: fails_def rbind_fits rbind_short)

lemma enc_dec_take: "width \<le> length bs \<Longrightarrow> enc (dec (take width bs)) = take width bs"
  by (simp add: enc_dec)

lemma valid_dec_take: "width \<le> length bs \<Longrightarrow> valid (dec (take width bs))"
  by (simp add: valid_dec)

end

lemma wr_spec_le_bytes:
  "wr_spec (\<lambda>w. if w_pos w + k > length (w_buf w) then Some (False, w) else do { w' \<leftarrow> put_bytes 0 k v w; Some (True, w') })
     (le_bytes k v)"
  by (auto simp: wr_spec_def fits_def put_bytes_fits le_bytes_def)

interpretation u8: wire_field write_u8 read_u8 "\<lambda>v. [v]" "hd" 1 "\<lambda>_. True"
proof
  show "wr_spec (write_u8 v) [v]" for v
    by (auto simp: wr_spec_def write_u8_def put_byte_fits fits_def)
  show "read_u8 r = Some (Some (hd (take 1 (ahead r))), adv 1 r)" if "1 \<le> length (ahead r)" for r
  proof -
    obtain b bs where "ahead r = b # bs" using \<open>1 \<le> length (ahead r)\<close> by (cases "ahead r") auto
    then show ?thesis using that too_short_iff [of r 0] by (simp add: read_u8_def get_byte_ahead)
  qed
  show "read_u8 r = Some (None, r)" if "length (ahead r) < 1" for r
    using that too_short_iff [of r 0] by (simp add: read_u8_def)
  show "[hd bs] = bs" if "length bs = 1" for bs :: "u8 list" using that by (cases bs) auto
qed simp_all

interpretation u16: wire_field write_u16 read_u16 "le_bytes 2" le_word 2 "\<lambda>_. True"
proof
  have two: "le_bytes 2 v = [ucast (v AND 0xFF), ucast (drop_bit 8 v AND 0xFF)]" for v :: u16
    by (simp add: le_bytes_def upt_rec)
  show "wr_spec (write_u16 v) (le_bytes 2 v)" for v
  proof -
    have "write_u16 v w = Some (True, put_all (le_bytes 2 v) w)" if "fits w 2" for w
    proof -
      have "fits w 1" "fits (put_all [b] w) 1" for b
        using that fits_put_all [of w "[b]" 1] by (auto simp: fits_def)
      then show ?thesis using that put_all_append [of w "[ucast (v AND 0xFF)]"]
        by (simp add: write_u16_def put_byte_fits two) (simp add: fits_def)
    qed
    then show ?thesis by (simp add: wr_spec_def) (simp add: fits_def write_u16_def)
  qed
  show "read_u16 r = Some (Some (le_word (take 2 (ahead r))), adv 2 r)" if le: "2 \<le> length (ahead r)" for r
  proof -
    obtain a b bs where ab: "ahead r = a # b # bs"
      using le by (auto simp: numeral_2_eq_2 Suc_le_length_iff)
    then have "get_byte (adv 1 r) = Some (b, adv 2 r)" using get_byte_ahead [of "adv 1 r" b bs] by (simp add: numeral_2_eq_2)
    then show ?thesis using ab le too_short_iff [of r 1]
      by (simp add: read_u16_def get_byte_ahead le_word_def upt_rec numeral_2_eq_2)
  qed
  show "read_u16 r = Some (None, r)" if "length (ahead r) < 2" for r
    using that too_short_iff [of r 1] by (simp add: read_u16_def numeral_2_eq_2)
  show "le_bytes 2 (le_word bs :: u16) = bs" if "length bs = 2" for bs
    using le_bytes_word [where 'a = 16, of bs] that by simp
qed (simp_all add: le_word_bytes)

interpretation u32: wire_field write_u32 read_u32 "le_bytes 4" le_word 4 "\<lambda>_. True"
proof
  show "wr_spec (write_u32 v) (le_bytes 4 v)" for v
    using wr_spec_le_bytes [of 4 v] by (simp add: write_u32_def [abs_def])
  show "read_u32 r = Some (Some (le_word (take 4 (ahead r))), adv 4 r)" if "4 \<le> length (ahead r)" for r
    using that too_short_iff [of r 3] get_word_ahead [of 4 r, where 'a = 32] by (simp add: read_u32_def)
  show "read_u32 r = Some (None, r)" if "length (ahead r) < 4" for r
    using that too_short_iff [of r 3] by (simp add: read_u32_def)
  show "le_bytes 4 (le_word bs :: u32) = bs" if "length bs = 4" for bs
    using le_bytes_word [where 'a = 32, of bs] that by simp
qed (simp_all add: le_word_bytes)

interpretation u64: wire_field write_u64 read_u64 "le_bytes 8" le_word 8 "\<lambda>_. True"
proof
  show "wr_spec (write_u64 v) (le_bytes 8 v)" for v
    using wr_spec_le_bytes [of 8 v] by (simp add: write_u64_def [abs_def])
  show "read_u64 r = Some (Some (le_word (take 8 (ahead r))), adv 8 r)" if "8 \<le> length (ahead r)" for r
    using that too_short_iff [of r 7] get_word_ahead [of 8 r, where 'a = 64] by (simp add: read_u64_def)
  show "read_u64 r = Some (None, r)" if "length (ahead r) < 8" for r
    using that too_short_iff [of r 7] by (simp add: read_u64_def)
  show "le_bytes 8 (le_word bs :: u64) = bs" if "length bs = 8" for bs
    using le_bytes_word [where 'a = 64, of bs] that by simp
qed (simp_all add: le_word_bytes)

interpretation i64: wire_field write_i64 read_i64 "\<lambda>v. le_bytes 8 (word_of_int v :: u64)" "\<lambda>bs. sint (le_word bs :: u64)" 8 in_i64
proof
  show "wr_spec (write_i64 v) (le_bytes 8 (word_of_int v :: u64))" for v
    using u64.wr_enc by (simp add: write_i64_def [abs_def])
  show "read_i64 r = Some (Some (sint (le_word (take 8 (ahead r)) :: u64)), adv 8 r)" if "8 \<le> length (ahead r)" for r
    using u64.rd_fits [OF that] by (simp add: read_i64_def)
  show "read_i64 r = Some (None, r)" if "length (ahead r) < 8" for r
    using u64.rd_short [OF that] by (simp add: read_i64_def)
  show "sint (le_word (le_bytes 8 (word_of_int v :: u64)) :: u64) = v" if "in_i64 v" for v
    using that by (simp add: u64.dec_enc in_i64_def signed_take_bit_int_eq_self signed_of_int)
  show "le_bytes 8 (word_of_int (sint (le_word bs :: u64)) :: u64) = bs" if "length bs = 8" for bs
    using u64.enc_dec [OF that] by simp
  show "in_i64 (sint (le_word bs :: u64))" for bs
    using sint_ge [of "le_word bs :: u64"] sint_lt [of "le_word bs :: u64"] by (simp add: in_i64_def)
qed simp

end
