(* ===== verification/Codec.thy ===== *)
theory Codec
  imports Messages Wire
begin

text \<open>
  \<open>include/ordbk/protocol/codec.hpp\<close> and \<open>src/protocol/codec.cpp\<close>: encoding and decoding of headers,
  bodies and whole messages over the cursors of \<open>Wire\<close>. \<open>body_bytes\<close> and \<open>message_bytes\<close> are the
  layout the functions are checked against.
\<close>

section \<open>Headers\<close>

definition encode_header :: "message_header \<Rightarrow> buffer_writer \<Rightarrow> (bool \<times> buffer_writer) option" where
  "encode_header h =
     wand (write_u8 (protocol_version h)) (wand (write_u8 (msg_type_u8 (msg_type h)))
       (wand (write_u16 (body_length h)) (write_u32 (sequence h))))"

definition decode_header :: "message_header read_op" where
  "decode_header =
     rbind read_u8 (\<lambda>v. rbind read_u8 (\<lambda>mt. rbind read_u16 (\<lambda>len. rbind read_u32 (\<lambda>sq.
       rreturn \<lparr>protocol_version = v, msg_type = msg_type_cast mt, body_length = len, sequence = sq\<rparr>))))"

section \<open>Bodies\<close>

definition write_nothing :: "buffer_writer \<Rightarrow> (bool \<times> buffer_writer) option" where
  "write_nothing w = Some (True, w)"

fun encode_body :: "message_body \<Rightarrow> buffer_writer \<Rightarrow> (bool \<times> buffer_writer) option" where
  "encode_body (LogonMsg m) = write_u32 (lo_client_id m)"
| "encode_body LogoutMsg = write_nothing"
| "encode_body HeartbeatMsg = write_nothing"
| "encode_body (NewOrderMsg m) =
     wand (write_u64 (no_client_order_id m)) (wand (write_u32 (no_instrument_id m))
       (wand (write_u8 (no_side m)) (wand (write_u8 (no_order_type m)) (wand (write_u8 (no_tif m))
         (wand (write_u8 0) (wand (write_i64 (no_price m)) (write_u64 (no_quantity m))))))))"
| "encode_body (CancelOrderMsg m) = wand (write_u64 (co_client_order_id m)) (write_u32 (co_instrument_id m))"
| "encode_body (OrderAckMsg m) = wand (write_u64 (oa_client_order_id m)) (write_u64 (oa_server_order_id m))"
| "encode_body (OrderRejectMsg m) = wand (write_u64 (rj_client_order_id m)) (write_u8 (reject_reason_u8 (rj_reason m)))"
| "encode_body (FillMsg m) =
     wand (write_u64 (fl_client_order_id m)) (wand (write_u64 (fl_server_order_id m))
       (wand (write_i64 (fl_price m)) (wand (write_u64 (fl_quantity m)) (write_u8 (fl_post_status m)))))"
| "encode_body (CancelledMsg m) = write_u64 (cn_client_order_id m)"

fun type_of :: "message_body \<Rightarrow> msg_type" where
  "type_of (LogonMsg m) = MT_Logon"
| "type_of LogoutMsg = MT_Logout"
| "type_of HeartbeatMsg = MT_Heartbeat"
| "type_of (NewOrderMsg m) = MT_NewOrder"
| "type_of (CancelOrderMsg m) = MT_CancelOrder"
| "type_of (OrderAckMsg m) = MT_OrderAck"
| "type_of (OrderRejectMsg m) = MT_OrderReject"
| "type_of (FillMsg m) = MT_Fill"
| "type_of (CancelledMsg m) = MT_Cancelled"

text \<open>The switch of \<open>decode_body\<close> on a reader over the body.\<close>

fun read_body :: "msg_type \<Rightarrow> message_body read_op" where
  "read_body MT_Logon = rbind read_u32 (\<lambda>c. rreturn (LogonMsg \<lparr>lo_client_id = c\<rparr>))"
| "read_body MT_Logout = rreturn LogoutMsg"
| "read_body MT_Heartbeat = rreturn HeartbeatMsg"
| "read_body MT_NewOrder =
     rbind read_u64 (\<lambda>c. rbind read_u32 (\<lambda>i. rbind read_u8 (\<lambda>s. rbind read_u8 (\<lambda>ty. rbind read_u8 (\<lambda>tf.
       rbind read_u8 (\<lambda>pad. rbind read_i64 (\<lambda>p. rbind read_u64 (\<lambda>q.
         rreturn (NewOrderMsg \<lparr>no_client_order_id = c, no_instrument_id = i, no_side = s,
           no_order_type = ty, no_tif = tf, no_price = p, no_quantity = q\<rparr>)))))))))"
| "read_body MT_CancelOrder =
     rbind read_u64 (\<lambda>c. rbind read_u32 (\<lambda>i.
       rreturn (CancelOrderMsg \<lparr>co_client_order_id = c, co_instrument_id = i\<rparr>)))"
| "read_body MT_OrderAck =
     rbind read_u64 (\<lambda>c. rbind read_u64 (\<lambda>s.
       rreturn (OrderAckMsg \<lparr>oa_client_order_id = c, oa_server_order_id = s\<rparr>)))"
| "read_body MT_OrderReject =
     rbind read_u64 (\<lambda>c. rbind read_u8 (\<lambda>rr.
       rreturn (OrderRejectMsg \<lparr>rj_client_order_id = c, rj_reason = reject_reason_cast rr\<rparr>)))"
| "read_body MT_Fill =
     rbind read_u64 (\<lambda>c. rbind read_u64 (\<lambda>s. rbind read_i64 (\<lambda>p. rbind read_u64 (\<lambda>q. rbind read_u8 (\<lambda>st.
       rreturn (FillMsg \<lparr>fl_client_order_id = c, fl_server_order_id = s, fl_price = p,
         fl_quantity = q, fl_post_status = st\<rparr>))))))"
| "read_body MT_Cancelled = rbind read_u64 (\<lambda>c. rreturn (CancelledMsg \<lparr>cn_client_order_id = c\<rparr>))"
| "read_body (MT_raw b) = (\<lambda>r. Some (None, r))"

definition decode_body :: "message_header \<Rightarrow> u8 list \<Rightarrow> message_body option option" where
  "decode_body h body = do { (b, _) \<leftarrow> read_body (msg_type h) (new_reader body); Some b }"

section \<open>Whole messages\<close>

text \<open>\<open>for i < n: out[base + i] = scratch[i]\<close>\<close>

fun copy_bytes :: "nat \<Rightarrow> nat \<Rightarrow> u8 list \<Rightarrow> u8 list \<Rightarrow> u8 list option" where
  "copy_bytes base 0 scratch out = Some out"
| "copy_bytes base (Suc n) scratch out = do {
     out' \<leftarrow> copy_bytes base n scratch out;
     b \<leftarrow> deref scratch n;
     modify_at out' (base + n) (\<lambda>_. b)
   }"

text \<open>\<open>encode\<close> into a span: the number of bytes (0 on overflow) and the span afterwards.\<close>

definition encode_span :: "u8 list \<Rightarrow> u32 \<Rightarrow> message_body \<Rightarrow> (nat \<times> u8 list) option" where
  "encode_span out sq body =
     (if length out < kHeaderSize then Some (0, out)
      else do {
        (ok, bw) \<leftarrow> encode_body body (new_writer (replicate kMaxBodySize 0));
        if \<not> ok then Some (0, out)
        else let body_len = w_pos bw in
          if length out < kHeaderSize + body_len then Some (0, out)
          else if body_len > kMaxBodySize then Some (0, out)
          else do {
            (ok', hw) \<leftarrow> encode_header \<lparr>protocol_version = kProtocolVersion, msg_type = type_of body,
              body_length = of_nat body_len, sequence = sq\<rparr> (new_writer out);
            if \<not> ok' then Some (0, w_buf hw)
            else do {
              out' \<leftarrow> copy_bytes kHeaderSize body_len (w_buf bw) (w_buf hw);
              Some (kHeaderSize + body_len, out')
            }
          }
      })"

text \<open>\<open>encode\<close> into a fresh vector, resized to what was written.\<close>

definition encode :: "u32 \<Rightarrow> message_body \<Rightarrow> u8 list option" where
  "encode sq body = do {
     (n, out) \<leftarrow> encode_span (replicate (kHeaderSize + kMaxBodySize) 0) sq body;
     Some (take n out @ replicate (n - length out) 0)
   }"

section \<open>The layout\<close>

fun body_bytes :: "message_body \<Rightarrow> u8 list" where
  "body_bytes (LogonMsg m) = le_bytes 4 (lo_client_id m)"
| "body_bytes LogoutMsg = []"
| "body_bytes HeartbeatMsg = []"
| "body_bytes (NewOrderMsg m) =
     le_bytes 8 (no_client_order_id m) @ le_bytes 4 (no_instrument_id m) @ [no_side m] @ [no_order_type m] @
     [no_tif m] @ [0] @ le_bytes 8 (word_of_int (no_price m) :: u64) @ le_bytes 8 (no_quantity m)"
| "body_bytes (CancelOrderMsg m) = le_bytes 8 (co_client_order_id m) @ le_bytes 4 (co_instrument_id m)"
| "body_bytes (OrderAckMsg m) = le_bytes 8 (oa_client_order_id m) @ le_bytes 8 (oa_server_order_id m)"
| "body_bytes (OrderRejectMsg m) = le_bytes 8 (rj_client_order_id m) @ [reject_reason_u8 (rj_reason m)]"
| "body_bytes (FillMsg m) =
     le_bytes 8 (fl_client_order_id m) @ le_bytes 8 (fl_server_order_id m) @
     le_bytes 8 (word_of_int (fl_price m) :: u64) @ le_bytes 8 (fl_quantity m) @ [fl_post_status m]"
| "body_bytes (CancelledMsg m) = le_bytes 8 (cn_client_order_id m)"

definition header_bytes :: "message_header \<Rightarrow> u8 list" where
  "header_bytes h = [protocol_version h] @ [msg_type_u8 (msg_type h)] @ le_bytes 2 (body_length h) @ le_bytes 4 (sequence h)"

definition header_of :: "u32 \<Rightarrow> message_body \<Rightarrow> message_header" where
  "header_of sq body = \<lparr>protocol_version = kProtocolVersion, msg_type = type_of body,
     body_length = of_nat (length (body_bytes body)), sequence = sq\<rparr>"

definition message_bytes :: "u32 \<Rightarrow> message_body \<Rightarrow> u8 list" where
  "message_bytes sq body = header_bytes (header_of sq body) @ body_bytes body"

text \<open>The size of a body by message type; \<open>None\<close> for bytes that are no message type.\<close>

fun body_size :: "msg_type \<Rightarrow> nat option" where
  "body_size MT_Logon = Some 4"
| "body_size MT_Logout = Some 0"
| "body_size MT_Heartbeat = Some 0"
| "body_size MT_NewOrder = Some 32"
| "body_size MT_CancelOrder = Some 12"
| "body_size MT_OrderAck = Some 16"
| "body_size MT_OrderReject = Some 9"
| "body_size MT_Fill = Some 33"
| "body_size MT_Cancelled = Some 8"
| "body_size (MT_raw b) = None"

lemma length_body_bytes: "body_size (type_of body) = Some (length (body_bytes body))"
  by (cases body) simp_all

lemma length_body_bytes_le: "length (body_bytes body) \<le> 33"
  by (cases body) simp_all

lemma length_header_bytes [simp]: "length (header_bytes h) = 8"
  by (simp add: header_bytes_def)

lemma length_message_bytes: "length (message_bytes sq body) = kHeaderSize + length (body_bytes body)"
  by (simp add: message_bytes_def kHeaderSize_def)

section \<open>Encoding writes the layout\<close>

lemmas wr_fields = u8.wr_enc u16.wr_enc u32.wr_enc u64.wr_enc i64.wr_enc

lemma encode_body_spec: "wr_spec (encode_body body) (body_bytes body)"
proof (cases body)
  case LogoutMsg
  then show ?thesis by (simp add: wr_spec_def write_nothing_def fits_def)
next
  case HeartbeatMsg
  then show ?thesis by (simp add: wr_spec_def write_nothing_def fits_def)
qed (auto simp only: encode_body.simps body_bytes.simps intro!: wr_spec_wand wr_fields)

lemma encode_header_spec: "wr_spec (encode_header h) (header_bytes h)"
  unfolding encode_header_def header_bytes_def by (intro wr_spec_wand wr_fields)

lemma copy_bytes_spec:
  "n \<le> length scratch \<Longrightarrow> base + n \<le> length out \<Longrightarrow>
   copy_bytes base n scratch out = Some (take base out @ take n scratch @ drop (base + n) out)"
proof (induction n)
  case (Suc n)
  have s: "take (Suc n) scratch = take n scratch @ [scratch ! n]" using Suc.prems by (simp add: take_Suc_conv_app_nth)
  have d: "drop (base + n) out = out ! (base + n) # drop (base + Suc n) out"
    using Suc.prems by (simp add: Cons_nth_drop_Suc)
  have "(take base out @ take n scratch @ drop (base + n) out)[base + n := v] =
      take base out @ take n scratch @ v # drop (base + Suc n) out" for v
    using Suc.prems by (simp add: d list_update_append)
  then show ?case using Suc s by simp
qed simp

theorem encode_span_total:
  "encode_span out sq body =
     (if length out < kHeaderSize + length (body_bytes body) then Some (0, out)
      else Some (length (message_bytes sq body), message_bytes sq body @ drop (length (message_bytes sq body)) out))"
proof -
  let ?n = "length (body_bytes body)"
  let ?w = "new_writer (replicate kMaxBodySize (0 :: u8))"
  have n: "?n \<le> kMaxBodySize" using length_body_bytes_le [of body] by (simp add: kMaxBodySize_def)
  then have "fits ?w ?n" by (simp add: fits_def new_writer_def)
  then have eb: "encode_body body ?w = Some (True, put_all (body_bytes body) ?w)"
    by (rule wr_spec_fits [OF encode_body_spec])
  have sc: "w_pos (put_all (body_bytes body) ?w) = ?n" "take ?n (w_buf (put_all (body_bytes body) ?w)) = body_bytes body"
      "?n \<le> length (w_buf (put_all (body_bytes body) ?w))"
    by (simp_all add: put_all_def new_writer_def)
  show ?thesis
  proof (cases "length out < kHeaderSize + ?n")
    case True
    then show ?thesis using eb sc by (simp add: encode_span_def Let_def)
  next
    case False
    let ?h = "header_bytes (header_of sq body)"
    have "fits (new_writer out) (length ?h)" using False by (simp add: fits_def new_writer_def kHeaderSize_def)
    then have eh: "encode_header (header_of sq body) (new_writer out) = Some (True, put_all ?h (new_writer out))"
      by (rule wr_spec_fits [OF encode_header_spec])
    have hb: "w_buf (put_all ?h (new_writer out)) = ?h @ drop 8 out" by (simp add: put_all_def new_writer_def)
    have "copy_bytes kHeaderSize ?n (w_buf (put_all (body_bytes body) ?w)) (?h @ drop 8 out) =
        Some (?h @ body_bytes body @ drop (kHeaderSize + ?n) out)"
      using copy_bytes_spec [OF sc(3), of kHeaderSize "?h @ drop 8 out"] False sc(2)
      by (simp add: kHeaderSize_def add.commute)
    then show ?thesis
      using False eb sc n eh hb
      by (simp add: encode_span_def Let_def header_of_def message_bytes_def kHeaderSize_def)
  qed
qed

lemma encode_eq: "encode sq body = Some (message_bytes sq body)"
proof -
  have "kHeaderSize + length (body_bytes body) \<le> kHeaderSize + kMaxBodySize"
    using length_body_bytes_le [of body] by (simp add: kMaxBodySize_def)
  then show ?thesis
    by (simp add: encode_def encode_span_total)
qed

section \<open>Decoding inverts the layout\<close>

lemmas field_enc = u8.rbind_enc u16.rbind_enc u32.rbind_enc u64.rbind_enc i64.rbind_enc

lemma decode_header_bytes:
  assumes "proper_msg_type (msg_type h)"
  shows "decode_header (new_reader (header_bytes h @ bs)) = Some (Some h, adv 8 (new_reader (header_bytes h @ bs)))"
  using assms by (simp add: decode_header_def header_bytes_def field_enc rreturn_def proper_msg_type_def)

lemma decode_body_bytes:
  assumes "body_ok body"
  shows "read_body (type_of body) (new_reader (body_bytes body @ bs)) =
    Some (Some body, adv (length (body_bytes body)) (new_reader (body_bytes body @ bs)))"
  using assms by (cases body) (simp_all add: field_enc rreturn_def proper_reason_def)

section \<open>Decoding any bytes\<close>

text \<open>
  The bytes a body was decoded from, up to the padding byte of a new order, which is read and
  dropped.
\<close>

definition canonical :: "msg_type \<Rightarrow> u8 list \<Rightarrow> u8 list" where
  "canonical t bs = (if t = MT_NewOrder then bs[15 := 0] else bs)"

lemmas field_fails = u8.fails_rbind u32.fails_rbind u64.fails_rbind i64.fails_rbind
lemmas field_fits = u8.rbind_fits u16.rbind_fits u32.rbind_fits u64.rbind_fits i64.rbind_fits
lemmas field_back = u16.enc_dec_take u32.enc_dec_take u64.enc_dec_take

lemma read_body_short:
  assumes "body_size t = None \<or> length (ahead r) < the (body_size t)"
  shows "fails (read_body t) r"
proof (cases t)
  case (MT_raw b)
  then show ?thesis by (simp add: fails_def)
qed (use assms in \<open>auto simp: fails_def [of "rreturn _"] intro!: field_fails\<close>)

lemma take_join: "take m xs @ take n (drop m xs) = take (m + n) xs"
    "take m xs @ take n (drop m xs) @ ys = take (m + n) xs @ ys"
  by (simp_all add: take_add)

lemma take_join1: "m < length xs \<Longrightarrow> take m xs @ [xs ! m] = take (m + 1) xs"
    "m < length xs \<Longrightarrow> take m xs @ (xs ! m) # ys = take (m + 1) xs @ ys"
  by (simp_all add: take_Suc_conv_app_nth)

lemmas decode_long = field_fits field_back take_join take_join1 hd_drop_conv_nth rreturn_def canonical_def

lemma read_body_long:
  assumes "body_size t = Some n" and "n \<le> length (ahead r)"
  shows "\<exists>b. read_body t r = Some (Some b, adv n r) \<and> type_of b = t \<and> body_ok b \<and>
    body_bytes b = canonical t (take n (ahead r))"
proof (cases t)
  case MT_NewOrder
  let ?a = "ahead r"
  let ?b = "NewOrderMsg \<lparr>no_client_order_id = le_word (take 8 ?a), no_instrument_id = le_word (take 4 (drop 8 ?a)),
    no_side = ?a ! 12, no_order_type = ?a ! 13, no_tif = ?a ! 14,
    no_price = sint (le_word (take 8 (drop 16 ?a)) :: u64), no_quantity = le_word (take 8 (drop 24 ?a))\<rparr>"
  have n: "n = 32" "32 \<le> length ?a" using assms MT_NewOrder by auto
  then have "read_body t r = Some (Some ?b, adv n r)" using MT_NewOrder by (simp add: decode_long)
  moreover have "body_bytes ?b = take 15 ?a @ 0 # take 16 (drop 16 ?a)"
    using n take_join(1) [of 8 "drop 16 ?a" 8] by (simp add: decode_long)
  moreover have "take 15 ?a @ 0 # take 16 (drop 16 ?a) = (take 32 ?a)[15 := 0]"
    using n by (simp add: upd_conv_take_nth_drop drop_take)
  moreover have "in_i64 (sint (le_word (take 8 (drop 16 ?a)) :: u64))" using n i64.valid_dec_take by simp
  ultimately show ?thesis using MT_NewOrder n by (auto simp: canonical_def)
next
  case MT_Fill
  then show ?thesis using assms i64.valid_dec_take [of "drop 16 (ahead r)"] by (auto simp: decode_long)
qed (use assms in \<open>auto simp: decode_long\<close>)

lemma proper_type_of [simp]: "proper_msg_type (type_of body)"
  by (cases body) (simp_all add: proper_msg_type_def msg_type_cast_def)

lemma unat_body_length: "unat (of_nat (length (body_bytes body)) :: u16) = length (body_bytes body)"
  using length_body_bytes_le [of body] by (simp add: unat_of_nat take_bit_nat_eq_self_iff unsigned_of_nat)

lemma decode_body_cases:
  "\<exists>res. decode_body h bs = Some res \<and>
     (case res of
        None \<Rightarrow> body_size (msg_type h) = None \<or> length bs < the (body_size (msg_type h))
      | Some b \<Rightarrow> (\<exists>n. body_size (msg_type h) = Some n \<and> n \<le> length bs \<and> type_of b = msg_type h \<and> body_ok b \<and>
          body_bytes b = canonical (msg_type h) (take n bs)))"
proof (cases "body_size (msg_type h) = None \<or> length bs < the (body_size (msg_type h))")
  case True
  then show ?thesis using read_body_short [of "msg_type h" "new_reader bs"] by (auto simp: decode_body_def fails_def)
next
  case False
  then obtain n where n: "body_size (msg_type h) = Some n" "n \<le> length bs" by auto
  then obtain b where "decode_body h bs = Some (Some b)" "type_of b = msg_type h" "body_ok b"
      "body_bytes b = canonical (msg_type h) (take n bs)"
    using read_body_long [of "msg_type h" n "new_reader bs"] by (auto simp: decode_body_def)
  then show ?thesis using n by auto
qed

lemma encode_body_scratch:
  "\<exists>w. encode_body b (new_writer (replicate kMaxBodySize 0)) = Some (True, w) \<and>
     take (w_pos w) (w_buf w) = body_bytes b \<and> w_pos w = length (body_bytes b)"
proof -
  have "fits (new_writer (replicate kMaxBodySize (0 :: u8))) (length (body_bytes b))"
    using length_body_bytes_le [of b] by (simp add: fits_def new_writer_def kMaxBodySize_def)
  from wr_spec_fits [OF encode_body_spec this] show ?thesis by (simp add: put_all_def new_writer_def)
qed

section \<open>Properties\<close>

text \<open>
  C24. Messages survive the wire. Every message is encoded, into a vector of the header size plus at
  most 33 bytes; decoding the header of the vector gives the protocol version, the sequence number
  and the length of the rest, and decoding that rest gives the message back.
\<close>

theorem codec_roundtrip:
  assumes "body_ok body"
  shows "\<exists>bs h r. encode sq body = Some bs \<and> length bs \<le> kHeaderSize + 33 \<and>
    decode_header (new_reader (take kHeaderSize bs)) = Some (Some h, r) \<and>
    protocol_version h = kProtocolVersion \<and> sequence h = sq \<and> kHeaderSize + unat (body_length h) = length bs \<and>
    decode_body h (drop kHeaderSize bs) = Some (Some body)"
proof -
  let ?h = "header_of sq body" and ?bs = "message_bytes sq body"
  have "take kHeaderSize ?bs = header_bytes ?h" by (simp add: message_bytes_def kHeaderSize_def)
  then have "decode_header (new_reader (take kHeaderSize ?bs)) = Some (Some ?h, adv 8 (new_reader (header_bytes ?h)))"
    using decode_header_bytes [of ?h "[]"] by (simp add: header_of_def)
  moreover have "decode_body ?h (drop kHeaderSize ?bs) = Some (Some body)"
    using decode_body_bytes [OF assms, of "[]"] by (simp add: decode_body_def header_of_def message_bytes_def kHeaderSize_def)
  ultimately show ?thesis
    using encode_eq [of sq body] length_message_bytes [of sq body] length_body_bytes_le [of body] unat_body_length [of body]
    by (auto simp: header_of_def)
qed

definition demo_new_order :: message_body where
  "demo_new_order = NewOrderMsg \<lparr>no_client_order_id = 7, no_instrument_id = 3, no_side = 1, no_order_type = 0,
     no_tif = 0, no_price = - 250, no_quantity = 500\<rparr>"

theorem codec_roundtrip_witness:
  "\<exists>bs h r. encode 9 demo_new_order = Some bs \<and> length bs \<le> kHeaderSize + 33 \<and>
    decode_header (new_reader (take kHeaderSize bs)) = Some (Some h, r) \<and>
    protocol_version h = kProtocolVersion \<and> sequence h = 9 \<and> kHeaderSize + unat (body_length h) = length bs \<and>
    decode_body h (drop kHeaderSize bs) = Some (Some demo_new_order)"
proof -
  have "body_ok demo_new_order" by code_simp
  then show ?thesis by (rule codec_roundtrip)
qed

text \<open>
  C25. Decoding is defined on all bytes and invents nothing. \<open>decode_body\<close> never reads outside the
  body; it fails exactly when the type is unknown or the body is shorter than its type requires;
  otherwise the message has the type of the header, and encoding it again gives the bytes that were
  read, except that the padding byte of a new order becomes zero. Bytes after these are ignored.
\<close>

theorem decode_body_exact:
  "\<exists>res. decode_body h bs = Some res \<and>
     (res = None \<longleftrightarrow> (case body_size (msg_type h) of None \<Rightarrow> True | Some n \<Rightarrow> length bs < n)) \<and>
     (\<forall>b. res = Some b \<longrightarrow> type_of b = msg_type h \<and> body_ok b \<and>
        (\<exists>w. encode_body b (new_writer (replicate kMaxBodySize 0)) = Some (True, w) \<and>
           take (w_pos w) (w_buf w) = canonical (msg_type h) (take (w_pos w) bs)))"
proof -
  obtain res where res: "decode_body h bs = Some res"
      "case res of
        None \<Rightarrow> body_size (msg_type h) = None \<or> length bs < the (body_size (msg_type h))
      | Some b \<Rightarrow> (\<exists>n. body_size (msg_type h) = Some n \<and> n \<le> length bs \<and> type_of b = msg_type h \<and> body_ok b \<and>
          body_bytes b = canonical (msg_type h) (take n bs))"
    using decode_body_cases [of h bs] by blast
  show ?thesis
  proof (cases res)
    case None
    then show ?thesis using res by (auto split: option.splits)
  next
    case (Some b)
    then obtain n where n: "body_size (msg_type h) = Some n" "n \<le> length bs" "type_of b = msg_type h" "body_ok b"
        "body_bytes b = canonical (msg_type h) (take n bs)"
      using res(2) by auto
    obtain w where w: "encode_body b (new_writer (replicate kMaxBodySize 0)) = Some (True, w)"
        "take (w_pos w) (w_buf w) = body_bytes b" "w_pos w = length (body_bytes b)"
      using encode_body_scratch [of b] by blast
    have "w_pos w = n" using length_body_bytes [of b] n(1,3) w(3) by simp
    then have "take (w_pos w) (w_buf w) = canonical (msg_type h) (take (w_pos w) bs)" using w(2) n(5) by (simp only:)
    then show ?thesis using res(1) Some n(1-4) w(1) by simp
  qed
qed

theorem decode_body_exact_witness:
  "\<exists>res. decode_body \<lparr>protocol_version = 1, msg_type = MT_OrderReject, body_length = 3, sequence = 1\<rparr> [1, 2, 3] = Some res \<and>
     (res = None \<longleftrightarrow> (case body_size MT_OrderReject of None \<Rightarrow> True | Some n \<Rightarrow> length [1, 2, 3 :: u8] < n)) \<and> res = None"
  using decode_body_exact [of "\<lparr>protocol_version = 1, msg_type = MT_OrderReject, body_length = 3, sequence = 1\<rparr>" "[1, 2, 3]"]
  by auto

end
