(* ===== verification/Framer.thy ===== *)
theory Framer
  imports Codec
begin

text \<open>
  \<open>include/ordbk/protocol/framer.hpp\<close> and \<open>src/protocol/framer.cpp\<close>: the framer cuts a byte stream
  that arrives in arbitrary chunks into messages. \<open>parse\<close> is its reference: what the bytes at the
  front of the stream are, as a function of the bytes alone.
\<close>

datatype framer_error = NoError | BadVersion | OversizeBody | BadBody

record framer =
  fr_buf :: "u8 list"
  fr_error :: framer_error

definition new_framer :: framer where
  "new_framer = \<lparr>fr_buf = [], fr_error = NoError\<rparr>"

definition feed :: "u8 list \<Rightarrow> framer \<Rightarrow> framer" where
  "feed data f = (if fr_error f \<noteq> NoError then f else f\<lparr>fr_buf := fr_buf f @ data\<rparr>)"

definition next_message :: "framer \<Rightarrow> (decoded_message option \<times> framer) option" where
  "next_message f =
     (if fr_error f \<noteq> NoError then Some (None, f)
      else if length (fr_buf f) < kHeaderSize then Some (None, f)
      else do {
        (header, _) \<leftarrow> decode_header (new_reader (take kHeaderSize (fr_buf f)));
        case header of
          None \<Rightarrow> Some (None, f)
        | Some h \<Rightarrow>
            if protocol_version h \<noteq> kProtocolVersion then Some (None, f\<lparr>fr_error := BadVersion\<rparr>)
            else if unat (body_length h) > kMaxBodySize then Some (None, f\<lparr>fr_error := OversizeBody\<rparr>)
            else let total = kHeaderSize + unat (body_length h) in
              if length (fr_buf f) < total then Some (None, f)
              else do {
                body \<leftarrow> decode_body h (take (unat (body_length h)) (drop kHeaderSize (fr_buf f)));
                case body of
                  None \<Rightarrow> Some (None, f\<lparr>fr_error := BadBody\<rparr>)
                | Some b \<Rightarrow> Some (Some \<lparr>dm_header = h, dm_body = b\<rparr>, f\<lparr>fr_buf := drop total (fr_buf f)\<rparr>)
              }
      })"

definition framer_reset :: "framer \<Rightarrow> framer" where
  "framer_reset f = f\<lparr>fr_buf := [], fr_error := NoError\<rparr>"

definition framer_has_error :: "framer \<Rightarrow> bool" where
  "framer_has_error f \<longleftrightarrow> fr_error f \<noteq> NoError"

definition buffered_bytes :: "framer \<Rightarrow> nat" where
  "buffered_bytes f = length (fr_buf f)"

section \<open>The reference parser\<close>

datatype parse_result = More | Bad framer_error | Got decoded_message nat

definition header_at :: "u8 list \<Rightarrow> message_header" where
  "header_at bs = \<lparr>protocol_version = bs ! 0, msg_type = msg_type_cast (bs ! 1),
     body_length = le_word (take 2 (drop 2 bs)), sequence = le_word (take 4 (drop 4 bs))\<rparr>"

definition parse :: "u8 list \<Rightarrow> parse_result" where
  "parse bs =
     (if length bs < 8 then More
      else let h = header_at bs; n = unat (body_length h) in
        if protocol_version h \<noteq> kProtocolVersion then Bad BadVersion
        else if n > kMaxBodySize then Bad OversizeBody
        else if length bs < 8 + n then More
        else case decode_body h (take n (drop 8 bs)) of
            Some (Some b) \<Rightarrow> Got \<lparr>dm_header = h, dm_body = b\<rparr> (8 + n)
          | _ \<Rightarrow> Bad BadBody)"

lemma decode_header_at:
  assumes "8 \<le> length bs"
  shows "\<exists>r. decode_header (new_reader (take 8 bs)) = Some (Some (header_at bs), r)"
proof -
  obtain a b c d e f g i rest where bs: "bs = a # b # c # d # e # f # g # i # rest"
    using assms by (auto simp: numeral_eq_Suc Suc_le_length_iff)
  then show ?thesis
    by (simp add: decode_header_def field_fits rreturn_def header_at_def)
qed

lemma decode_body_defined: "\<exists>res. decode_body h bs = Some res"
  using decode_body_cases [of h bs] by blast

text \<open>\<open>next\<close> is defined on every buffer and does what the reference says.\<close>

lemma next_message_parse:
  "next_message f = Some
     (if fr_error f \<noteq> NoError then (None, f)
      else case parse (fr_buf f) of
          More \<Rightarrow> (None, f)
        | Bad e \<Rightarrow> (None, f\<lparr>fr_error := e\<rparr>)
        | Got m n \<Rightarrow> (Some m, f\<lparr>fr_buf := drop n (fr_buf f)\<rparr>))"
proof (cases "fr_error f \<noteq> NoError \<or> length (fr_buf f) < 8")
  case True
  then show ?thesis by (auto simp: next_message_def parse_def kHeaderSize_def)
next
  case False
  then obtain r where r: "decode_header (new_reader (take 8 (fr_buf f))) = Some (Some (header_at (fr_buf f)), r)"
    using decode_header_at [of "fr_buf f"] by auto
  obtain res where "decode_body (header_at (fr_buf f))
      (take (unat (body_length (header_at (fr_buf f)))) (drop 8 (fr_buf f))) = Some res"
    using decode_body_defined by blast
  then show ?thesis
    using False r by (auto simp: next_message_def parse_def kHeaderSize_def Let_def split: option.splits)
qed

text \<open>More bytes do not change what the front of the stream is.\<close>

lemma header_at_append: "8 \<le> length xs \<Longrightarrow> header_at (xs @ ys) = header_at xs"
  by (cases xs) (auto simp: header_at_def nth_append)

lemma parse_prefix: "parse xs \<noteq> More \<Longrightarrow> parse (xs @ ys) = parse xs"
  by (auto simp: parse_def Let_def header_at_append split: if_splits)

lemma parse_Got_length: "parse xs = Got m n \<Longrightarrow> 8 \<le> n \<and> n \<le> length xs"
  by (auto simp: parse_def Let_def split: if_splits option.splits)

lemma parse_Bad_error: "parse xs = Bad e \<Longrightarrow> e \<noteq> NoError"
  by (auto simp: parse_def Let_def split: if_splits option.splits)

lemma parse_message:
  assumes "body_ok body"
  shows "parse (message_bytes sq body @ bs) = Got \<lparr>dm_header = header_of sq body, dm_body = body\<rparr> (length (message_bytes sq body))"
proof -
  let ?h = "header_of sq body"
  have "\<exists>r. decode_header (new_reader (header_bytes ?h)) = Some (Some (header_at (message_bytes sq body @ bs)), r)"
    using decode_header_at [of "message_bytes sq body @ bs"] by (simp add: message_bytes_def)
  then have h: "header_at (message_bytes sq body @ bs) = ?h"
    using decode_header_bytes [of ?h "[]"] by (simp add: header_of_def)
  have n: "unat (body_length ?h) = length (body_bytes body)" by (simp add: header_of_def unat_body_length)
  have "decode_body ?h (body_bytes body) = Some (Some body)"
    using decode_body_bytes [OF assms, of "[]"] by (simp add: decode_body_def header_of_def)
  then show ?thesis
    using h n length_body_bytes_le [of body]
    by (simp add: parse_def Let_def message_bytes_def header_of_def kMaxBodySize_def)
qed

section \<open>Draining\<close>

text \<open>\<open>while (auto m = framer.next()) ...\<close>: all messages of the buffer. Each takes at least its header.\<close>

function drain :: "framer \<Rightarrow> (decoded_message list \<times> framer) option" where
  "drain f = do {
     (m, f') \<leftarrow> next_message f;
     case m of
       None \<Rightarrow> Some ([], f')
     | Some x \<Rightarrow> do { (ms, f'') \<leftarrow> drain f'; Some (x # ms, f'') }
   }"
  by pat_completeness auto

lemma next_message_shrinks:
  assumes "next_message f = Some (Some m, f')"
  shows "length (fr_buf f') < length (fr_buf f)"
  using assms parse_Got_length [of "fr_buf f" m] by (auto simp: next_message_parse split: if_splits parse_result.splits)

termination drain
  by (relation "measure (\<lambda>f. length (fr_buf f))") (auto dest: next_message_shrinks)

declare drain.simps [simp del]

text \<open>The same on the bytes: messages, remaining bytes and error.\<close>

function parse_all :: "u8 list \<Rightarrow> decoded_message list \<times> u8 list \<times> framer_error" where
  "parse_all bs =
     (case parse bs of
        More \<Rightarrow> ([], bs, NoError)
      | Bad e \<Rightarrow> ([], bs, e)
      | Got m n \<Rightarrow> (let (ms, rest) = parse_all (drop n bs) in (m # ms, rest)))"
  by pat_completeness auto
termination
  by (relation "measure length") (auto dest!: parse_Got_length)

declare parse_all.simps [simp del]

lemma drain_parse_all:
  "fr_error f = NoError \<Longrightarrow>
   drain f = (let (ms, rest, e) = parse_all (fr_buf f) in Some (ms, f\<lparr>fr_buf := rest, fr_error := e\<rparr>))"
proof (induction f rule: drain.induct)
  case (1 f)
  show ?case
  proof (cases "parse (fr_buf f)")
    case More
    then show ?thesis using 1 by (subst drain.simps, subst parse_all.simps) (simp add: next_message_parse)
  next
    case (Bad e)
    then show ?thesis using 1 by (subst drain.simps, subst parse_all.simps) (simp add: next_message_parse)
  next
    case (Got m n)
    let ?f = "f\<lparr>fr_buf := drop n (fr_buf f)\<rparr>"
    have nx: "next_message f = Some (Some m, ?f)" using Got 1(2) by (simp add: next_message_parse)
    then have "drain ?f = (let (ms, rest, e) = parse_all (fr_buf ?f) in Some (ms, ?f\<lparr>fr_buf := rest, fr_error := e\<rparr>))"
      using 1 by auto
    then show ?thesis
      by (subst drain.simps, subst parse_all.simps) (simp add: nx Got split: prod.splits)
  qed
qed

lemma drain_error: "fr_error f \<noteq> NoError \<Longrightarrow> drain f = Some ([], f)"
  by (subst drain.simps) (simp add: next_message_parse)

lemma parse_all_append:
  "parse_all xs = (ms, rest, e) \<Longrightarrow>
   parse_all (xs @ ys) =
     (if e = NoError then (let (ms', r) = parse_all (rest @ ys) in (ms @ ms', r)) else (ms, rest @ ys, e))"
proof (induction xs arbitrary: ms rule: parse_all.induct)
  case (1 xs)
  show ?case
  proof (cases "parse xs")
    case More
    then show ?thesis using 1(2) by (simp add: parse_all.simps [of xs] split: prod.splits)
  next
    case (Bad e')
    then show ?thesis
      using 1(2) parse_prefix [of xs ys] parse_Bad_error [of xs]
      by (auto simp: parse_all.simps [of xs] parse_all.simps [of "xs @ ys"] parse_all.simps [of "rest @ ys"])
  next
    case (Got m n)
    then obtain ms1 where ms1: "parse_all (drop n xs) = (ms1, rest, e)" "ms = m # ms1"
      using 1(2) by (auto simp: parse_all.simps [of xs] split: prod.splits)
    have "drop n (xs @ ys) = drop n xs @ ys" using parse_Got_length [OF Got] by simp
    then show ?thesis
      using 1(1) [OF Got ms1(1)] ms1(2) Got parse_prefix [of xs ys]
      by (simp add: parse_all.simps [of "xs @ ys"] split: prod.splits)
  qed
qed

text \<open>Chunks arriving one after the other, with a drain after each.\<close>

fun deliver :: "u8 list list \<Rightarrow> framer \<Rightarrow> (decoded_message list \<times> framer) option" where
  "deliver [] f = Some ([], f)"
| "deliver (c # cs) f = do {
     (ms, f1) \<leftarrow> drain (feed c f);
     (ms', f2) \<leftarrow> deliver cs f1;
     Some (ms @ ms', f2)
   }"

lemma deliver_error: "fr_error f \<noteq> NoError \<Longrightarrow> deliver cs f = Some ([], f)"
  by (induction cs) (simp_all add: feed_def drain_error)

lemma deliver_parse_all:
  assumes "fr_error f = NoError" and "parse_all (fr_buf f) = ([], fr_buf f, NoError)"
    and "parse_all (fr_buf f @ concat cs) = (ms, rest, e)"
  shows "\<exists>f'. deliver cs f = Some (ms, f') \<and> fr_error f' = e \<and> (e = NoError \<longrightarrow> fr_buf f' = rest)"
  using assms
proof (induction cs arbitrary: f ms)
  case (Cons c cs)
  obtain ms1 r1 e1 where p1: "parse_all (fr_buf f @ c) = (ms1, r1, e1)" by (metis prod_cases3)
  let ?f = "f\<lparr>fr_buf := r1, fr_error := e1\<rparr>"
  have d: "drain (feed c f) = Some (ms1, ?f)"
    using drain_parse_all [of "feed c f"] Cons.prems(1) p1 by (simp add: feed_def)
  have ap: "parse_all ((fr_buf f @ c) @ concat cs) = (ms, rest, e)" using Cons.prems(3) by simp
  show ?case
  proof (cases "e1 = NoError")
    case False
    then show ?thesis using d deliver_error [of ?f cs] ap parse_all_append [OF p1, of "concat cs"] by simp
  next
    case True
    obtain ms2 where ms2: "parse_all (r1 @ concat cs) = (ms2, rest, e)" "ms = ms1 @ ms2"
      using ap parse_all_append [OF p1, of "concat cs"] True by (auto split: prod.splits)
    have "parse_all r1 = ([], r1, NoError)"
      using parse_all_append [OF p1, of "[]"] p1 True by (auto split: prod.splits)
    then obtain f' where "deliver cs ?f = Some (ms2, f')" "fr_error f' = e" "e = NoError \<longrightarrow> fr_buf f' = rest"
      using Cons.IH [of ?f ms2] True ms2(1) by auto
    then show ?thesis using d ms2(2) by simp
  qed
qed simp

lemma deliver_new:
  assumes "parse_all (concat cs) = (ms, rest, e)"
  shows "\<exists>f'. deliver cs new_framer = Some (ms, f') \<and> fr_error f' = e \<and> (e = NoError \<longrightarrow> f' = \<lparr>fr_buf = rest, fr_error = e\<rparr>)"
proof -
  have "parse_all [] = ([], [], NoError)" by (simp add: parse_all.simps parse_def)
  then obtain f' where "deliver cs new_framer = Some (ms, f')" "fr_error f' = e" "e = NoError \<longrightarrow> fr_buf f' = rest"
    using deliver_parse_all [of new_framer cs ms rest e] assms by (auto simp: new_framer_def)
  then show ?thesis by (intro exI [of _ f']) auto
qed

text \<open>A stream of encoded messages, and what the framer makes of it.\<close>

definition stream_bytes :: "(u32 \<times> message_body) list \<Rightarrow> u8 list" where
  "stream_bytes msgs = concat (map (\<lambda>(sq, b). message_bytes sq b) msgs)"

definition decoded :: "u32 \<times> message_body \<Rightarrow> decoded_message" where
  "decoded m = \<lparr>dm_header = header_of (fst m) (snd m), dm_body = snd m\<rparr>"

lemma parse_all_stream:
  "list_all (body_ok \<circ> snd) msgs \<Longrightarrow> parse_all (stream_bytes msgs) = (map decoded msgs, [], NoError)"
proof (induction msgs)
  case Nil
  show ?case by (simp add: parse_all.simps parse_def stream_bytes_def)
next
  case (Cons m msgs)
  have "stream_bytes (m # msgs) = message_bytes (fst m) (snd m) @ stream_bytes msgs"
    by (simp add: stream_bytes_def split_beta)
  then show ?case
    using Cons parse_message [of "snd m" "fst m" "stream_bytes msgs"]
    by (subst parse_all.simps) (simp add: decoded_def)
qed

section \<open>Properties\<close>

text \<open>
  C26. Chunk boundaries do not matter. For every byte stream, well-formed or not, and every way to
  cut it into chunks, feeding the chunks one by one and draining after each is defined, ends, and
  yields the same messages and the same error as feeding the stream at once; without an error the
  framer is left in the same state.
\<close>

theorem framer_chunking_independent:
  "\<exists>ms f1 f2. deliver chunks new_framer = Some (ms, f1) \<and> drain (feed (concat chunks) new_framer) = Some (ms, f2) \<and>
     fr_error f1 = fr_error f2 \<and> (framer_has_error f2 \<or> f1 = f2)"
proof -
  obtain ms rest e where p: "parse_all (concat chunks) = (ms, rest, e)" by (metis prod_cases3)
  then obtain f1 where f1: "deliver chunks new_framer = Some (ms, f1)" "fr_error f1 = e"
      "e = NoError \<longrightarrow> f1 = \<lparr>fr_buf = rest, fr_error = e\<rparr>"
    using deliver_new by blast
  have "drain (feed (concat chunks) new_framer) = Some (ms, \<lparr>fr_buf = rest, fr_error = e\<rparr>)"
    using drain_parse_all [of "feed (concat chunks) new_framer"] p by (simp add: feed_def new_framer_def)
  then show ?thesis using f1 by (auto simp: framer_has_error_def)
qed

text \<open>
  A framing error is final. Once the framer has seen a bad version, an oversize body or an
  undecodable body, it accepts no byte and yields no message until \<open>reset\<close>, after which it is as new.
\<close>

lemma framer_error_sticky:
  assumes "framer_has_error f"
  shows "feed bs f = f \<and> next_message f = Some (None, f) \<and> deliver chunks f = Some ([], f) \<and> framer_reset f = new_framer"
  using assms deliver_error [of f chunks]
  by (simp add: framer_has_error_def feed_def next_message_def framer_reset_def new_framer_def)

end
