(* ===== verification/Session.thy ===== *)
theory Session
  imports Framer
begin

text \<open>
  \<open>include/ordbk/protocol/session.hpp\<close> and \<open>src/protocol/session.cpp\<close>: the state of one connection.
  Inbound bytes go through its framer, outbound messages are numbered and encoded into a queue of
  bytes.
\<close>

datatype session_phase = SP_NotLoggedOn | SP_Active | SP_Closing

record session =
  session_id :: u64
  session_state :: session_phase
  client_id :: u32
  out_seq :: u32
  session_framer :: framer
  outbound :: "u8 list"

definition new_session :: "u64 \<Rightarrow> session" where
  "new_session i = \<lparr>session_id = i, session_state = SP_NotLoggedOn, client_id = 0, out_seq = 0,
     session_framer = new_framer, outbound = []\<rparr>"

definition session_has_error :: "session \<Rightarrow> bool" where
  "session_has_error s \<longleftrightarrow> framer_has_error (session_framer s)"

definition on_bytes :: "u8 list \<Rightarrow> session \<Rightarrow> session" where
  "on_bytes data s = s\<lparr>session_framer := feed data (session_framer s)\<rparr>"

definition next_inbound :: "session \<Rightarrow> (decoded_message option \<times> session) option" where
  "next_inbound s = do {
     (m, f) \<leftarrow> next_message (session_framer s);
     Some (m, s\<lparr>session_framer := f\<rparr>)
   }"

definition set_state :: "session_phase \<Rightarrow> session \<Rightarrow> session" where
  "set_state st s = s\<lparr>session_state := st\<rparr>"

definition set_client :: "u32 \<Rightarrow> session \<Rightarrow> session" where
  "set_client c s = s\<lparr>client_id := c\<rparr>"

definition next_outbound_seq :: "session \<Rightarrow> u32 \<times> session" where
  "next_outbound_seq s = (let q = out_seq s + 1 in (q, s\<lparr>out_seq := q\<rparr>))"

definition emit :: "message_body \<Rightarrow> session \<Rightarrow> session option" where
  "emit body s =
     (let (q, s') = next_outbound_seq s in do {
        bytes \<leftarrow> encode q body;
        Some (s'\<lparr>outbound := outbound s' @ bytes\<rparr>)
      })"

definition take_outbound :: "session \<Rightarrow> u8 list \<times> session" where
  "take_outbound s = (outbound s, s\<lparr>outbound := []\<rparr>)"

section \<open>Emitting\<close>

lemma emit_eq:
  "emit body s = Some (s\<lparr>out_seq := out_seq s + 1, outbound := outbound s @ message_bytes (out_seq s + 1) body\<rparr>)"
  by (simp add: emit_def next_outbound_seq_def encode_eq Let_def)

text \<open>Several messages in a row.\<close>

primrec emit_all :: "message_body list \<Rightarrow> session \<Rightarrow> session option" where
  "emit_all [] s = Some s"
| "emit_all (b # bs) s = Option.bind (emit b s) (emit_all bs)"

definition numbered :: "u32 \<Rightarrow> message_body list \<Rightarrow> (u32 \<times> message_body) list" where
  "numbered q bs = zip (map (\<lambda>i. q + of_nat (i + 1)) [0..<length bs]) bs"

lemma numbered_Nil [simp]: "numbered q [] = []"
  by (simp add: numbered_def)

lemma numbered_Cons: "numbered q (b # bs) = (q + 1, b) # numbered (q + 1) bs"
  by (simp add: numbered_def map_upt_Suc add.assoc del: upt_Suc)

lemma numbered_append: "numbered q (bs @ cs) = numbered q bs @ numbered (q + of_nat (length bs)) cs"
  by (induction bs arbitrary: q) (simp_all add: numbered_Cons add.assoc)

lemma stream_bytes_append [simp]: "stream_bytes (xs @ ys) = stream_bytes xs @ stream_bytes ys"
  by (simp add: stream_bytes_def)

lemma stream_bytes_Cons: "stream_bytes (x # xs) = message_bytes (fst x) (snd x) @ stream_bytes xs"
  by (simp add: stream_bytes_def split_beta)

definition after_emits :: "message_body list \<Rightarrow> session \<Rightarrow> session" where
  "after_emits bs s = s\<lparr>out_seq := out_seq s + of_nat (length bs),
     outbound := outbound s @ stream_bytes (numbered (out_seq s) bs)\<rparr>"

lemma after_emits_Nil [simp]: "after_emits [] s = s"
  by (simp add: after_emits_def stream_bytes_def)

lemma after_emits_sel [simp]:
  "session_state (after_emits bs s) = session_state s" "client_id (after_emits bs s) = client_id s"
  "session_framer (after_emits bs s) = session_framer s" "session_id (after_emits bs s) = session_id s"
  by (simp_all add: after_emits_def)

lemma after_emits_append: "after_emits cs (after_emits bs s) = after_emits (bs @ cs) s"
  by (simp add: after_emits_def numbered_append add.assoc)

lemma emit_after: "emit b s = Some (after_emits [b] s)"
  by (simp add: emit_eq after_emits_def numbered_Cons stream_bytes_def)

lemma emit_all_after: "emit_all bs s = Some (after_emits bs s)"
  by (induction bs arbitrary: s) (simp_all add: emit_after after_emits_append)

lemma numbered_snd [simp]: "map snd (numbered q bs) = bs"
  by (simp add: numbered_def)

lemma list_all_numbered: "list_all (body_ok \<circ> snd) (numbered q bs) = list_all body_ok bs"
  by (induction bs arbitrary: q) (simp_all add: numbered_Cons)

text \<open>
  C28. What a session emits is what its peer receives. Emitting any messages on a new session
  succeeds; however the bytes it queued are cut into chunks on the way, the framer at the other end
  yields exactly these messages in order, numbered from 1, with no error and nothing left over.
\<close>

theorem session_stream_roundtrip:
  assumes "list_all body_ok bodies" and "emit_all bodies (new_session i) = Some s"
    and "concat chunks = fst (take_outbound s)"
  shows "\<exists>ms. deliver chunks new_framer = Some (ms, new_framer) \<and> map dm_body ms = bodies \<and>
    map (sequence \<circ> dm_header) ms = map (\<lambda>k. of_nat (k + 1)) [0..<length bodies]"
proof -
  let ?msgs = "numbered 0 bodies"
  have "concat chunks = stream_bytes ?msgs"
    using assms(2,3) by (auto simp: emit_all_after after_emits_def new_session_def take_outbound_def)
  then have "deliver chunks new_framer = Some (map decoded ?msgs, new_framer)"
    using deliver_new [of chunks "map decoded ?msgs" "[]" NoError] parse_all_stream [of ?msgs] assms(1)
    by (auto simp: list_all_numbered new_framer_def)
  moreover have "map dm_body (map decoded ?msgs) = bodies" by (simp add: decoded_def comp_def)
  moreover have "map (sequence \<circ> dm_header) (map decoded ?msgs) = map fst ?msgs"
    by (simp add: decoded_def header_of_def)
  moreover have "map fst ?msgs = map (\<lambda>k. of_nat (k + 1)) [0..<length bodies]" by (simp add: numbered_def)
  ultimately show ?thesis by (intro exI [of _ "map decoded ?msgs"]) (simp only: conj_absorb simp_thms)
qed

theorem session_stream_roundtrip_witness:
  "\<exists>s ms. emit_all [LogonMsg \<lparr>lo_client_id = 5\<rparr>, HeartbeatMsg] (new_session 1) = Some s \<and>
     deliver [take 3 (outbound s), drop 3 (outbound s)] new_framer = Some (ms, new_framer) \<and>
     map dm_body ms = [LogonMsg \<lparr>lo_client_id = 5\<rparr>, HeartbeatMsg]"
proof -
  let ?bs = "[LogonMsg \<lparr>lo_client_id = 5\<rparr>, HeartbeatMsg]"
  let ?s = "after_emits ?bs (new_session 1)"
  have ok: "list_all body_ok ?bs" by simp
  have e: "emit_all ?bs (new_session 1) = Some ?s" by (rule emit_all_after)
  have c: "concat [take 3 (outbound ?s), drop 3 (outbound ?s)] = fst (take_outbound ?s)"
    by (simp add: take_outbound_def)
  from session_stream_roundtrip [OF ok e c]
  obtain ms where ms: "deliver [take 3 (outbound ?s), drop 3 (outbound ?s)] new_framer = Some (ms, new_framer)"
      "map dm_body ms = ?bs"
    by (elim exE conjE)
  show ?thesis by (rule exI [of _ ?s], rule exI [of _ ms]) (intro conjI e ms)
qed

end
