(* ===== verification/Contract.thy ===== *)
theory Contract
  imports Prelude
begin

text \<open>
  \<open>include/ordbk/instruments/contract.hpp\<close> and \<open>src/instruments/contract.cpp\<close>: option contracts, expiry
  dates with their chronological order, and the 21-character OCC symbol of a contract, printed
  and parsed. A failed parse throws; the error is the left summand.
\<close>

datatype option_type = Call | Put
datatype option_style = American | European
datatype settlement_type = Physical | Cash

section \<open>Expiry dates\<close>

datatype expiry_date = ExpiryDate (ed_year: u16) (ed_month: u8) (ed_day: u8)

text \<open>The defaulted \<open>operator<=>\<close> compares the members in the order of their declaration.\<close>

instantiation expiry_date :: linorder
begin

definition less_expiry_date :: "expiry_date \<Rightarrow> expiry_date \<Rightarrow> bool" where
  "less_expiry_date a b \<longleftrightarrow> ed_year a < ed_year b \<or> (ed_year a = ed_year b \<and>
     (ed_month a < ed_month b \<or> (ed_month a = ed_month b \<and> ed_day a < ed_day b)))"

definition less_eq_expiry_date :: "expiry_date \<Rightarrow> expiry_date \<Rightarrow> bool" where
  "less_eq_expiry_date a b \<longleftrightarrow> a = b \<or> a < (b :: expiry_date)"

instance
  by intro_classes
    (auto simp: less_expiry_date_def less_eq_expiry_date_def intro: expiry_date.expand)

end

section \<open>Decimal numbers\<close>

text \<open>\<open>%d\<close> of a non-negative number, and the zero-padded conversions of \<open>snprintf\<close>.\<close>

fun dec :: "nat \<Rightarrow> string" where
  "dec n = (if n < 10 then [char_of (48 + n)] else dec (n div 10) @ [char_of (48 + n mod 10)])"

declare dec.simps [simp del]

definition fmt_d :: "nat \<Rightarrow> int \<Rightarrow> string" where
  "fmt_d w v =
     (if v < 0 then ''-'' @ replicate (w - 1 - length (dec (nat (- v)))) CHR ''0'' @ dec (nat (- v))
      else replicate (w - length (dec (nat v))) CHR ''0'' @ dec (nat v))"

definition date_to_string :: "expiry_date \<Rightarrow> string" where
  "date_to_string d = take 15 (fmt_d 4 (uint (ed_year d)) @ ''-'' @ fmt_d 2 (uint (ed_month d)) @
     ''-'' @ fmt_d 2 (uint (ed_day d)))"

section \<open>Contracts\<close>

record contract =
  underlying :: string
  strike :: i64
  expiry :: expiry_date
  option_type :: option_type
  style :: option_style
  multiplier :: u32
  settlement :: settlement_type

definition contract_default :: contract where
  "contract_default = \<lparr>underlying = '''', strike = 0, expiry = ExpiryDate 0 0 0,
     option_type = Call, style = American, multiplier = 100, settlement = Physical\<rparr>"

text \<open>
  The symbol. \<open>snprintf\<close> cuts at the size of its buffer, \<open>append\<close> takes a fixed number of
  characters; a strike whose thousandths do not fit 64 bits is a signed overflow.
\<close>

definition occ_symbol :: "contract \<Rightarrow> string option" where
  "occ_symbol c =
     (let root = take 6 (underlying c) @ replicate (6 - length (underlying c)) CHR '' '';
          date = take 11 (fmt_d 2 (uint (ed_year (expiry c)) mod 100) @
            fmt_d 2 (uint (ed_month (expiry c))) @ fmt_d 2 (uint (ed_day (expiry c))));
          cp = (if option_type c = Call then CHR ''C'' else CHR ''P'');
          thousandths = strike c * 10 in
      if \<not> in_i64 thousandths then None
      else Some (root @ take 6 date @ [cp] @ take 8 (take 8 (fmt_d 8 thousandths))))"

datatype occ_error = TooShort | NonDigit | BadType

fun parse_int_from :: "int \<Rightarrow> string \<Rightarrow> occ_error + int" where
  "parse_int_from v [] = Inr v"
| "parse_int_from v (ch # cs) =
     (if (of_char ch :: int) < 48 \<or> (of_char ch :: int) > 57 then Inl NonDigit
      else parse_int_from (v * 10 + (of_char ch - 48)) cs)"

definition parse_int :: "string \<Rightarrow> occ_error + int" where
  "parse_int sv = parse_int_from 0 sv"

text \<open>The loop that pops trailing spaces off the root.\<close>

fun trim_back :: "string \<Rightarrow> string" where
  "trim_back s = (if s \<noteq> [] \<and> last s = CHR '' '' then trim_back (butlast s) else s)"

declare trim_back.simps [simp del]

definition substr :: "nat \<Rightarrow> nat \<Rightarrow> string \<Rightarrow> string" where
  "substr pos n s = take n (drop pos s)"

definition from_occ :: "string \<Rightarrow> occ_error + contract" where
  "from_occ occ =
     (if length occ < 21 then Inl TooShort
      else case parse_int (substr 6 2 occ) of Inl e \<Rightarrow> Inl e | Inr yy \<Rightarrow>
        case parse_int (substr 8 2 occ) of Inl e \<Rightarrow> Inl e | Inr mm \<Rightarrow>
        case parse_int (substr 10 2 occ) of Inl e \<Rightarrow> Inl e | Inr dd \<Rightarrow>
        (let c = contract_default\<lparr>underlying := trim_back (substr 0 6 occ),
               expiry := ExpiryDate (of_int (2000 + yy)) (of_int mm) (of_int dd)\<rparr>;
             cp = occ ! 12 in
         if cp \<noteq> CHR ''C'' \<and> cp \<noteq> CHR ''P'' then Inl BadType
         else case parse_int (substr 13 8 occ) of Inl e \<Rightarrow> Inl e | Inr thousandths \<Rightarrow>
           Inr (c\<lparr>option_type := (if cp = CHR ''C'' then Call else Put),
             strike := thousandths div 10\<rparr>)))"

section \<open>Printing and parsing numbers\<close>

lemma parse_append:
  "parse_int_from v (xs @ ys) =
     (case parse_int_from v xs of Inl e \<Rightarrow> Inl e | Inr u \<Rightarrow> parse_int_from u ys)"
  by (induction v xs rule: parse_int_from.induct) auto

lemma of_char_digit: "n < 10 \<Longrightarrow> (of_char (char_of (48 + n) :: char) :: int) = 48 + int n"
proof -
  assume n: "n < 10"
  have "(of_char (char_of (48 + n) :: char) :: int) = int (of_char (char_of (48 + n) :: char))"
    by (simp only: of_nat_of_char)
  then show ?thesis using n by simp
qed

lemma parse_digit: "n < 10 \<Longrightarrow> parse_int_from v [char_of (48 + n)] = Inr (v * 10 + int n)"
  using of_char_digit [of n] by simp

lemma parse_zeros: "parse_int_from 0 (replicate k CHR ''0'' @ s) = parse_int_from 0 s"
  by (induction k) simp_all

lemma length_dec_pos: "0 < length (dec n)"
  by (subst dec.simps) simp

lemma parse_dec: "parse_int_from v (dec n) = Inr (v * 10 ^ length (dec n) + int n)"
proof (induction n arbitrary: v rule: dec.induct)
  case (1 n)
  show ?case
  proof (cases "n < 10")
    case True
    then show ?thesis using parse_digit [of n] by (subst (1 2) dec.simps) simp
  next
    case False
    have d: "dec n = dec (n div 10) @ [char_of (48 + n mod 10)]" using False by (subst dec.simps) simp
    have "parse_int_from v (dec n) = Inr ((v * 10 ^ length (dec (n div 10)) + int (n div 10)) * 10 + int (n mod 10))"
      unfolding d parse_append using 1 [OF False] parse_digit [of "n mod 10"] by simp
    moreover have "int n = int (n div 10) * 10 + int (n mod 10)" by presburger
    ultimately show ?thesis using d by (simp add: algebra_simps)
  qed
qed

lemma length_dec_le: "n < 10 ^ k \<Longrightarrow> 0 < k \<Longrightarrow> length (dec n) \<le> k"
proof (induction n arbitrary: k rule: dec.induct)
  case (1 n)
  show ?case
  proof (cases "n < 10")
    case True
    then show ?thesis using "1.prems" by (subst dec.simps) simp
  next
    case False
    obtain j where k: "k = Suc j" using "1.prems"(2) by (cases k) auto
    then have "n div 10 < 10 ^ (k - 1)" using "1.prems"(1) by (simp add: less_mult_imp_div_less)
    moreover have "0 < k - 1" using False "1.prems"(1) k by (cases j) auto
    ultimately have "length (dec (n div 10)) \<le> k - 1" using "1.IH" False by blast
    then show ?thesis using False "1.prems"(2) by (subst dec.simps) simp
  qed
qed

lemma fmt_d_parse:
  assumes "0 \<le> v" and "v < 10 ^ w" and "0 < w"
  shows "length (fmt_d w v) = w" and "parse_int (fmt_d w v) = Inr v"
proof -
  have "nat v < 10 ^ w" using assms by (simp add: nat_less_iff)
  then have "length (dec (nat v)) \<le> w" using length_dec_le assms(3) by blast
  then show "length (fmt_d w v) = w" using assms by (simp add: fmt_d_def)
  show "parse_int (fmt_d w v) = Inr v"
    using assms by (simp add: fmt_d_def parse_int_def parse_zeros parse_dec)
qed

text \<open>A string of digits is determined by its length and its value.\<close>

lemma parse_snoc:
  assumes "parse_int (s @ [c]) = Inr v"
  obtains u where "parse_int s = Inr u" and "v = u * 10 + (of_char c - 48)"
    and "48 \<le> (of_char c :: int)" and "(of_char c :: int) \<le> 57"
  using assms by (auto simp: parse_int_def parse_append split: sum.splits if_splits)

lemma parse_bounds: "parse_int s = Inr v \<Longrightarrow> 0 \<le> v \<and> v < 10 ^ length s"
proof (induction s arbitrary: v rule: rev_induct)
  case Nil
  then show ?case by (simp add: parse_int_def)
next
  case (snoc c s)
  obtain u where u: "parse_int s = Inr u" "v = u * 10 + (of_char c - 48)"
      "48 \<le> (of_char c :: int)" "(of_char c :: int) \<le> 57"
    by (rule parse_snoc [OF snoc.prems])
  then have "0 \<le> u" "u + 1 \<le> 10 ^ length s" using snoc.IH by fastforce+
  then show ?case using u by (auto simp: algebra_simps)
qed

lemma parse_inj:
  "parse_int s = Inr v \<Longrightarrow> parse_int s' = Inr v \<Longrightarrow> length s = length s' \<Longrightarrow> s = s'"
proof (induction s arbitrary: s' v rule: rev_induct)
  case Nil
  then show ?case by simp
next
  case (snoc c s)
  obtain s1 c1 where s': "s' = s1 @ [c1]" using snoc.prems(3) by (cases s' rule: rev_cases) auto
  obtain u where u: "parse_int s = Inr u" "v = u * 10 + (of_char c - 48)"
      "48 \<le> (of_char c :: int)" "(of_char c :: int) \<le> 57"
    by (rule parse_snoc [OF snoc.prems(1)])
  obtain u1 where u1: "parse_int s1 = Inr u1" "v = u1 * 10 + (of_char c1 - 48)"
      "48 \<le> (of_char c1 :: int)" "(of_char c1 :: int) \<le> 57"
    by (rule parse_snoc [OF snoc.prems(2) [unfolded s']])
  have "u = u1" "(of_char c :: int) = of_char c1" using u u1 by presburger+
  moreover have "s = s1" using snoc.IH [OF u(1)] u1(1) calculation(1) snoc.prems(3) s' by simp
  ultimately show ?case using s' by simp
qed

lemma fmt_of_parse: "parse_int s = Inr v \<Longrightarrow> s \<noteq> [] \<Longrightarrow> fmt_d (length s) v = s"
  using parse_bounds [of s v] fmt_d_parse [of v "length s"] parse_inj [of s v "fmt_d (length s) v"] by simp

section \<open>Trimming the root\<close>

lemma trim_back_snoc [simp]: "trim_back (s @ [CHR '' '']) = trim_back s"
  by (subst trim_back.simps) simp

lemma trim_back_spaces [simp]: "trim_back (s @ replicate k CHR '' '') = trim_back s"
  by (induction k arbitrary: s) (simp_all add: replicate_append_same [symmetric] flip: append_assoc)

lemma trim_back_id: "s = [] \<or> last s \<noteq> CHR '' '' \<Longrightarrow> trim_back s = s"
  by (subst trim_back.simps) auto

lemma trim_back_pad: "\<exists>k. s = trim_back s @ replicate k CHR '' ''"
proof (induction s rule: trim_back.induct)
  case (1 s)
  show ?case
  proof (cases "s \<noteq> [] \<and> last s = CHR '' ''")
    case True
    then obtain k where "butlast s = trim_back (butlast s) @ replicate k CHR '' ''" using 1 by blast
    moreover have "s = butlast s @ [CHR '' '']" using True append_butlast_last_id by metis
    moreover have "trim_back s = trim_back (butlast s)" using True by (subst trim_back.simps) simp
    ultimately have "s = trim_back s @ replicate (Suc k) CHR '' ''"
      by (metis append.assoc replicate_append_same replicate_Suc)
    then show ?thesis by blast
  next
    case False
    then show ?thesis by (subst trim_back.simps) (auto intro: exI [of _ 0])
  qed
qed

section \<open>Printing and parsing symbols\<close>

text \<open>The contracts the symbol can express.\<close>

definition occ_valid :: "contract \<Rightarrow> bool" where
  "occ_valid c \<longleftrightarrow> length (underlying c) \<le> 6 \<and>
     (underlying c = [] \<or> last (underlying c) \<noteq> CHR '' '') \<and>
     2000 \<le> uint (ed_year (expiry c)) \<and> uint (ed_year (expiry c)) \<le> 2099 \<and>
     uint (ed_month (expiry c)) \<le> 99 \<and> uint (ed_day (expiry c)) \<le> 99 \<and>
     0 \<le> strike c \<and> strike c < 10 ^ 7"

lemma substr_mid: "length a = pos \<Longrightarrow> length b = n \<Longrightarrow> substr pos n (a @ b @ c) = b"
  by (simp add: substr_def)

lemma substr_split21:
  "length s = 21 \<Longrightarrow>
   s = substr 0 6 s @ substr 6 2 s @ substr 8 2 s @ substr 10 2 s @ [s ! 12] @ substr 13 8 s"
proof -
  assume len: "length s = 21"
  have c: "drop n s = substr n k s @ drop (n + k) s" for n k
    using append_take_drop_id [of k "drop n s"] by (simp add: substr_def add.commute)
  have "drop 12 s = [s ! 12] @ drop 13 s" using len by (simp add: Cons_nth_drop_Suc [symmetric])
  moreover have "drop 13 s = substr 13 8 s" using len by (simp add: substr_def)
  moreover have "drop 0 s = substr 0 6 s @ drop 6 s" "drop 6 s = substr 6 2 s @ drop 8 s"
      "drop 8 s = substr 8 2 s @ drop 10 s" "drop 10 s = substr 10 2 s @ drop 12 s"
    using c [of 0 6] c [of 6 2] c [of 8 2] c [of 10 2] by simp_all
  ultimately show ?thesis by (metis append.assoc drop0)
qed

lemma of_int_uint_year: "2000 \<le> uint y \<Longrightarrow> uint y \<le> 2099 \<Longrightarrow> of_int (2000 + uint y mod 100) = (y :: u16)"
proof -
  assume "2000 \<le> uint y" "uint y \<le> 2099"
  then have "2000 + uint y mod 100 = uint y" by presburger
  then show ?thesis by simp
qed

lemma mod_2000: "0 \<le> y \<Longrightarrow> y < 100 \<Longrightarrow> (2000 + y) mod 100 = (y :: int)"
  using mod_mult_self3 [of 20 100 y] by simp

lemma uint_small16: "0 \<le> v \<Longrightarrow> v < 65536 \<Longrightarrow> uint (of_int v :: u16) = v"
  by (simp add: uint_word_of_int_eq take_bit_int_eq_self)

lemma uint_small8: "0 \<le> v \<Longrightarrow> v < 256 \<Longrightarrow> uint (of_int v :: u8) = v"
  by (simp add: uint_word_of_int_eq take_bit_int_eq_self)

text \<open>
  C10. The OCC symbol of a contract can be read back. For every contract whose root has at most
  six characters and no trailing space, whose year is in this century and whose strike is below
  ten million ticks, \<open>occ_symbol\<close> is a 21-character string and \<open>from_occ\<close> of it is the contract,
  except for the fields the symbol does not carry, which get their defaults.
\<close>

theorem occ_roundtrip:
  assumes v: "occ_valid c"
  shows "\<exists>s. occ_symbol c = Some s \<and> length s = 21 \<and>
    from_occ s = Inr (c\<lparr>style := American, multiplier := 100, settlement := Physical\<rparr>)"
proof -
  let ?y = "uint (ed_year (expiry c)) mod 100" and ?m = "uint (ed_month (expiry c))"
    and ?d = "uint (ed_day (expiry c))" and ?t = "strike c * 10"
  let ?r = "underlying c @ replicate (6 - length (underlying c)) CHR '' ''"
  let ?cp = "if option_type c = Call then CHR ''C'' else CHR ''P''"
  let ?Y = "fmt_d 2 ?y" and ?M = "fmt_d 2 ?m" and ?D = "fmt_d 2 ?d" and ?T = "fmt_d 8 ?t"
  have Y: "length ?Y = 2" "parse_int ?Y = Inr ?y" by (rule fmt_d_parse; simp)+
  have M: "length ?M = 2" "parse_int ?M = Inr ?m" using v by (simp_all add: fmt_d_parse occ_valid_def)
  have D: "length ?D = 2" "parse_int ?D = Inr ?d" using v by (simp_all add: fmt_d_parse occ_valid_def)
  have T: "length ?T = 8" "parse_int ?T = Inr ?t" using v by (simp_all add: fmt_d_parse occ_valid_def)
  have R: "length ?r = 6" "take 6 (underlying c) = underlying c" using v by (simp_all add: occ_valid_def)
  define s where "s = ?r @ ?Y @ ?M @ ?D @ [?cp] @ ?T"
  have sym: "occ_symbol c = Some s"
    using v Y(1) M(1) D(1) T(1) R(2) by (simp add: occ_symbol_def Let_def s_def in_i64_def occ_valid_def)
  have len: "length s = 21" using R Y M D T by (simp add: s_def)
  have sub: "substr 0 6 s = ?r" "substr 6 2 s = ?Y" "substr 8 2 s = ?M" "substr 10 2 s = ?D" "substr 13 8 s = ?T"
    using substr_mid [of "[]" 0 ?r 6 "?Y @ ?M @ ?D @ [?cp] @ ?T"]
      substr_mid [of ?r 6 ?Y 2 "?M @ ?D @ [?cp] @ ?T"]
      substr_mid [of "?r @ ?Y" 8 ?M 2 "?D @ [?cp] @ ?T"]
      substr_mid [of "?r @ ?Y @ ?M" 10 ?D 2 "[?cp] @ ?T"]
      substr_mid [of "?r @ ?Y @ ?M @ ?D @ [?cp]" 13 ?T 8 "[]"] R Y(1) M(1) D(1) T(1)
    by (simp_all add: s_def)
  have cp: "s ! 12 = ?cp"
    using R Y(1) M(1) D(1) nth_append_length [of "?r @ ?Y @ ?M @ ?D" ?cp ?T] by (simp add: s_def)
  have tr: "trim_back ?r = underlying c" using v trim_back_id by (simp add: occ_valid_def)
  have yr: "of_int (2000 + ?y) = ed_year (expiry c)" using v of_int_uint_year by (simp add: occ_valid_def)
  have "from_occ s = Inr (c\<lparr>style := American, multiplier := 100, settlement := Physical\<rparr>)"
    using len sub cp Y(2) M(2) D(2) T(2) tr yr
    by (cases "option_type c") (simp_all add: from_occ_def Let_def contract_default_def)
  then show ?thesis using sym len by blast
qed

theorem occ_roundtrip_witness:
  "\<exists>s. occ_symbol (contract_default\<lparr>underlying := ''AAPL'', strike := 15000, expiry := ExpiryDate 2025 6 20\<rparr>) = Some s \<and>
     from_occ s = Inr (contract_default\<lparr>underlying := ''AAPL'', strike := 15000, expiry := ExpiryDate 2025 6 20\<rparr>)"
proof -
  let ?c = "contract_default\<lparr>underlying := ''AAPL'', strike := 15000, expiry := ExpiryDate 2025 6 20\<rparr>"
  have "occ_valid ?c" by (simp add: occ_valid_def)
  moreover have "?c\<lparr>style := American, multiplier := 100, settlement := Physical\<rparr> = ?c"
    by (simp add: contract_default_def)
  ultimately show ?thesis using occ_roundtrip [of ?c] by metis
qed



end
