(* ===== verification/Containers.thy ===== *)
theory Containers
  imports Prelude
begin

text \<open>
  The standard containers the sources use.

  \<^item> \<open>std::unordered_map\<close> is an association list with distinct keys. The order of its
    entries stands for the unspecified iteration order: no theorem depends on it.
  \<^item> \<open>std::map<K, V, Compare>\<close> is an association list sorted by the strict order
    \<open>Compare\<close>. The locale \<open>map_compare\<close> states what the standard asks of a comparison;
    it is interpreted below for the two comparisons of the order book, \<open>std::less\<close> and
    \<open>std::greater\<close>, and once more for expiry dates in the theory of contracts.
\<close>

section \<open>Unordered maps\<close>

definition um_find :: "('k \<times> 'v) list \<Rightarrow> 'k \<Rightarrow> 'v option" where
  "um_find m k = map_of m k"

definition um_emplace :: "'k \<Rightarrow> 'v \<Rightarrow> ('k \<times> 'v) list \<Rightarrow> ('k \<times> 'v) list" where
  "um_emplace k v m = (if um_find m k = None then (k, v) # m else m)"

definition um_erase :: "'k \<Rightarrow> ('k \<times> 'v) list \<Rightarrow> ('k \<times> 'v) list" where
  "um_erase k m = filter (\<lambda>e. fst e \<noteq> k) m"

definition um_assign :: "'k \<Rightarrow> 'v \<Rightarrow> ('k \<times> 'v) list \<Rightarrow> ('k \<times> 'v) list" where
  "um_assign k v m = map (\<lambda>e. if fst e = k then (k, v) else e) m"

definition um_ok :: "('k \<times> 'v) list \<Rightarrow> bool" where
  "um_ok m \<longleftrightarrow> distinct (map fst m)"

lemma um_ok_Nil [simp]: "um_ok []"
  by (simp add: um_ok_def)

lemma um_find_Nil [simp]: "um_find [] k = None"
  by (simp add: um_find_def)

lemma um_find_emplace:
  "um_find (um_emplace k v m) k' =
   (if k' = k \<and> um_find m k = None then Some v else um_find m k')"
  by (auto simp: um_emplace_def um_find_def)

lemma um_ok_emplace [simp]: "um_ok m \<Longrightarrow> um_ok (um_emplace k v m)"
  by (auto simp: um_emplace_def um_ok_def um_find_def map_of_eq_None_iff)

lemma um_find_erase: "um_find (um_erase k m) k' = (if k' = k then None else um_find m k')"
  by (induction m) (auto simp: um_erase_def um_find_def)

lemma um_find_erase_all:
  "um_find (fold um_erase ks m) k = (if k \<in> set ks then None else um_find m k)"
  by (induction ks arbitrary: m) (auto simp: um_find_erase)

lemma um_ok_erase [simp]: "um_ok m \<Longrightarrow> um_ok (um_erase k m)"
  by (auto simp: um_ok_def um_erase_def distinct_map inj_on_def)

lemma um_ok_erase_all: "um_ok m \<Longrightarrow> um_ok (fold um_erase ks m)"
  by (induction ks arbitrary: m) auto

lemma um_find_assign:
  "um_find (um_assign k v m) k' =
   (if k' = k then (if um_find m k = None then None else Some v) else um_find m k')"
  by (induction m) (auto simp: um_assign_def um_find_def)

lemma um_assign_same:
  assumes "um_ok m" and "um_find m k = Some v"
  shows "um_assign k v m = m"
  unfolding um_assign_def
proof (rule map_idI)
  fix x assume x: "x \<in> set m"
  have "(k, v) \<in> set m" using assms(2) by (simp add: um_find_def map_of_SomeD)
  then show "(if fst x = k then (k, v) else x) = x"
    using x assms(1) by (cases x) (auto simp: um_ok_def dest: eq_key_imp_eq_value)
qed

lemma map_fst_um_assign [simp]: "map fst (um_assign k v m) = map fst m"
  by (simp add: um_assign_def comp_def if_distrib cong: if_cong)

lemma um_ok_assign [simp]: "um_ok (um_assign k v m) = um_ok m"
  by (simp add: um_ok_def)

lemma um_size_emplace:
  "length (um_emplace k v m) = (if um_find m k = None then Suc (length m) else length m)"
  by (simp add: um_emplace_def)

lemma um_find_in_set: "um_ok m \<Longrightarrow> um_find m k = Some v \<longleftrightarrow> (k, v) \<in> set m"
  by (simp add: um_ok_def um_find_def map_of_eq_Some_iff)

lemma um_erase_none: "um_find m k = None \<Longrightarrow> um_erase k m = m"
  by (simp add: um_erase_def um_find_def map_of_eq_None_iff filter_keys_notin)

lemma length_um_erase:
  "um_ok m \<Longrightarrow> um_find m k = Some v \<Longrightarrow> Suc (length (um_erase k m)) = length m"
proof (induction m)
  case (Cons e m)
  then show ?case
    by (cases "fst e = k") (auto simp: um_ok_def um_find_def um_erase_def filter_keys_notin)
qed simp

lemma um_erase_unchanged_keys [simp]: "map fst (um_erase k m) = filter (\<lambda>x. x \<noteq> k) (map fst m)"
  by (simp add: um_erase_def filter_map comp_def)

section \<open>Ordered maps\<close>

text \<open>
  \<open>om_subscript lt d k m\<close> is the map after evaluating \<open>m[k]\<close>: the key is inserted with
  the default value \<open>d\<close> where the comparison puts it, unless it is there already.
  \<open>om_assign\<close> writes through the reference or iterator to an existing element.
\<close>

fun om_subscript :: "('k \<Rightarrow> 'k \<Rightarrow> bool) \<Rightarrow> 'v \<Rightarrow> 'k \<Rightarrow> ('k \<times> 'v) list \<Rightarrow> ('k \<times> 'v) list" where
  "om_subscript lt d k [] = [(k, d)]"
| "om_subscript lt d k ((k', v) # m) =
     (if lt k k' then (k, d) # (k', v) # m
      else if lt k' k then (k', v) # om_subscript lt d k m
      else (k', v) # m)"

definition om_find :: "('k \<times> 'v) list \<Rightarrow> 'k \<Rightarrow> 'v option" where
  "om_find m k = map_of m k"

definition om_assign :: "'k \<Rightarrow> 'v \<Rightarrow> ('k \<times> 'v) list \<Rightarrow> ('k \<times> 'v) list" where
  "om_assign k v m = map (\<lambda>e. if fst e = k then (k, v) else e) m"

definition om_erase :: "'k \<Rightarrow> ('k \<times> 'v) list \<Rightarrow> ('k \<times> 'v) list" where
  "om_erase k m = filter (\<lambda>e. fst e \<noteq> k) m"

lemma om_find_Nil [simp]: "om_find [] k = None"
  by (simp add: om_find_def)

lemma om_find_Cons: "om_find ((k, v) # m) k' = (if k' = k then Some v else om_find m k')"
  by (simp add: om_find_def)

lemma om_find_Cons_ex:
  assumes "om_find m k = None"
  shows "(\<exists>k' v'. om_find ((k, v) # m) k' = Some v' \<and> P k' v') \<longleftrightarrow>
    P k v \<or> (\<exists>k' v'. om_find m k' = Some v' \<and> P k' v')"
proof -
  have "k' \<noteq> k" if "om_find m k' = Some v'" for k' v' using that assms by auto
  then show ?thesis by (auto simp: om_find_Cons)
qed

text \<open>
  The default argument of \<open>om_find\<close>, \<open>om_assign\<close> and \<open>om_erase\<close> at a key that splits
  the map in two: the shape in which the order book proofs use them.
\<close>

lemma om_find_split:
  "k \<notin> fst ` set xs \<Longrightarrow> om_find (xs @ (k, v) # ys) k = Some v"
  by (auto simp: om_find_def map_add_Some_iff map_of_eq_None_iff)

lemma om_assign_split:
  "k \<notin> fst ` set xs \<Longrightarrow> k \<notin> fst ` set ys \<Longrightarrow>
   om_assign k w (xs @ (k, v) # ys) = xs @ (k, w) # ys"
  by (simp add: om_assign_def map_keys_notin)

lemma om_erase_split:
  "k \<notin> fst ` set xs \<Longrightarrow> k \<notin> fst ` set ys \<Longrightarrow>
   om_erase k (xs @ (k, v) # ys) = xs @ ys"
  by (simp add: om_erase_def filter_keys_notin)

lemma om_find_decomp:
  assumes "om_find m k = Some v"
  obtains xs ys where "m = xs @ (k, v) # ys" and "k \<notin> fst ` set xs"
proof -
  have "\<exists>xs ys. m = xs @ (k, v) # ys \<and> k \<notin> fst ` set xs"
    using assms unfolding om_find_def
  proof (induction m)
    case (Cons e m)
    show ?case
    proof (cases "fst e = k")
      case True
      with Cons.prems have "e = (k, v)" by (cases e) auto
      then show ?thesis by (metis append_Nil empty_iff image_empty list.set(1))
    next
      case False
      with Cons obtain xs ys where "m = xs @ (k, v) # ys" "k \<notin> fst ` set xs"
        by (cases e) auto
      with False have "e # m = (e # xs) @ (k, v) # ys \<and> k \<notin> fst ` set (e # xs)" by auto
      then show ?thesis by blast
    qed
  qed simp
  then show ?thesis using that by blast
qed

locale map_compare =
  fixes lt :: "'k \<Rightarrow> 'k \<Rightarrow> bool"
  assumes lt_irrefl [simp]: "\<not> lt a a"
    and lt_trans: "lt a b \<Longrightarrow> lt b c \<Longrightarrow> lt a c"
    and lt_total: "\<not> lt a b \<Longrightarrow> \<not> lt b a \<Longrightarrow> a = b"
begin

abbreviation om_sorted :: "('k \<times> 'v) list \<Rightarrow> bool" where
  "om_sorted m \<equiv> sorted_wrt lt (map fst m)"

lemma om_sorted_distinct: "om_sorted m \<Longrightarrow> distinct (map fst m)"
  by (induction m) auto

lemma om_sorted_split_notin:
  assumes "om_sorted (xs @ (k, v) # ys)"
  shows "k \<notin> fst ` set xs" and "k \<notin> fst ` set ys"
  using om_sorted_distinct [OF assms] by auto

lemma om_subscript_keys: "fst ` set (om_subscript lt d k m) = insert k (fst ` set m)"
proof (induction m)
  case (Cons e m)
  then show ?case by (cases e) (auto dest: lt_total)
qed simp

text \<open>Evaluating \<open>m[k]\<close> either finds the key or inserts it between two parts of the map.\<close>

lemma om_subscript_cases:
  assumes "om_sorted m"
  obtains
    (found) xs v ys where "m = xs @ (k, v) # ys" and "om_subscript lt d k m = m"
  | (fresh) xs ys where "m = xs @ ys" and "om_subscript lt d k m = xs @ (k, d) # ys"
      and "k \<notin> fst ` set m" and "om_sorted (xs @ (k, d) # ys)"
proof -
  have "(\<exists>xs v ys. m = xs @ (k, v) # ys \<and> om_subscript lt d k m = m) \<or>
        (\<exists>xs ys. m = xs @ ys \<and> om_subscript lt d k m = xs @ (k, d) # ys \<and>
          k \<notin> fst ` set m \<and> om_sorted (xs @ (k, d) # ys))"
    using assms
  proof (induction m)
    case Nil
    then show ?case by simp
  next
    case (Cons e m)
    obtain k' v where e: "e = (k', v)" by (cases e)
    have lt_tl: "\<And>x. x \<in> fst ` set m \<Longrightarrow> lt k' x" and srt: "om_sorted m"
      using Cons.prems e by auto
    consider "lt k k'" | "lt k' k" | "k = k'" using lt_total by blast
    then show ?case
    proof cases
      case 1
      have "om_sorted ((k, d) # e # m)"
        using 1 lt_tl srt e by (auto intro: lt_trans)
      moreover from this have "k \<notin> fst ` set (e # m)"
        using lt_irrefl by (metis fst_conv list.set_map list.simps(9) sorted_wrt.simps(2))
      ultimately have "e # m = [] @ e # m \<and> om_subscript lt d k (e # m) = [] @ (k, d) # e # m \<and>
          k \<notin> fst ` set (e # m) \<and> om_sorted ([] @ (k, d) # e # m)"
        using 1 e by simp
      then show ?thesis by blast
    next
      case 2
      then have nlt: "\<not> lt k k'" using lt_trans lt_irrefl by blast
      have ne: "k \<noteq> k'" using 2 by auto
      from Cons.IH [OF srt] show ?thesis
      proof (elim disjE exE conjE)
        fix xs w ys assume "m = xs @ (k, w) # ys" "om_subscript lt d k m = m"
        then have "e # m = (e # xs) @ (k, w) # ys \<and> om_subscript lt d k (e # m) = e # m"
          using e 2 nlt by simp
        then show ?thesis by blast
      next
        fix xs ys
        assume m: "m = xs @ ys" "om_subscript lt d k m = xs @ (k, d) # ys"
          "k \<notin> fst ` set m" "om_sorted (xs @ (k, d) # ys)"
        have "om_sorted ((e # xs) @ (k, d) # ys)"
          using m lt_tl e 2 by auto
        then have "e # m = (e # xs) @ ys \<and> om_subscript lt d k (e # m) = (e # xs) @ (k, d) # ys \<and>
            k \<notin> fst ` set (e # m) \<and> om_sorted ((e # xs) @ (k, d) # ys)"
          using m e 2 nlt ne by simp
        then show ?thesis by blast
      qed
    next
      case 3
      then have "e # m = [] @ (k, v) # m \<and> om_subscript lt d k (e # m) = e # m"
        using e by simp
      then show ?thesis by blast
    qed
  qed
  then show ?thesis using found fresh by blast
qed

lemma om_sorted_subscript: "om_sorted m \<Longrightarrow> om_sorted (om_subscript lt d k m)"
  by (rule om_subscript_cases [of m k d]) auto

lemma om_find_subscript:
  assumes "om_sorted m"
  shows "om_find (om_subscript lt d k m) k' =
    (if k' = k then Some (case om_find m k of None \<Rightarrow> d | Some v \<Rightarrow> v) else om_find m k')"
  using assms
proof (cases rule: om_subscript_cases [where k = k and d = d])
  case (found xs v ys)
  then have "om_find m k = Some v"
    using om_sorted_split_notin(1) assms om_find_split by metis
  with found show ?thesis by simp
next
  case (fresh xs ys)
  then have "om_find m k = None"
    by (auto simp: om_find_def map_of_eq_None_iff image_Un)
  moreover have "om_find (xs @ (k, d) # ys) k = Some d"
    using om_sorted_split_notin(1) [OF fresh(4)] by (simp add: om_find_split)
  moreover have "k' \<noteq> k \<Longrightarrow> om_find (xs @ (k, d) # ys) k' = om_find (xs @ ys) k'"
    by (simp add: om_find_def map_add_def cong: option.case_cong)
  ultimately show ?thesis using fresh by simp
qed

end

lemma map_fst_om_assign [simp]: "map fst (om_assign k v m) = map fst m"
  by (simp add: om_assign_def comp_def if_distrib cong: if_cong)

lemma om_find_assign:
  "om_find (om_assign k v m) k' =
   (if k' = k then (if om_find m k = None then None else Some v) else om_find m k')"
  by (induction m) (auto simp: om_assign_def om_find_def)

lemma om_find_erase: "om_find (om_erase k m) k' = (if k' = k then None else om_find m k')"
  by (induction m) (auto simp: om_erase_def om_find_def)

lemma sorted_wrt_om_erase:
  "sorted_wrt lt (map fst m) \<Longrightarrow> sorted_wrt lt (map fst (om_erase k m))"
  by (induction m) (auto simp: om_erase_def)

text \<open>The two comparisons of the price ladders.\<close>

interpretation price_less: map_compare "(<) :: 'a :: linorder \<Rightarrow> 'a \<Rightarrow> bool"
  by unfold_locales auto

interpretation price_greater: map_compare "(>) :: 'a :: linorder \<Rightarrow> 'a \<Rightarrow> bool"
  by unfold_locales auto

end
