(* ===== verification/Chain.thy ===== *)
theory Chain
  imports Contract Containers
begin

text \<open>
  \<open>include/ordbk/instruments/chain.hpp\<close> and \<open>src/instruments/chain.cpp\<close>: the option contracts of one
  underlying, indexed by expiry, strike and type, with the reverse index from instrument ids.
\<close>

record strike_slot =
  slot_call :: "u32 option"
  slot_put :: "u32 option"

type_synonym strike_map = "(i64 \<times> strike_slot) list"

record chain =
  chain_underlying :: string
  chain_levels :: "(expiry_date \<times> strike_map) list"
  by_id :: "(u32 \<times> (expiry_date \<times> i64)) list"
  id_to_type :: "(u32 \<times> option_type) list"

definition empty_slot :: strike_slot where
  "empty_slot = \<lparr>slot_call = None, slot_put = None\<rparr>"

definition new_chain :: "string \<Rightarrow> chain" where
  "new_chain u = \<lparr>chain_underlying = u, chain_levels = [], by_id = [], id_to_type = []\<rparr>"

section \<open>Operations\<close>

text \<open>The member of the slot an option type names.\<close>

definition slot_of :: "option_type \<Rightarrow> strike_slot \<Rightarrow> u32 option" where
  "slot_of ty sl = (if ty = Call then slot_call sl else slot_put sl)"

definition set_slot :: "option_type \<Rightarrow> u32 option \<Rightarrow> strike_slot \<Rightarrow> strike_slot" where
  "set_slot ty v sl = (if ty = Call then sl\<lparr>slot_call := v\<rparr> else sl\<lparr>slot_put := v\<rparr>)"

text \<open>\<open>levels_[expiry][strike]\<close>: both subscripts may insert a default element.\<close>

definition touch :: "expiry_date \<Rightarrow> i64 \<Rightarrow> (expiry_date \<times> strike_map) list \<Rightarrow>
    (strike_slot \<times> (expiry_date \<times> strike_map) list) option" where
  "touch e k ls =
     (let ls1 = om_subscript (<) [] e ls in do {
        sm \<leftarrow> om_find ls1 e;
        let sm1 = om_subscript (<) empty_slot k sm;
        sl \<leftarrow> om_find sm1 k;
        Some (sl, om_assign e sm1 ls1)
      })"

definition write_slot :: "expiry_date \<Rightarrow> i64 \<Rightarrow> strike_slot \<Rightarrow> (expiry_date \<times> strike_map) list \<Rightarrow>
    (expiry_date \<times> strike_map) list option" where
  "write_slot e k sl ls =
     do {
       sm \<leftarrow> om_find ls e;
       Some (om_assign e (om_assign k sl sm) ls)
     }"

definition chain_add :: "u32 \<Rightarrow> contract \<Rightarrow> chain \<Rightarrow> (bool \<times> chain) option" where
  "chain_add i c ch =
     (if um_find (by_id ch) i \<noteq> None then Some (False, ch)
      else do {
        (sl, ls1) \<leftarrow> touch (expiry c) (strike c) (chain_levels ch);
        if slot_of (option_type c) sl \<noteq> None then Some (False, ch\<lparr>chain_levels := ls1\<rparr>)
        else do {
          ls2 \<leftarrow> write_slot (expiry c) (strike c) (set_slot (option_type c) (Some i) sl) ls1;
          Some (True, ch\<lparr>chain_levels := ls2,
            by_id := um_emplace i (expiry c, strike c) (by_id ch),
            id_to_type := um_emplace i (option_type c) (id_to_type ch)\<rparr>)
        }
      })"

text \<open>\<open>at\<close> throws on a missing key: \<open>None\<close>.\<close>

definition chain_remove :: "u32 \<Rightarrow> chain \<Rightarrow> (bool \<times> chain) option" where
  "chain_remove i ch =
     (case um_find (by_id ch) i of
        None \<Rightarrow> Some (False, ch)
      | Some (e, k) \<Rightarrow> do {
          ty \<leftarrow> um_find (id_to_type ch) i;
          sm \<leftarrow> om_find (chain_levels ch) e;
          sl \<leftarrow> om_find sm k;
          let sl' = set_slot ty None sl;
          let sm1 = om_assign k sl' sm;
          let sm2 = (if slot_call sl' = None \<and> slot_put sl' = None then om_erase k sm1 else sm1);
          let ls1 = om_assign e sm2 (chain_levels ch);
          let ls2 = (if sm2 = [] then om_erase e ls1 else ls1);
          Some (True, ch\<lparr>chain_levels := ls2, id_to_type := um_erase i (id_to_type ch),
            by_id := um_erase i (by_id ch)\<rparr>)
        })"

definition chain_find :: "chain \<Rightarrow> expiry_date \<Rightarrow> i64 \<Rightarrow> option_type \<Rightarrow> u32 option" where
  "chain_find ch e k ty =
     (case om_find (chain_levels ch) e of
        None \<Rightarrow> None
      | Some sm \<Rightarrow> (case om_find sm k of None \<Rightarrow> None | Some sl \<Rightarrow> slot_of ty sl))"

text \<open>The loops that push the ids of a strike map, call before put.\<close>

fun ids_of :: "strike_map \<Rightarrow> u32 list" where
  "ids_of [] = []"
| "ids_of ((k, sl) # sm) =
     (case slot_call sl of None \<Rightarrow> [] | Some i \<Rightarrow> [i]) @
     (case slot_put sl of None \<Rightarrow> [] | Some i \<Rightarrow> [i]) @ ids_of sm"

definition at_expiry :: "chain \<Rightarrow> expiry_date \<Rightarrow> u32 list" where
  "at_expiry ch e = (case om_find (chain_levels ch) e of None \<Rightarrow> [] | Some sm \<Rightarrow> ids_of sm)"

definition calls_at :: "chain \<Rightarrow> expiry_date \<Rightarrow> u32 list" where
  "calls_at ch e =
     (case om_find (chain_levels ch) e of None \<Rightarrow> []
      | Some sm \<Rightarrow> List.map_filter (\<lambda>(k, sl). slot_call sl) sm)"

definition puts_at :: "chain \<Rightarrow> expiry_date \<Rightarrow> u32 list" where
  "puts_at ch e =
     (case om_find (chain_levels ch) e of None \<Rightarrow> []
      | Some sm \<Rightarrow> List.map_filter (\<lambda>(k, sl). slot_put sl) sm)"

definition expiries :: "chain \<Rightarrow> expiry_date list" where
  "expiries ch = map fst (chain_levels ch)"

text \<open>The loop breaks at the first expiry after the date.\<close>

fun expiring_ids :: "expiry_date \<Rightarrow> (expiry_date \<times> strike_map) list \<Rightarrow> u32 list" where
  "expiring_ids date [] = []"
| "expiring_ids date ((e, sm) # ls) = (if date < e then [] else ids_of sm @ expiring_ids date ls)"

definition expiring_on_or_before :: "chain \<Rightarrow> expiry_date \<Rightarrow> u32 list" where
  "expiring_on_or_before ch date = expiring_ids date (chain_levels ch)"

definition chain_size :: "chain \<Rightarrow> nat" where
  "chain_size ch = length (by_id ch)"

section \<open>The invariant\<close>

text \<open>
  Both levels of the map are sorted, no inner map and no slot is empty, and the reverse index
  is exact: an id is filed under a key if and only if it sits in the slot of that key.
\<close>

definition slot_at :: "(expiry_date \<times> strike_map) list \<Rightarrow> expiry_date \<Rightarrow> i64 \<Rightarrow> strike_slot option" where
  "slot_at ls e k = (case om_find ls e of None \<Rightarrow> None | Some sm \<Rightarrow> om_find sm k)"

definition levels_sorted :: "(expiry_date \<times> strike_map) list \<Rightarrow> bool" where
  "levels_sorted ls \<longleftrightarrow> sorted_wrt (<) (map fst ls) \<and>
     (\<forall>e sm. om_find ls e = Some sm \<longrightarrow> sorted_wrt (<) (map fst sm) \<and> sm \<noteq> [])"

definition slots_used :: "(expiry_date \<times> strike_map) list \<Rightarrow> bool" where
  "slots_used ls \<longleftrightarrow> (\<forall>e k sl. slot_at ls e k = Some sl \<longrightarrow> slot_call sl \<noteq> None \<or> slot_put sl \<noteq> None)"

definition filed :: "chain \<Rightarrow> u32 \<Rightarrow> (expiry_date \<times> i64 \<times> option_type) option" where
  "filed ch i =
     (case um_find (by_id ch) i of None \<Rightarrow> None
      | Some (e, k) \<Rightarrow> (case um_find (id_to_type ch) i of None \<Rightarrow> None | Some ty \<Rightarrow> Some (e, k, ty)))"

definition chain_ok :: "chain \<Rightarrow> bool" where
  "chain_ok ch \<longleftrightarrow> levels_sorted (chain_levels ch) \<and> slots_used (chain_levels ch) \<and>
     um_ok (by_id ch) \<and> um_ok (id_to_type ch) \<and>
     (\<forall>i. um_find (by_id ch) i = None \<longleftrightarrow> um_find (id_to_type ch) i = None) \<and>
     (\<forall>i e k ty. filed ch i = Some (e, k, ty) \<longleftrightarrow> chain_find ch e k ty = Some i)"

lemma chain_find_slot: "chain_find ch e k ty = Option.bind (slot_at (chain_levels ch) e k) (slot_of ty)"
  by (simp add: chain_find_def slot_at_def split: option.splits)

lemma new_chain_ok: "chain_ok (new_chain u)"
  by (auto simp: chain_ok_def new_chain_def levels_sorted_def slots_used_def slot_at_def filed_def
      chain_find_def om_find_def)

lemma slot_of_set_slot [simp]: "slot_of ty' (set_slot ty v sl) = (if ty' = ty then v else slot_of ty' sl)"
  by (cases ty; cases ty') (simp_all add: slot_of_def set_slot_def)

lemma slot_of_empty [simp]: "slot_of ty empty_slot = None"
  by (simp add: slot_of_def empty_slot_def)

lemma slot_unused: "slot_call sl = None \<and> slot_put sl = None \<longleftrightarrow> (\<forall>ty. slot_of ty sl = None)"
  by (auto simp: slot_of_def)

text \<open>\<open>touch\<close> inserts an empty slot if there was none.\<close>

lemma touch_some:
  assumes srt: "sorted_wrt (<) (map fst ls)"
    and inner: "\<forall>e sm. om_find ls e = Some sm \<longrightarrow> sorted_wrt (<) (map fst sm)"
  obtains ls1 where "touch e k ls = Some (case slot_at ls e k of None \<Rightarrow> empty_slot | Some sl \<Rightarrow> sl, ls1)"
    and "sorted_wrt (<) (map fst ls1)"
    and "\<And>e' sm. om_find ls1 e' = Some sm \<Longrightarrow> sorted_wrt (<) (map fst sm) \<and> (sm \<noteq> [] \<or> om_find ls e' = Some [])"
    and "\<And>e' k'. slot_at ls1 e' k' = (if e' = e \<and> k' = k
      then Some (case slot_at ls e k of None \<Rightarrow> empty_slot | Some sl \<Rightarrow> sl) else slot_at ls e' k')"
    and "\<exists>sm. om_find ls1 e = Some sm"
proof -
  define sm where "sm = (case om_find ls e of None \<Rightarrow> [] | Some sm \<Rightarrow> sm)"
  let ?ls1 = "om_subscript (<) [] e ls" and ?sm1 = "om_subscript (<) empty_slot k sm"
  let ?ls2 = "om_assign e ?sm1 ?ls1"
  have f1: "om_find ?ls1 e' = (if e' = e then Some sm else om_find ls e')" for e'
    using price_less.om_find_subscript [OF srt, of "[]" e e'] by (simp add: sm_def)
  have sms: "sorted_wrt (<) (map fst sm)" using inner by (auto simp: sm_def split: option.splits)
  have f2: "om_find ?sm1 k' = (if k' = k then Some (case om_find sm k of None \<Rightarrow> empty_slot | Some sl \<Rightarrow> sl) else om_find sm k')" for k'
    using price_less.om_find_subscript [OF sms] .
  have f3: "om_find ?ls2 e' = (if e' = e then Some ?sm1 else om_find ls e')" for e'
    by (simp add: om_find_assign f1)
  have sl: "slot_at ls e k' = om_find sm k'" for k'
    by (auto simp: slot_at_def sm_def om_find_def split: option.splits)
  have ne: "?sm1 \<noteq> []" using f2 [of k] by (auto simp: om_find_def)
  show ?thesis
  proof
    show "touch e k ls = Some (case slot_at ls e k of None \<Rightarrow> empty_slot | Some sl \<Rightarrow> sl, ?ls2)"
      using f1 [of e] f2 [of k] sl by (simp add: touch_def Let_def)
    show "sorted_wrt (<) (map fst ?ls2)" using price_less.om_sorted_subscript [OF srt] by simp
    show "sorted_wrt (<) (map fst sm') \<and> (sm' \<noteq> [] \<or> om_find ls e' = Some [])" if "om_find ?ls2 e' = Some sm'" for e' sm'
      using that ne inner price_less.om_sorted_subscript [OF sms, of empty_slot k] by (auto simp: f3 split: if_splits)
    show "slot_at ?ls2 e' k' = (if e' = e \<and> k' = k
        then Some (case slot_at ls e k of None \<Rightarrow> empty_slot | Some sl \<Rightarrow> sl) else slot_at ls e' k')" for e' k'
      using f2 sl by (auto simp: slot_at_def [of ?ls2] f3) (simp add: slot_at_def)
    show "\<exists>sm. om_find ?ls2 e = Some sm" by (simp add: f3)
  qed
qed

text \<open>Writing a slot: only the slot of that key changes.\<close>

lemma put_slot:
  assumes ls: "levels_sorted ls"
  obtains ls1 ls2 where "touch e k ls = Some (case slot_at ls e k of None \<Rightarrow> empty_slot | Some sl \<Rightarrow> sl, ls1)"
    and "levels_sorted ls1" and "slot_at ls e k \<noteq> None \<longrightarrow> slot_at ls1 = slot_at ls"
    and "write_slot e k sl ls1 = Some ls2" and "levels_sorted ls2"
    and "\<And>e' k'. slot_at ls2 e' k' = (if e' = e \<and> k' = k then Some sl else slot_at ls e' k')"
proof -
  have srt: "sorted_wrt (<) (map fst ls)"
      and inner: "\<forall>e sm. om_find ls e = Some sm \<longrightarrow> sorted_wrt (<) (map fst sm)"
      and ne: "\<And>e. om_find ls e \<noteq> Some []"
    using ls by (auto simp: levels_sorted_def)
  obtain ls1 where t: "touch e k ls = Some (case slot_at ls e k of None \<Rightarrow> empty_slot | Some sl \<Rightarrow> sl, ls1)"
      "sorted_wrt (<) (map fst ls1)"
      "\<And>e' sm. om_find ls1 e' = Some sm \<Longrightarrow> sorted_wrt (<) (map fst sm) \<and> (sm \<noteq> [] \<or> om_find ls e' = Some [])"
      "\<And>e' k'. slot_at ls1 e' k' = (if e' = e \<and> k' = k
        then Some (case slot_at ls e k of None \<Rightarrow> empty_slot | Some sl \<Rightarrow> sl) else slot_at ls e' k')"
      "\<exists>sm. om_find ls1 e = Some sm"
    using touch_some [OF srt inner, of e k] by metis
  obtain sm where sm: "om_find ls1 e = Some sm" using t(5) by blast
  define ls2 where "ls2 = om_assign e (om_assign k sl sm) ls1"
  have f: "om_find ls2 e' = (if e' = e then Some (om_assign k sl sm) else om_find ls1 e')" for e'
    by (simp add: ls2_def om_find_assign sm)
  have smk: "om_find sm k \<noteq> None" using t(4) [of e k] sm by (simp add: slot_at_def)
  show ?thesis
  proof
    show "touch e k ls = Some (case slot_at ls e k of None \<Rightarrow> empty_slot | Some sl \<Rightarrow> sl, ls1)" by (rule t(1))
    show "levels_sorted ls1" using t(2,3) ne by (auto simp: levels_sorted_def)
    show "slot_at ls e k \<noteq> None \<longrightarrow> slot_at ls1 = slot_at ls" using t(4) by (auto simp: fun_eq_iff)
    show "write_slot e k sl ls1 = Some ls2" by (simp add: write_slot_def sm ls2_def)
    have "om_assign k sl sm \<noteq> []" using smk by (auto simp: om_assign_def om_find_def)
    then show "levels_sorted ls2"
      using t(2,3) ne sm by (auto simp: levels_sorted_def f) (auto simp: ls2_def)
    show "slot_at ls2 e' k' = (if e' = e \<and> k' = k then Some sl else slot_at ls e' k')" for e' k'
    proof -
      have "slot_at ls2 e' k' = (if e' = e \<and> k' = k then Some sl else slot_at ls1 e' k')"
        using sm smk by (auto simp: slot_at_def f om_find_assign)
      then show ?thesis using t(4) by auto
    qed
  qed
qed

lemma filed_emplace:
  assumes "um_find (by_id ch) i = None" and "um_find (id_to_type ch) i = None"
  shows "filed (ch\<lparr>chain_levels := ls, by_id := um_emplace i (e, k) (by_id ch), id_to_type := um_emplace i ty (id_to_type ch)\<rparr>) j =
    (if j = i then Some (e, k, ty) else filed ch j)"
  using assms by (auto simp: filed_def um_find_emplace split: option.splits)

lemma filed_erase:
  "filed (ch\<lparr>chain_levels := ls, id_to_type := um_erase i (id_to_type ch), by_id := um_erase i (by_id ch)\<rparr>) j =
    (if j = i then None else filed ch j)"
  by (auto simp: filed_def um_find_erase split: option.splits)

lemma chain_ok_filed:
  assumes "chain_ok ch"
  shows "filed ch i = Some (e, k, ty) \<longleftrightarrow> chain_find ch e k ty = Some i"
    and "filed ch i = None \<longleftrightarrow> um_find (by_id ch) i = None"
  using assms by (auto simp: chain_ok_def filed_def split: option.splits)

section \<open>Adding and removing\<close>

lemma chain_add_dup:
  assumes ok: "chain_ok ch" and d: "filed ch i = None" "chain_find ch (expiry c) (strike c) (option_type c) \<noteq> None"
  obtains ch' where "chain_add i c ch = Some (False, ch')" and "chain_ok ch'"
    and "chain_find ch' = chain_find ch" and "filed ch' = filed ch"
proof -
  let ?e = "expiry c" and ?k = "strike c"
  obtain sl where sl: "slot_at (chain_levels ch) ?e ?k = Some sl" "slot_of (option_type c) sl \<noteq> None"
    using d(2) by (cases "slot_at (chain_levels ch) ?e ?k") (auto simp: chain_find_slot)
  have ls: "levels_sorted (chain_levels ch)" using ok by (simp add: chain_ok_def)
  obtain ls1 where t': "touch ?e ?k (chain_levels ch) =
        Some (case slot_at (chain_levels ch) ?e ?k of None \<Rightarrow> empty_slot | Some sl \<Rightarrow> sl, ls1)"
      "levels_sorted ls1" "slot_at (chain_levels ch) ?e ?k \<noteq> None \<longrightarrow> slot_at ls1 = slot_at (chain_levels ch)"
    by (rule put_slot [OF ls])
  then have t: "touch ?e ?k (chain_levels ch) = Some (sl, ls1)" "levels_sorted ls1"
      "slot_at ls1 = slot_at (chain_levels ch)"
    using sl by simp_all
  let ?ch' = "ch\<lparr>chain_levels := ls1\<rparr>"
  have r: "chain_add i c ch = Some (False, ?ch')"
    using d(1) sl t(1) chain_ok_filed(2) [OF ok] by (simp add: chain_add_def)
  have f: "chain_find ?ch' = chain_find ch" by (simp add: fun_eq_iff chain_find_slot t(3))
  have g: "filed ?ch' = filed ch" by (auto simp: fun_eq_iff filed_def split: option.splits)
  show ?thesis
    using that [OF r _ f g] ok t(2,3) f g by (simp add: chain_ok_def slots_used_def)
qed

lemma chain_add_new:
  assumes ok: "chain_ok ch" and new: "filed ch i = None" "chain_find ch (expiry c) (strike c) (option_type c) = None"
  obtains ch' where "chain_add i c ch = Some (True, ch')" and "chain_ok ch'"
    and "\<And>e k ty. chain_find ch' e k ty =
      (if e = expiry c \<and> k = strike c \<and> ty = option_type c then Some i else chain_find ch e k ty)"
    and "\<And>j. filed ch' j = (if j = i then Some (expiry c, strike c, option_type c) else filed ch j)"
proof -
  let ?e = "expiry c" and ?k = "strike c" and ?ty = "option_type c"
  define sl where "sl = (case slot_at (chain_levels ch) ?e ?k of None \<Rightarrow> empty_slot | Some sl \<Rightarrow> sl)"
  have ls: "levels_sorted (chain_levels ch)" using ok by (simp add: chain_ok_def)
  obtain ls1 ls2 where t: "touch ?e ?k (chain_levels ch) = Some (sl, ls1)"
      "write_slot ?e ?k (set_slot ?ty (Some i) sl) ls1 = Some ls2" "levels_sorted ls2"
      "\<And>e' k'. slot_at ls2 e' k' = (if e' = ?e \<and> k' = ?k then Some (set_slot ?ty (Some i) sl) else slot_at (chain_levels ch) e' k')"
    using put_slot [OF ls, of ?e ?k "set_slot ?ty (Some i) sl"] unfolding sl_def by metis
  have bi: "um_find (by_id ch) i = None" "um_find (id_to_type ch) i = None"
    using new(1) chain_ok_filed(2) [OF ok] ok by (auto simp: chain_ok_def)
  have nf: "chain_find ch e k ty \<noteq> Some i" for e k ty
    using chain_ok_filed(1) [OF ok, of i e k ty] new(1) by simp
  have so: "slot_of ty sl = chain_find ch ?e ?k ty" for ty
    by (simp add: chain_find_slot sl_def split: option.splits)
  let ?ch' = "ch\<lparr>chain_levels := ls2, by_id := um_emplace i (?e, ?k) (by_id ch), id_to_type := um_emplace i ?ty (id_to_type ch)\<rparr>"
  have r: "chain_add i c ch = Some (True, ?ch')"
    using bi(1) t(1,2) so new(2) by (simp add: chain_add_def)
  have f: "chain_find ?ch' e k ty = (if e = ?e \<and> k = ?k \<and> ty = ?ty then Some i else chain_find ch e k ty)" for e k ty
    using so by (simp add: chain_find_slot [of ?ch'] t(4)) (simp add: chain_find_slot)
  have g: "filed ?ch' j = (if j = i then Some (?e, ?k, ?ty) else filed ch j)" for j
    using filed_emplace [OF bi] by simp
  have "slots_used ls2"
    using ok t(4) slot_unused [of "set_slot ?ty (Some i) sl"] by (auto simp: chain_ok_def slots_used_def split: if_splits)
  moreover have "filed ?ch' j = Some (e, k, ty) \<longleftrightarrow> chain_find ?ch' e k ty = Some j" for j e k ty
    unfolding f g using chain_ok_filed(1) [OF ok] new(2) nf by auto
  ultimately have "chain_ok ?ch'"
    using ok t(3) by (auto simp: chain_ok_def um_find_emplace)
  then show ?thesis using that [OF r] f g by blast
qed

text \<open>Clearing a slot, and the level it empties.\<close>

lemma clear_slot:
  fixes sl' :: strike_slot
  assumes ls: "levels_sorted ls" and sm: "om_find ls e = Some sm" and sl: "om_find sm k = Some sl"
  defines "sm2 \<equiv> (if slot_call sl' = None \<and> slot_put sl' = None then om_erase k (om_assign k sl' sm) else om_assign k sl' sm)"
  defines "ls2 \<equiv> (if sm2 = [] then om_erase e (om_assign e sm2 ls) else om_assign e sm2 ls)"
  shows "levels_sorted ls2"
    and "slot_at ls2 e' k' = (if e' = e \<and> k' = k
      then (if slot_call sl' = None \<and> slot_put sl' = None then None else Some sl') else slot_at ls e' k')"
proof -
  have srt: "sorted_wrt (<) (map fst ls)" and ssm: "sorted_wrt (<) (map fst sm)"
      and inner: "\<And>e sm. om_find ls e = Some sm \<Longrightarrow> sorted_wrt (<) (map fst sm) \<and> sm \<noteq> []"
    using ls sm by (auto simp: levels_sorted_def)
  have s2: "sorted_wrt (<) (map fst sm2)" using ssm by (auto simp: sm2_def intro: sorted_wrt_om_erase)
  have f2: "om_find sm2 k' = (if k' = k then (if slot_call sl' = None \<and> slot_put sl' = None then None else Some sl')
      else om_find sm k')" for k'
    using sl by (simp add: sm2_def om_find_erase om_find_assign)
  have f: "om_find ls2 e' = (if e' = e then (if sm2 = [] then None else Some sm2) else om_find ls e')" for e'
    using sm by (simp add: ls2_def om_find_erase om_find_assign)
  have "sorted_wrt (<) (map fst ls2)" using srt by (auto simp: ls2_def intro: sorted_wrt_om_erase)
  then show "levels_sorted ls2" using inner s2 by (auto simp: levels_sorted_def f split: if_splits)
  show "slot_at ls2 e' k' = (if e' = e \<and> k' = k
      then (if slot_call sl' = None \<and> slot_put sl' = None then None else Some sl') else slot_at ls e' k')"
  proof (cases "e' = e")
    case True
    have "slot_at ls2 e k' = om_find sm2 k'" by (auto simp: slot_at_def f)
    then show ?thesis using True f2 [of k'] sm by (simp add: slot_at_def)
  qed (simp add: slot_at_def f)
qed

lemma chain_remove_some:
  assumes ok: "chain_ok ch" and i: "filed ch i = Some (e, k, ty)"
  obtains ch' where "chain_remove i ch = Some (True, ch')" and "chain_ok ch'"
    and "\<And>e' k' ty'. chain_find ch' e' k' ty' =
      (if e' = e \<and> k' = k \<and> ty' = ty then None else chain_find ch e' k' ty')"
    and "\<And>j. filed ch' j = (if j = i then None else filed ch j)"
proof -
  have ls: "levels_sorted (chain_levels ch)" using ok by (simp add: chain_ok_def)
  have bi: "um_find (by_id ch) i = Some (e, k)" "um_find (id_to_type ch) i = Some ty"
    using i by (auto simp: filed_def split: option.splits)
  have fi: "chain_find ch e k ty = Some i" using chain_ok_filed(1) [OF ok] i by simp
  then obtain sm sl where sm: "om_find (chain_levels ch) e = Some sm" "om_find sm k = Some sl"
    by (auto simp: chain_find_def split: option.splits)
  define sl' where "sl' = set_slot ty None sl"
  let ?u = "slot_call sl' = None \<and> slot_put sl' = None"
  define sm2 where "sm2 = (if ?u then om_erase k (om_assign k sl' sm) else om_assign k sl' sm)"
  define ls2 where "ls2 = (if sm2 = [] then om_erase e (om_assign e sm2 (chain_levels ch)) else om_assign e sm2 (chain_levels ch))"
  note cs = clear_slot [OF ls sm, of sl', folded sm2_def, folded ls2_def]
  let ?ch' = "ch\<lparr>chain_levels := ls2, id_to_type := um_erase i (id_to_type ch), by_id := um_erase i (by_id ch)\<rparr>"
  have r: "chain_remove i ch = Some (True, ?ch')"
    using bi sm by (simp add: chain_remove_def Let_def sl'_def sm2_def ls2_def)
  have f: "chain_find ?ch' e' k' ty' = (if e' = e \<and> k' = k \<and> ty' = ty then None else chain_find ch e' k' ty')" for e' k' ty'
  proof (cases "e' = e \<and> k' = k")
    case True
    have "chain_find ?ch' e k ty' = slot_of ty' sl'"
      using slot_unused [of sl'] by (auto simp: chain_find_slot cs(2))
    moreover have "chain_find ch e k ty' = slot_of ty' sl" using sm by (simp add: chain_find_def)
    ultimately show ?thesis using True by (simp add: sl'_def)
  next
    case False
    then show ?thesis by (auto simp: chain_find_slot cs(2))
  qed
  have g: "filed ?ch' j = (if j = i then None else filed ch j)" for j by (rule filed_erase)
  have uniq: "chain_find ch e' k' ty' = Some i \<Longrightarrow> e' = e \<and> k' = k \<and> ty' = ty" for e' k' ty'
    using chain_ok_filed(1) [OF ok] i by (metis option.inject prod.inject)
  have "slots_used ls2" using ok cs(2) by (auto simp: chain_ok_def slots_used_def split: if_splits)
  moreover have "filed ?ch' j = Some (e', k', ty') \<longleftrightarrow> chain_find ?ch' e' k' ty' = Some j" for j e' k' ty'
  proof (cases "e' = e \<and> k' = k \<and> ty' = ty")
    case True
    then show ?thesis unfolding f g using chain_ok_filed(1) [OF ok, of j e k ty] fi by simp
  next
    case False
    then have "chain_find ch e' k' ty' \<noteq> Some i" using uniq by blast
    with False show ?thesis
      unfolding f g using chain_ok_filed(1) [OF ok, of j e' k' ty'] by (cases "j = i") (simp_all, blast)
  qed
  moreover have "um_ok (by_id ?ch')" "um_ok (id_to_type ?ch')"
      "um_find (by_id ?ch') j = None \<longleftrightarrow> um_find (id_to_type ?ch') j = None" for j
    using ok by (simp_all add: chain_ok_def um_find_erase)
  moreover have "levels_sorted (chain_levels ?ch')" using cs(1) by simp
  ultimately have "chain_ok ?ch'" unfolding chain_ok_def by simp
  then show ?thesis using that [OF r] f g by blast
qed

section \<open>Queries\<close>

lemma ids_of_set:
  "sorted_wrt (<) (map fst sm) \<Longrightarrow> i \<in> set (ids_of sm) \<longleftrightarrow> (\<exists>k sl ty. om_find sm k = Some sl \<and> slot_of ty sl = Some i)"
proof (induction sm)
  case Nil
  then show ?case by (simp add: om_find_def)
next
  case (Cons e sm)
  obtain k sl where e: "e = (k, sl)" by (cases e)
  have nk: "om_find sm k = None"
    using Cons.prems e by (auto simp: om_find_def map_of_eq_None_iff)
  have here: "i \<in> set (case slot_call sl of None \<Rightarrow> [] | Some i \<Rightarrow> [i]) \<union>
      set (case slot_put sl of None \<Rightarrow> [] | Some i \<Rightarrow> [i]) \<longleftrightarrow> (\<exists>ty. slot_of ty sl = Some i)"
    by (auto simp: slot_of_def split: option.splits)
  have "(\<exists>k sl ty. om_find (e # sm) k = Some sl \<and> slot_of ty sl = Some i) \<longleftrightarrow>
      (\<exists>ty. slot_of ty sl = Some i) \<or> (\<exists>k sl ty. om_find sm k = Some sl \<and> slot_of ty sl = Some i)"
    using om_find_Cons_ex [OF nk, of sl "\<lambda>_ sl. \<exists>ty. slot_of ty sl = Some i"] e by simp
  then show ?case using Cons here e by auto
qed

lemma expiring_ids_set:
  "sorted_wrt (<) (map fst ls) \<Longrightarrow>
   i \<in> set (expiring_ids d ls) \<longleftrightarrow> (\<exists>e sm. om_find ls e = Some sm \<and> e \<le> d \<and> i \<in> set (ids_of sm))"
proof (induction ls)
  case Nil
  then show ?case by (simp add: om_find_def)
next
  case (Cons x ls)
  obtain e sm where x: "x = (e, sm)" by (cases x)
  have lt: "e < e'" if "om_find ls e' \<noteq> None" for e'
    using Cons.prems x that by (auto simp: om_find_def map_of_eq_None_iff)
  then have ne: "om_find ls e = None" by (cases "om_find ls e") auto
  have ex: "(\<exists>e' sm'. om_find (x # ls) e' = Some sm' \<and> e' \<le> d \<and> i \<in> set (ids_of sm')) \<longleftrightarrow>
      (e \<le> d \<and> i \<in> set (ids_of sm)) \<or> (\<exists>e' sm'. om_find ls e' = Some sm' \<and> e' \<le> d \<and> i \<in> set (ids_of sm'))"
    using om_find_Cons_ex [OF ne, of sm "\<lambda>e' sm'. e' \<le> d \<and> i \<in> set (ids_of sm')"] x by simp
  show ?case
  proof (cases "d < e")
    case True
    then have "\<not> e' \<le> d" if "om_find ls e' = Some sm'" for e' sm'
      using lt [of e'] that by auto
    then show ?thesis using True x ex by auto
  next
    case False
    then show ?thesis using Cons x ex by (auto simp: not_less)
  qed
qed

text \<open>The ids filed under an expiry date.\<close>

lemma ids_at_level:
  assumes ok: "chain_ok ch" and sm: "om_find (chain_levels ch) e = Some sm"
  shows "i \<in> set (ids_of sm) \<longleftrightarrow> (\<exists>k ty. filed ch i = Some (e, k, ty))"
proof -
  have "sorted_wrt (<) (map fst sm)" using ok sm by (auto simp: chain_ok_def levels_sorted_def)
  moreover have "filed ch i = Some (e, k, ty) \<longleftrightarrow> (\<exists>sl. om_find sm k = Some sl \<and> slot_of ty sl = Some i)" for k ty
    using sm by (simp add: chain_ok_filed(1) [OF ok] chain_find_def split: option.splits)
  ultimately show ?thesis using ids_of_set [of sm i] by blast
qed

lemma filed_level:
  assumes "chain_ok ch" and "filed ch i = Some (e, k, ty)"
  obtains sm where "om_find (chain_levels ch) e = Some sm"
  using assms(2) by (auto simp: chain_ok_filed(1) [OF assms(1)] chain_find_def split: option.splits)

lemma chain_add_sound:
  assumes ok: "chain_ok ch"
  shows "\<exists>added ch'. chain_add i c ch = Some (added, ch') \<and> chain_ok ch'"
proof (cases "filed ch i = None")
  case True
  show ?thesis
    using chain_add_new [OF ok True, of c] chain_add_dup [OF ok True, of c] by metis
next
  case False
  then show ?thesis using chain_ok_filed(2) [OF ok] ok by (auto simp: chain_add_def)
qed

section \<open>What a chain guarantees\<close>

text \<open>
  C12. Adding to a chain. On a sound chain \<open>add\<close> never fails, keeps it sound, and returns true
  exactly when the id is new and the contract's key (expiry, strike, type) is free. Then the
  contract is found under its key and all other lookups are as before; otherwise no lookup changes.
\<close>

theorem chain_add_lookup:
  assumes ok: "chain_ok ch"
  shows "\<exists>added ch'. chain_add i c ch = Some (added, ch') \<and> chain_ok ch' \<and>
    added = (um_find (by_id ch) i = None \<and> chain_find ch (expiry c) (strike c) (option_type c) = None) \<and>
    chain_find ch' = (\<lambda>e k ty. if added \<and> e = expiry c \<and> k = strike c \<and> ty = option_type c
      then Some i else chain_find ch e k ty)"
proof (cases "filed ch i")
  case None
  show ?thesis
  proof (cases "chain_find ch (expiry c) (strike c) (option_type c)")
    case N: None
    show ?thesis
      using chain_ok_filed(2) [OF ok] None N by (rule_tac chain_add_new [OF ok None N]) (auto simp: fun_eq_iff)
  next
    case (Some j)
    then have d: "chain_find ch (expiry c) (strike c) (option_type c) \<noteq> None" by simp
    show ?thesis using Some by (rule_tac chain_add_dup [OF ok None d]) (auto simp: fun_eq_iff)
  qed
next
  case (Some x)
  then have "um_find (by_id ch) i \<noteq> None" using chain_ok_filed(2) [OF ok, of i] by simp
  then show ?thesis using ok by (auto simp: chain_add_def fun_eq_iff)
qed

definition demo_contract :: contract where
  "demo_contract = contract_default\<lparr>underlying := ''AAPL'', strike := 15000, expiry := ExpiryDate 2025 6 20\<rparr>"

theorem chain_add_lookup_witness:
  "\<exists>ch'. chain_add 7 demo_contract (new_chain ''AAPL'') = Some (True, ch') \<and> chain_ok ch' \<and>
     chain_find ch' (ExpiryDate 2025 6 20) 15000 Call = Some 7"
proof -
  have "chain_find (new_chain ''AAPL'') (expiry demo_contract) (strike demo_contract) (option_type demo_contract) = None"
      "um_find (by_id (new_chain ''AAPL'')) 7 = None"
      "expiry demo_contract = ExpiryDate 2025 6 20" "strike demo_contract = 15000" "option_type demo_contract = Call"
    by code_simp+
  then show ?thesis
    using chain_add_lookup [OF new_chain_ok, of 7 demo_contract "''AAPL''"] by auto
qed

text \<open>
  C13. Removing undoes adding. On a sound chain, after a successful \<open>add\<close> a \<open>remove\<close> of the same
  id returns true, leaves a sound chain, and every lookup is again what it was before the \<open>add\<close>.
\<close>

theorem chain_remove_undoes_add:
  assumes ok: "chain_ok ch" and add: "chain_add i c ch = Some (True, ch1)"
  shows "\<exists>ch2. chain_remove i ch1 = Some (True, ch2) \<and> chain_ok ch2 \<and>
    chain_find ch2 = chain_find ch \<and> um_find (by_id ch2) i = None"
proof -
  have "um_find (by_id ch) i = None" using add by (cases "um_find (by_id ch) i = None") (simp_all add: chain_add_def)
  then have n1: "filed ch i = None" using chain_ok_filed(2) [OF ok] by simp
  have n2: "chain_find ch (expiry c) (strike c) (option_type c) = None"
  proof (rule ccontr)
    assume "chain_find ch (expiry c) (strike c) (option_type c) \<noteq> None"
    from chain_add_dup [OF ok n1 this] add show False by auto
  qed
  obtain ch' where r: "chain_add i c ch = Some (True, ch')" "chain_ok ch'"
      "\<And>e k ty. chain_find ch' e k ty =
        (if e = expiry c \<and> k = strike c \<and> ty = option_type c then Some i else chain_find ch e k ty)"
      "\<And>j. filed ch' j = (if j = i then Some (expiry c, strike c, option_type c) else filed ch j)"
    using chain_add_new [OF ok n1 n2] by metis
  then have ch1: "ch1 = ch'" "filed ch' i = Some (expiry c, strike c, option_type c)" using add by auto
  obtain ch2 where s: "chain_remove i ch' = Some (True, ch2)" "chain_ok ch2"
      "\<And>e' k' ty'. chain_find ch2 e' k' ty' = (if e' = expiry c \<and> k' = strike c \<and> ty' = option_type c
         then None else chain_find ch' e' k' ty')"
      "\<And>j. filed ch2 j = (if j = i then None else filed ch' j)"
    using chain_remove_some [OF r(2) ch1(2)] by metis
  have "chain_find ch2 = chain_find ch" using s(3) r(3) n2 by (auto simp: fun_eq_iff)
  moreover have "um_find (by_id ch2) i = None" using s(4) [of i] chain_ok_filed(2) [OF s(2)] by simp
  ultimately show ?thesis using s(1,2) ch1(1) by blast
qed

theorem chain_remove_undoes_add_witness:
  "\<exists>ch1 ch2. chain_add 7 demo_contract (new_chain ''AAPL'') = Some (True, ch1) \<and>
     chain_remove 7 ch1 = Some (True, ch2) \<and> chain_find ch2 = chain_find (new_chain ''AAPL'')"
proof -
  have "map_option fst (chain_add 7 demo_contract (new_chain ''AAPL'')) = Some True" by code_simp
  then obtain ch1 where a: "chain_add 7 demo_contract (new_chain ''AAPL'') = Some (True, ch1)" by auto
  then show ?thesis using chain_remove_undoes_add [OF new_chain_ok a] by blast
qed

text \<open>
  C14. The end-of-day sweep list is exact. On a sound chain, \<open>expiring_on_or_before\<close>, which stops at
  the first later expiry, lists exactly the ids filed under an expiry on or before the date.
\<close>

theorem chain_expiring_exact:
  assumes ok: "chain_ok ch"
  shows "set (expiring_on_or_before ch d) =
    {i. \<exists>e k. um_find (by_id ch) i = Some (e, k) \<and> e \<le> d}"
proof -
  have srt: "sorted_wrt (<) (map fst (chain_levels ch))" using ok by (simp add: chain_ok_def levels_sorted_def)
  have fl: "(\<exists>k. um_find (by_id ch) i = Some (e, k)) \<longleftrightarrow> (\<exists>k ty. filed ch i = Some (e, k, ty))" for i e
  proof -
    have "um_find (by_id ch) i = None \<longleftrightarrow> um_find (id_to_type ch) i = None" using ok by (simp add: chain_ok_def)
    then show ?thesis by (auto simp: filed_def split: option.splits)
  qed
  have "i \<in> set (expiring_on_or_before ch d) \<longleftrightarrow> (\<exists>e k ty. filed ch i = Some (e, k, ty) \<and> e \<le> d)" for i
    unfolding expiring_on_or_before_def expiring_ids_set [OF srt]
    using ids_at_level [OF ok] filed_level [OF ok] by metis
  then show ?thesis using fl by blast
qed

theorem chain_expiring_exact_witness:
  "\<exists>ch1. chain_add 7 demo_contract (new_chain ''AAPL'') = Some (True, ch1) \<and>
     set (expiring_on_or_before ch1 (ExpiryDate 2025 6 20)) = {7}"
proof -
  have "map_option (\<lambda>(b, ch). (b, by_id ch)) (chain_add 7 demo_contract (new_chain ''AAPL'')) =
      Some (True, [(7, (ExpiryDate 2025 6 20, 15000))])" by code_simp
  then obtain ch1 where a: "chain_add 7 demo_contract (new_chain ''AAPL'') = Some (True, ch1)"
      and b: "by_id ch1 = [(7, (ExpiryDate 2025 6 20, 15000))]" by auto
  have "chain_ok ch1"
    using chain_add_sound [OF new_chain_ok, of 7 demo_contract "''AAPL''"] a by auto
  then show ?thesis
    using chain_expiring_exact [of ch1 "ExpiryDate 2025 6 20"] a b by (auto simp: um_find_def)
qed

end
