(* ===== verification/Registry.thy ===== *)
theory Registry
  imports Chain
begin

text \<open>
  \<open>include/ordbk/instruments/instrument_registry.hpp\<close>, \<open>instrument_spec.hpp\<close> and
  \<open>src/instruments/instrument_registry.cpp\<close>: the table of instruments, looked up by id and by symbol,
  with one option chain per underlying. It is filled, then frozen. \<open>add\<close> throws before it
  changes anything; the exception is the left summand.
\<close>

datatype instrument_type = Equity | Future | Option

record instrument_spec =
  spec_id :: u32
  symbol :: string
  spec_type :: instrument_type
  tick_size :: i64
  lot_size :: u64
  currency :: string
  spec_option :: "contract option"

record registry =
  instruments :: "instrument_spec list"
  id_map :: "(u32 \<times> nat) list"
  sym_map :: "(string \<times> nat) list"
  chains :: "(string \<times> chain) list"
  frozen :: bool

datatype registry_error = FrozenError | DuplicateId | DuplicateSymbol

definition new_registry :: registry where
  "new_registry = \<lparr>instruments = [], id_map = [], sym_map = [], chains = [], frozen = False\<rparr>"

section \<open>Operations\<close>

text \<open>The chain index of an option instrument; the result of \<open>Chain::add\<close> is dropped.\<close>

definition index_option :: "instrument_spec \<Rightarrow> (string \<times> chain) list \<Rightarrow> (string \<times> chain) list option" where
  "index_option spec chs =
     (case spec_option spec of
        Some c \<Rightarrow>
          if spec_type spec = Option then
            (let chs1 = (if um_find chs (underlying c) = None
                         then um_emplace (underlying c) (new_chain (underlying c)) chs else chs) in do {
               ch \<leftarrow> um_find chs1 (underlying c);
               (added, ch') \<leftarrow> chain_add (spec_id spec) c ch;
               Some (um_assign (underlying c) ch' chs1)
             })
          else Some chs
      | None \<Rightarrow> Some chs)"

definition registry_add :: "instrument_spec \<Rightarrow> registry \<Rightarrow> (registry_error + registry) option" where
  "registry_add spec r =
     (if frozen r then Some (Inl FrozenError)
      else if um_find (id_map r) (spec_id spec) \<noteq> None then Some (Inl DuplicateId)
      else if um_find (sym_map r) (symbol spec) \<noteq> None then Some (Inl DuplicateSymbol)
      else do {
        chs \<leftarrow> index_option spec (chains r);
        let idx = length (instruments r);
        Some (Inr (r\<lparr>chains := chs, id_map := um_emplace (spec_id spec) idx (id_map r),
          sym_map := um_emplace (symbol spec) idx (sym_map r),
          instruments := instruments r @ [spec]\<rparr>))
      })"

definition registry_freeze :: "registry \<Rightarrow> registry" where
  "registry_freeze r = r\<lparr>frozen := True\<rparr>"

definition find_by_id :: "registry \<Rightarrow> u32 \<Rightarrow> instrument_spec option" where
  "find_by_id r i =
     (case um_find (id_map r) i of None \<Rightarrow> None | Some idx \<Rightarrow> deref (instruments r) idx)"

definition find_by_symbol :: "registry \<Rightarrow> string \<Rightarrow> instrument_spec option" where
  "find_by_symbol r s =
     (case um_find (sym_map r) s of None \<Rightarrow> None | Some idx \<Rightarrow> deref (instruments r) idx)"

definition option_chain :: "registry \<Rightarrow> string \<Rightarrow> chain option" where
  "option_chain r u = um_find (chains r) u"

definition option_underlyings :: "registry \<Rightarrow> string list" where
  "option_underlyings r = map fst (chains r)"

definition registry_size :: "registry \<Rightarrow> nat" where
  "registry_size r = length (instruments r)"

section \<open>The invariant\<close>

text \<open>A hash index over a vector: each key maps to the position of the element that has it.\<close>

definition indexes :: "('k \<times> nat) list \<Rightarrow> ('a \<Rightarrow> 'k) \<Rightarrow> 'a list \<Rightarrow> bool" where
  "indexes m f xs \<longleftrightarrow> um_ok m \<and> (\<forall>k idx. um_find m k = Some idx \<longleftrightarrow> idx < length xs \<and> f (xs ! idx) = k)"

lemma indexes_Nil: "indexes [] f []"
  by (simp add: indexes_def)

lemma indexes_find: "indexes m f xs \<Longrightarrow> um_find m k = Some idx \<longleftrightarrow> idx < length xs \<and> f (xs ! idx) = k"
  by (simp add: indexes_def)

lemma indexes_none: "indexes m f xs \<Longrightarrow> um_find m k = None \<longleftrightarrow> k \<notin> f ` set xs"
proof -
  assume ix: "indexes m f xs"
  have "um_find m k \<noteq> None \<longleftrightarrow> (\<exists>idx < length xs. f (xs ! idx) = k)"
    using indexes_find [OF ix, of k] by auto
  moreover have "(\<exists>idx < length xs. f (xs ! idx) = k) \<longleftrightarrow> k \<in> f ` set xs"
    by (metis image_iff in_set_conv_nth)
  ultimately show ?thesis by blast
qed

lemma indexes_lookup:
  assumes ix: "indexes m f xs"
  shows "(case um_find m k of None \<Rightarrow> None | Some idx \<Rightarrow> deref xs idx) = Some x \<longleftrightarrow> x \<in> set xs \<and> f x = k"
proof
  assume "(case um_find m k of None \<Rightarrow> None | Some idx \<Rightarrow> deref xs idx) = Some x"
  then obtain idx where "um_find m k = Some idx" "deref xs idx = Some x" by (auto split: option.splits)
  then show "x \<in> set xs \<and> f x = k" using indexes_find [OF ix, of k idx] by (auto simp: deref_eq_Some)
next
  assume "x \<in> set xs \<and> f x = k"
  then obtain j where "j < length xs" "xs ! j = x" "f x = k" by (auto simp: in_set_conv_nth)
  then show "(case um_find m k of None \<Rightarrow> None | Some idx \<Rightarrow> deref xs idx) = Some x"
    using indexes_find [OF ix, of k j] by simp
qed

lemma indexes_push:
  assumes ix: "indexes m f xs" and n: "um_find m (f x) = None"
  shows "indexes (um_emplace (f x) (length xs) m) f (xs @ [x])"
proof -
  have nf: "f (xs ! idx) \<noteq> f x" if "idx < length xs" for idx
    using that n indexes_none [OF ix, of "f x"] by (metis imageI nth_mem)
  have "um_find (um_emplace (f x) (length xs) m) k = Some idx \<longleftrightarrow>
      idx < length (xs @ [x]) \<and> f ((xs @ [x]) ! idx) = k" for k idx
    using indexes_find [OF ix, of k idx] n nf [of idx]
    by (auto simp: um_find_emplace nth_append less_Suc_eq)
  then show ?thesis using ix by (simp add: indexes_def)
qed

lemma indexes_distinct: "indexes m f xs \<Longrightarrow> distinct (map f xs)"
  unfolding distinct_conv_nth indexes_def by simp (metis option.inject)

definition registry_ok :: "registry \<Rightarrow> bool" where
  "registry_ok r \<longleftrightarrow> indexes (id_map r) spec_id (instruments r) \<and> indexes (sym_map r) symbol (instruments r) \<and>
     um_ok (chains r) \<and> (\<forall>u ch. um_find (chains r) u = Some ch \<longrightarrow> chain_ok ch)"

lemma new_registry_ok: "registry_ok new_registry"
  by (simp add: registry_ok_def new_registry_def indexes_Nil)

text \<open>Looking up is searching the table; ids and symbols in the table are unique.\<close>

lemma find_by_id_iff: "registry_ok r \<Longrightarrow> find_by_id r i = Some sp \<longleftrightarrow> sp \<in> set (instruments r) \<and> spec_id sp = i"
  unfolding find_by_id_def registry_ok_def by (rule indexes_lookup) simp

lemma find_by_symbol_iff: "registry_ok r \<Longrightarrow> find_by_symbol r s = Some sp \<longleftrightarrow> sp \<in> set (instruments r) \<and> symbol sp = s"
  unfolding find_by_symbol_def registry_ok_def by (rule indexes_lookup) simp

lemma distinct_spec_ids: "registry_ok r \<Longrightarrow> distinct (map spec_id (instruments r))"
  unfolding registry_ok_def using indexes_distinct by blast

lemma index_option_ok:
  assumes ok: "\<forall>u ch. um_find chs u = Some ch \<longrightarrow> chain_ok ch" and um: "um_ok chs"
  shows "\<exists>chs'. index_option spec chs = Some chs' \<and> um_ok chs' \<and> (\<forall>u ch. um_find chs' u = Some ch \<longrightarrow> chain_ok ch)"
proof (cases "\<exists>c. spec_option spec = Some c \<and> spec_type spec = Option")
  case False
  then show ?thesis using assms by (auto simp: index_option_def split: option.splits)
next
  case True
  then obtain c where c: "spec_option spec = Some c" "spec_type spec = Option" by blast
  define chs1 where "chs1 = (if um_find chs (underlying c) = None
    then um_emplace (underlying c) (new_chain (underlying c)) chs else chs)"
  have ok1: "um_ok chs1" "um_find chs1 u = Some ch \<Longrightarrow> chain_ok ch" for u ch
    using ok um new_chain_ok by (auto simp: chs1_def um_find_emplace split: if_splits)
  obtain ch where ch: "um_find chs1 (underlying c) = Some ch"
    by (cases "um_find chs (underlying c)") (auto simp: chs1_def um_find_emplace)
  obtain added ch' where a: "chain_add (spec_id spec) c ch = Some (added, ch')" "chain_ok ch'"
    using chain_add_sound [OF ok1(2) [OF ch]] by blast
  have "index_option spec chs = Some (um_assign (underlying c) ch' chs1)"
    using c ch a(1) by (simp add: index_option_def chs1_def [symmetric])
  then show ?thesis using ok1 a(2) by (auto simp: um_find_assign split: if_splits)
qed

lemma registry_add_new:
  assumes ok: "registry_ok r" and nf: "\<not> frozen r"
    and n: "um_find (id_map r) (spec_id spec) = None" "um_find (sym_map r) (symbol spec) = None"
  obtains r' where "registry_add spec r = Some (Inr r')" and "registry_ok r'"
    and "instruments r' = instruments r @ [spec]" and "frozen r' = frozen r"
    and "index_option spec (chains r) = Some (chains r')"
proof -
  obtain chs where c: "index_option spec (chains r) = Some chs" "um_ok chs" "\<forall>u ch. um_find chs u = Some ch \<longrightarrow> chain_ok ch"
    using index_option_ok [of "chains r" spec] ok by (auto simp: registry_ok_def)
  let ?r' = "r\<lparr>chains := chs, id_map := um_emplace (spec_id spec) (length (instruments r)) (id_map r),
    sym_map := um_emplace (symbol spec) (length (instruments r)) (sym_map r), instruments := instruments r @ [spec]\<rparr>"
  have "registry_ok ?r'"
    unfolding registry_ok_def using c(2,3) ok n by (simp add: registry_ok_def indexes_push)
  moreover have "registry_add spec r = Some (Inr ?r')" using nf n c(1) by (simp add: registry_add_def Let_def)
  ultimately show ?thesis using that [of ?r'] c(1) by simp
qed

section \<open>What the registry guarantees\<close>

text \<open>
  C15. Registering an instrument. On a sound registry \<open>add\<close> throws exactly when the registry is
  frozen, the id is taken or the symbol is taken, in that order of precedence; otherwise the
  registry stays sound, the new instrument is found under its id and its symbol, and every
  earlier instrument is found as before.
\<close>

theorem registry_add_find:
  assumes ok: "registry_ok r"
  shows "\<exists>res. registry_add spec r = Some res \<and>
    (case res of
       Inl FrozenError \<Rightarrow> frozen r
     | Inl DuplicateId \<Rightarrow> \<not> frozen r \<and> find_by_id r (spec_id spec) \<noteq> None
     | Inl DuplicateSymbol \<Rightarrow> \<not> frozen r \<and> find_by_id r (spec_id spec) = None \<and> find_by_symbol r (symbol spec) \<noteq> None
     | Inr r' \<Rightarrow> \<not> frozen r \<and> registry_ok r' \<and>
         find_by_id r' = (find_by_id r)(spec_id spec \<mapsto> spec) \<and>
         find_by_symbol r' = (find_by_symbol r)(symbol spec \<mapsto> spec))"
proof -
  have i: "find_by_id r (spec_id spec) = None \<longleftrightarrow> um_find (id_map r) (spec_id spec) = None"
    using ok indexes_find [of "id_map r" spec_id "instruments r"]
    by (auto simp: find_by_id_def registry_ok_def split: option.splits)
  have s: "find_by_symbol r (symbol spec) = None \<longleftrightarrow> um_find (sym_map r) (symbol spec) = None"
    using ok indexes_find [of "sym_map r" symbol "instruments r"]
    by (auto simp: find_by_symbol_def registry_ok_def split: option.splits)
  show ?thesis
  proof (cases "\<not> frozen r \<and> um_find (id_map r) (spec_id spec) = None \<and> um_find (sym_map r) (symbol spec) = None")
    case False
    then show ?thesis using i s by (auto simp: registry_add_def)
  next
    case True
    obtain r' where r: "registry_add spec r = Some (Inr r')" "registry_ok r'" "instruments r' = instruments r @ [spec]"
      using registry_add_new [OF ok, of spec] True by metis
    have "find_by_id r' j = ((find_by_id r)(spec_id spec \<mapsto> spec)) j" for j
    proof (rule option_ext)
      show "find_by_id r' j = Some sp \<longleftrightarrow> ((find_by_id r)(spec_id spec \<mapsto> spec)) j = Some sp" for sp
        using find_by_id_iff [OF r(2), of j sp] find_by_id_iff [OF ok, of j sp] find_by_id_iff [OF ok, of "spec_id spec" sp] i True r(3)
        by auto
    qed
    moreover have "find_by_symbol r' j = ((find_by_symbol r)(symbol spec \<mapsto> spec)) j" for j
    proof (rule option_ext)
      show "find_by_symbol r' j = Some sp \<longleftrightarrow> ((find_by_symbol r)(symbol spec \<mapsto> spec)) j = Some sp" for sp
        using find_by_symbol_iff [OF r(2), of j sp] find_by_symbol_iff [OF ok, of j sp]
          find_by_symbol_iff [OF ok, of "symbol spec" sp] s True r(3)
        by auto
    qed
    ultimately show ?thesis using r True by (auto simp: fun_eq_iff)
  qed
qed

definition demo_spec :: instrument_spec where
  "demo_spec = \<lparr>spec_id = 1, symbol = ''AAPL'', spec_type = Equity, tick_size = 1, lot_size = 1,
     currency = ''USD'', spec_option = None\<rparr>"

theorem registry_add_find_witness:
  "\<exists>r'. registry_add demo_spec new_registry = Some (Inr r') \<and> registry_ok r' \<and> find_by_id r' 1 = Some demo_spec"
proof -
  have "\<exists>r'. registry_add demo_spec new_registry = Some (Inr r')"
    by (simp add: registry_add_def new_registry_def demo_spec_def index_option_def)
  then obtain r' where "registry_add demo_spec new_registry = Some (Inr r')" by blast
  then show ?thesis using registry_add_find [OF new_registry_ok, of demo_spec] by (auto simp: demo_spec_def)
qed

text \<open>
  C16. A second instrument for the same contract is accepted without a trace in the chain. If the
  chain of the underlying already has an instrument under the contract's expiry, strike and type,
  \<open>add\<close> succeeds (its result ignores that \<open>Chain::add\<close> returned false), the instrument is found by
  id, but every lookup in the chain is as before.
\<close>

theorem registry_duplicate_contract_unindexed:
  assumes ok: "registry_ok r" and nf: "\<not> frozen r"
    and new: "find_by_id r (spec_id spec) = None" "find_by_symbol r (symbol spec) = None"
    and c: "spec_type spec = Option" "spec_option spec = Some c"
    and ch: "option_chain r (underlying c) = Some ch"
      "chain_find ch (expiry c) (strike c) (option_type c) = Some j"
  shows "\<exists>r' ch'. registry_add spec r = Some (Inr r') \<and> find_by_id r' (spec_id spec) = Some spec \<and>
    option_chain r' (underlying c) = Some ch' \<and> chain_find ch' = chain_find ch"
proof -
  have n: "um_find (id_map r) (spec_id spec) = None" "um_find (sym_map r) (symbol spec) = None"
    using new ok indexes_find [of "id_map r" spec_id "instruments r"] indexes_find [of "sym_map r" symbol "instruments r"]
    by (auto simp: find_by_id_def find_by_symbol_def registry_ok_def split: option.splits)
  obtain r' where r: "registry_add spec r = Some (Inr r')" "registry_ok r'" "instruments r' = instruments r @ [spec]"
      "index_option spec (chains r) = Some (chains r')"
    using registry_add_new [OF ok nf n] by metis
  have cok: "chain_ok ch" and u: "um_find (chains r) (underlying c) = Some ch"
    using ok ch(1) by (auto simp: registry_ok_def option_chain_def)
  obtain ch' where a: "chain_add (spec_id spec) c ch = Some (False, ch')" "chain_find ch' = chain_find ch"
  proof (cases "filed ch (spec_id spec) = None")
    case True
    then show ?thesis using chain_add_dup [OF cok True, of c] ch(2) that by auto
  next
    case False
    then show ?thesis using that [of ch] chain_ok_filed(2) [OF cok] by (simp add: chain_add_def)
  qed
  have "chains r' = um_assign (underlying c) ch' (chains r)"
    using r(4) c u a(1) by (simp add: index_option_def)
  then have "option_chain r' (underlying c) = Some ch'" using u by (simp add: option_chain_def um_find_assign)
  moreover have "find_by_id r' (spec_id spec) = Some spec" using find_by_id_iff [OF r(2)] r(3) by simp
  ultimately show ?thesis using r(1) a(2) by blast
qed

definition demo_option :: "u32 \<Rightarrow> string \<Rightarrow> instrument_spec" where
  "demo_option i s = demo_spec\<lparr>spec_id := i, symbol := s, spec_type := Option, spec_option := Some demo_contract\<rparr>"

theorem registry_duplicate_contract_unindexed_witness:
  "\<exists>r r' ch'. registry_add (demo_option 1 ''A'') new_registry = Some (Inr r) \<and>
     registry_add (demo_option 2 ''B'') r = Some (Inr r') \<and>
     find_by_id r' 2 = Some (demo_option 2 ''B'') \<and> option_chain r' ''AAPL'' = Some ch' \<and>
     chain_find ch' (ExpiryDate 2025 6 20) 15000 Call = Some 1"
proof -
  obtain r where r: "registry_add (demo_option 1 ''A'') new_registry = Some (Inr r)" "registry_ok r" "frozen r = frozen new_registry"
    using registry_add_new [OF new_registry_ok, of "demo_option 1 ''A''"]
    by (auto simp: new_registry_def)
  have "map_option (case_sum (\<lambda>_. None) (\<lambda>r. Some (find_by_id r 2 = None, find_by_symbol r ''B'' = None,
      map_option (\<lambda>ch. chain_find ch (ExpiryDate 2025 6 20) 15000 Call) (option_chain r ''AAPL''))))
      (registry_add (demo_option 1 ''A'') new_registry) = Some (Some (True, True, Some (Some 1)))"
    by code_simp
  then have n: "find_by_id r 2 = None" "find_by_symbol r ''B'' = None" and
      "\<exists>ch. option_chain r ''AAPL'' = Some ch \<and> chain_find ch (ExpiryDate 2025 6 20) 15000 Call = Some 1"
    using r(1) by auto
  then obtain ch where ch: "option_chain r ''AAPL'' = Some ch" "chain_find ch (ExpiryDate 2025 6 20) 15000 Call = Some 1"
    by blast
  have d: "underlying demo_contract = ''AAPL''" "expiry demo_contract = ExpiryDate 2025 6 20"
      "strike demo_contract = 15000" "option_type demo_contract = Call"
    by (simp_all add: demo_contract_def contract_default_def)
  obtain r' ch' where "registry_add (demo_option 2 ''B'') r = Some (Inr r')"
      "find_by_id r' (spec_id (demo_option 2 ''B'')) = Some (demo_option 2 ''B'')"
      "option_chain r' (underlying demo_contract) = Some ch'" "chain_find ch' = chain_find ch"
    using registry_duplicate_contract_unindexed [of r "demo_option 2 ''B''" demo_contract ch 1] r(2,3) n ch d
    by (auto simp: demo_option_def new_registry_def)
  then show ?thesis using r(1) ch d by (auto simp: demo_option_def)
qed

end
