(* ===== verification/Price_Level.thy ===== *)
theory Price_Level
  imports Core_Types
begin

text \<open>
  \<open>PriceLevel\<close> of \<open>include/ordbk/orderbook/orderbook.hpp\<close>: the intrusive doubly-linked list of the
  orders at one price. The links live in the orders themselves, so every operation takes and
  returns the heap. The abstraction is the list of the pointers from head to tail; the
  locale \<open>intrusive_list\<close> is the contract the order book relies on.
\<close>

record price_level =
  level_head :: "ptr option"
  level_tail :: "ptr option"

section \<open>Operations\<close>

definition empty_level :: price_level where
  "empty_level = \<lparr>level_head = None, level_tail = None\<rparr>"

definition level_is_empty :: "price_level \<Rightarrow> bool" where
  "level_is_empty l \<longleftrightarrow> level_head l = None"

definition level_front :: "price_level \<Rightarrow> ptr option" where
  "level_front l = level_head l"

definition push_back :: "heap \<Rightarrow> price_level \<Rightarrow> ptr \<Rightarrow> (heap \<times> price_level) option" where
  "push_back h l p =
     do {
       h1 \<leftarrow> modify_at h p (\<lambda>x. x\<lparr>level_prev := level_tail l, level_next := None\<rparr>);
       case level_tail l of
         Some t \<Rightarrow> do {
           h2 \<leftarrow> modify_at h1 t (\<lambda>x. x\<lparr>level_next := Some p\<rparr>);
           Some (h2, l\<lparr>level_tail := Some p\<rparr>)
         }
       | None \<Rightarrow> Some (h1, l\<lparr>level_head := Some p, level_tail := Some p\<rparr>)
     }"

definition pop_front :: "heap \<Rightarrow> price_level \<Rightarrow> (heap \<times> price_level) option" where
  "pop_front h l =
     do {
       p \<leftarrow> level_head l;
       x \<leftarrow> deref h p;
       (h1, l1) \<leftarrow> (case level_next x of
           Some q \<Rightarrow> do {
             h1 \<leftarrow> modify_at h q (\<lambda>y. y\<lparr>level_prev := None\<rparr>);
             Some (h1, l\<lparr>level_head := Some q\<rparr>)
           }
         | None \<Rightarrow> Some (h, l\<lparr>level_head := None, level_tail := None\<rparr>));
       h2 \<leftarrow> modify_at h1 p (\<lambda>y. y\<lparr>level_prev := None, level_next := None\<rparr>);
       Some (h2, l1)
     }"

definition level_erase :: "heap \<Rightarrow> price_level \<Rightarrow> ptr \<Rightarrow> (heap \<times> price_level) option" where
  "level_erase h l p =
     do {
       x \<leftarrow> deref h p;
       (h1, l1) \<leftarrow> (case level_prev x of
           Some a \<Rightarrow> do {
             h1 \<leftarrow> modify_at h a (\<lambda>y. y\<lparr>level_next := level_next x\<rparr>);
             Some (h1, l)
           }
         | None \<Rightarrow> Some (h, l\<lparr>level_head := level_next x\<rparr>));
       x1 \<leftarrow> deref h1 p;
       (h2, l2) \<leftarrow> (case level_next x1 of
           Some b \<Rightarrow> do {
             h2 \<leftarrow> modify_at h1 b (\<lambda>y. y\<lparr>level_prev := level_prev x1\<rparr>);
             Some (h2, l1)
           }
         | None \<Rightarrow> Some (h1, l1\<lparr>level_tail := level_prev x1\<rparr>));
       h3 \<leftarrow> modify_at h2 p (\<lambda>y. y\<lparr>level_prev := None, level_next := None\<rparr>);
       Some (h3, l2)
     }"

text \<open>
  The range-based loop \<open>for (Order* o : list) body\<close>, on the struct's own iterator: the body
  runs first, then \<open>operator++\<close> reads \<open>level_next\<close> of the current order from the heap the
  body left behind. \<open>hp\<close> reads the heap out of the loop state.
\<close>

partial_function (option) level_for ::
  "('s \<Rightarrow> heap) \<Rightarrow> (ptr \<Rightarrow> 's \<Rightarrow> 's option) \<Rightarrow> ptr option \<Rightarrow> 's \<Rightarrow> 's option" where
  "level_for hp body cur s =
     (case cur of
        None \<Rightarrow> Some s
      | Some p \<Rightarrow> do {
          s' \<leftarrow> body p s;
          x \<leftarrow> deref (hp s') p;
          level_for hp body (level_next x) s'
        })"

declare level_for.simps [code]

lemma level_for_None [simp]: "level_for hp body None s = Some s"
  by (simp add: level_for.simps)

lemma level_for_Some:
  "level_for hp body (Some p) s =
     do { s' \<leftarrow> body p s; x \<leftarrow> deref (hp s') p; level_for hp body (level_next x) s' }"
  by (subst level_for.simps) simp

section \<open>Chains of links\<close>

definition opt_hd :: "ptr list \<Rightarrow> ptr option \<Rightarrow> ptr option" where
  "opt_hd ps d = (case ps of [] \<Rightarrow> d | p # _ \<Rightarrow> Some p)"

definition opt_last :: "ptr list \<Rightarrow> ptr option \<Rightarrow> ptr option" where
  "opt_last ps d = (if ps = [] then d else Some (last ps))"

lemma opt_hd_simps [simp]:
  "opt_hd [] d = d" "opt_hd (p # ps) d = Some p"
  by (simp_all add: opt_hd_def)

lemma opt_hd_append [simp]: "opt_hd (xs @ ys) d = opt_hd xs (opt_hd ys d)"
  by (cases xs) simp_all

lemma opt_last_simps [simp]:
  "opt_last [] d = d" "opt_last (p # ps) d = opt_last ps (Some p)"
  "opt_last (xs @ [p]) d = Some p"
  by (simp_all add: opt_last_def)

lemma opt_last_append [simp]: "opt_last (xs @ ys) d = opt_last ys (opt_last xs d)"
  by (simp add: opt_last_def)

lemma opt_hd_eq_None [simp]: "opt_hd ps None = None \<longleftrightarrow> ps = []"
  by (cases ps) simp_all

text \<open>
  \<open>chain h pv ps nx\<close>: the orders \<open>ps\<close> are linked in this order, \<open>pv\<close> before the first and
  \<open>nx\<close> after the last.
\<close>

fun chain :: "heap \<Rightarrow> ptr option \<Rightarrow> ptr list \<Rightarrow> ptr option \<Rightarrow> bool" where
  "chain h pv [] nx = True"
| "chain h pv (p # ps) nx =
     (p < length h \<and> level_prev (h ! p) = pv \<and> level_next (h ! p) = opt_hd ps nx \<and>
      chain h (Some p) ps nx)"

lemma chain_append:
  "chain h pv (xs @ ys) nx \<longleftrightarrow> chain h pv xs (opt_hd ys nx) \<and> chain h (opt_last xs pv) ys nx"
  by (induction xs arbitrary: pv) auto

lemma chain_range: "chain h pv ps nx \<Longrightarrow> set ps \<subseteq> {..<length h}"
  by (induction ps arbitrary: pv) auto

lemma chain_cong:
  assumes "length h' = length h"
    and "\<And>p. p \<in> set ps \<Longrightarrow> level_prev (h' ! p) = level_prev (h ! p) \<and>
      level_next (h' ! p) = level_next (h ! p)"
  shows "chain h' pv ps nx = chain h pv ps nx"
  using assms(2) by (induction ps arbitrary: pv) (auto simp: assms(1))

lemma chain_update_notin [simp]: "p \<notin> set ps \<Longrightarrow> chain (h[p := x]) pv ps nx = chain h pv ps nx"
  by (rule chain_cong) (auto, (metis nth_list_update_neq)+)

text \<open>Redirecting the pointer after the last, or before the first, order of a chain.\<close>

definition opt_update :: "heap \<Rightarrow> ptr option \<Rightarrow> (order \<Rightarrow> order) \<Rightarrow> heap" where
  "opt_update h q f = (case q of None \<Rightarrow> h | Some a \<Rightarrow> h[a := f (h ! a)])"

lemma opt_update_simps [simp]:
  "opt_update h None f = h" "opt_update h (Some a) f = h[a := f (h ! a)]"
  "length (opt_update h q f) = length h"
  by (simp_all add: opt_update_def split: option.splits)

lemma chain_set_next:
  assumes "chain h pv xs nx" and "distinct xs"
  shows "chain (opt_update h (opt_last xs None) (\<lambda>x. x\<lparr>level_next := nx'\<rparr>)) pv xs nx'"
proof (cases xs rule: rev_cases)
  case (snoc ys a)
  with assms show ?thesis by (auto simp: chain_append)
qed simp

lemma chain_set_prev:
  assumes "chain h pv ys nx" and "distinct ys"
  shows "chain (opt_update h (opt_hd ys None) (\<lambda>x. x\<lparr>level_prev := pv'\<rparr>)) pv' ys nx"
  using assms by (cases ys) auto

lemma chain_opt_update_notin:
  "\<forall>a. q = Some a \<longrightarrow> a \<notin> set ps \<Longrightarrow> chain (opt_update h q f) pv ps nx = chain h pv ps nx"
  by (cases q) auto

lemma opt_last_in: "opt_last xs None = Some a \<Longrightarrow> a \<in> set xs"
  by (auto simp: opt_last_def split: if_splits)

lemma opt_hd_in: "opt_hd xs None = Some a \<Longrightarrow> a \<in> set xs"
  by (cases xs) auto

section \<open>The representation relation\<close>

definition level_rep :: "heap \<Rightarrow> price_level \<Rightarrow> ptr list \<Rightarrow> bool" where
  "level_rep h l ps \<longleftrightarrow> distinct ps \<and> chain h None ps None \<and>
     level_head l = opt_hd ps None \<and> level_tail l = opt_last ps None"

text \<open>Only links change: the heap without the links of its orders.\<close>

abbreviation cores :: "heap \<Rightarrow> order list" where
  "cores h \<equiv> map core h"

lemma cores_update: "core x = core (h ! p) \<Longrightarrow> cores (h[p := x]) = cores h"
  by (cases "p < length h") (simp_all add: map_update list_update_same_conv list_update_beyond)

lemma cores_nth: "cores h' = cores h \<Longrightarrow> p < length h \<Longrightarrow> core (h' ! p) = core (h ! p)"
  by (metis length_map nth_map)

lemma cores_length: "cores h' = cores h \<Longrightarrow> length h' = length h"
  by (rule map_eq_imp_length_eq)

lemma level_rep_empty [simp]: "level_rep h empty_level []"
  by (simp add: level_rep_def empty_level_def)

lemma level_rep_range: "level_rep h l ps \<Longrightarrow> set ps \<subseteq> {..<length h}"
  by (auto simp: level_rep_def dest: chain_range)

lemma level_rep_cong:
  assumes "level_rep h l ps" and "length h' = length h"
    and "\<And>p. p \<in> set ps \<Longrightarrow> level_prev (h' ! p) = level_prev (h ! p) \<and>
      level_next (h' ! p) = level_next (h ! p)"
  shows "level_rep h' l ps"
  using assms chain_cong [of h' h ps None None] by (simp add: level_rep_def)

lemma level_rep_push_back:
  assumes "level_rep h l ps" and "p < length h" and "p \<notin> set ps"
  obtains h' l' where "push_back h l p = Some (h', l')" and "level_rep h' l' (ps @ [p])"
    and "cores h' = cores h" and "same_outside (set (p # ps)) h h'"
proof (cases ps rule: rev_cases)
  case Nil
  define h' where "h' = h[p := (h ! p)\<lparr>level_prev := None, level_next := None\<rparr>]"
  define l' where "l' = \<lparr>level_head = Some p, level_tail = Some p\<rparr>"
  have "push_back h l p = Some (h', l')"
    using assms Nil by (simp add: push_back_def level_rep_def h'_def l'_def)
  moreover have "level_rep h' l' (ps @ [p])"
    using assms Nil by (simp add: level_rep_def h'_def l'_def)
  moreover have "cores h' = cores h" by (simp add: h'_def cores_update)
  moreover have "same_outside (set (p # ps)) h h'"
    unfolding h'_def by (rule same_outside_update) simp
  ultimately show ?thesis by (rule that)
next
  case (snoc xs t)
  have t: "t < length h" "t \<noteq> p" "t \<notin> set xs" "p \<notin> set xs"
    using assms snoc by (auto simp: level_rep_def chain_append)
  define h1 where "h1 = h[p := (h ! p)\<lparr>level_prev := Some t, level_next := None\<rparr>]"
  define h' where "h' = h1[t := (h1 ! t)\<lparr>level_next := Some p\<rparr>]"
  define l' where "l' = l\<lparr>level_tail := Some p\<rparr>"
  have ch: "chain h1 None (xs @ [t]) None"
    using assms snoc t by (simp add: level_rep_def h1_def)
  have "push_back h l p = Some (h', l')"
    using assms snoc t by (simp add: push_back_def level_rep_def h'_def l'_def h1_def)
  moreover have "level_rep h' l' (ps @ [p])"
    using assms snoc t chain_set_next [OF ch, of "Some p"]
    by (auto simp: level_rep_def chain_append h'_def l'_def h1_def)
  moreover have "cores h' = cores h" by (simp add: h'_def h1_def cores_update)
  moreover have "same_outside (set (p # ps)) h h'"
    unfolding h'_def h1_def using snoc
    by (intro same_outside_trans_same [OF same_outside_update same_outside_update]) auto
  ultimately show ?thesis by (rule that)
qed

lemma level_rep_pop_front:
  assumes "level_rep h l (p # ps)"
  obtains h' l' where "pop_front h l = Some (h', l')" and "level_rep h' l' ps"
    and "cores h' = cores h" and "same_outside (set (p # ps)) h h'"
proof (cases ps)
  case Nil
  define h' where "h' = h[p := (h ! p)\<lparr>level_prev := None, level_next := None\<rparr>]"
  define l' where "l' = l\<lparr>level_head := None, level_tail := None\<rparr>"
  have "pop_front h l = Some (h', l')"
    using assms Nil by (simp add: pop_front_def level_rep_def h'_def l'_def)
  moreover have "level_rep h' l' ps"
    using assms Nil by (simp add: level_rep_def h'_def l'_def)
  moreover have "cores h' = cores h" by (simp add: h'_def cores_update)
  moreover have "same_outside (set (p # ps)) h h'"
    unfolding h'_def by (rule same_outside_update) simp
  ultimately show ?thesis by (rule that)
next
  case (Cons q qs)
  have q: "p < length h" "q < length h" "p \<noteq> q" "q \<notin> set qs" "p \<notin> set qs"
    using assms Cons by (auto simp: level_rep_def)
  define h1 where "h1 = h[q := (h ! q)\<lparr>level_prev := None\<rparr>]"
  define h' where "h' = h1[p := (h1 ! p)\<lparr>level_prev := None, level_next := None\<rparr>]"
  define l' where "l' = l\<lparr>level_head := Some q\<rparr>"
  have "pop_front h l = Some (h', l')"
    using assms Cons q by (simp add: pop_front_def level_rep_def h'_def l'_def h1_def)
  moreover have "level_rep h' l' ps"
    using assms Cons q by (auto simp: level_rep_def h'_def l'_def h1_def)
  moreover have "cores h' = cores h" by (simp add: h'_def h1_def cores_update)
  moreover have "same_outside (set (p # ps)) h h'"
    unfolding h'_def h1_def using Cons
    by (intro same_outside_trans_same [OF same_outside_update same_outside_update]) auto
  ultimately show ?thesis by (rule that)
qed

lemma cores_opt_update:
  "(\<And>x. core (f x) = core x) \<Longrightarrow> cores (opt_update h q f) = cores h"
  by (cases q) (simp_all add: cores_update)

lemma same_outside_opt_update:
  "\<forall>a. q = Some a \<longrightarrow> a \<in> S \<Longrightarrow> same_outside S h (opt_update h q f)"
  by (cases q) (auto intro: frame_intros)

lemma level_erase_eval:
  assumes "p < length h" and "level_prev (h ! p) = a" and "level_next (h ! p) = b"
    and "\<And>q. a = Some q \<Longrightarrow> q < length h \<and> q \<noteq> p" and "\<And>q. b = Some q \<Longrightarrow> q < length h"
    and "h2 = opt_update (opt_update h a (\<lambda>x. x\<lparr>level_next := b\<rparr>)) b (\<lambda>x. x\<lparr>level_prev := a\<rparr>)"
  shows "level_erase h l p = Some (h2[p := (h2 ! p)\<lparr>level_prev := None, level_next := None\<rparr>],
    \<lparr>level_head = (if a = None then b else level_head l),
     level_tail = (if b = None then a else level_tail l)\<rparr>)"
proof (cases a)
  case None
  then show ?thesis
    using assms by (cases b) (simp_all add: level_erase_def)
next
  case (Some q)
  then have "q < length h" "q \<noteq> p" using assms(4) by auto
  then show ?thesis
    using assms(1-3,5,6) Some by (cases b) (simp_all add: level_erase_def)
qed

lemma level_rep_erase:
  assumes rep: "level_rep h l (xs @ p # ys)"
  obtains h' l' where "level_erase h l p = Some (h', l')" and "level_rep h' l' (xs @ ys)"
    and "cores h' = cores h" and "same_outside (set (xs @ p # ys)) h h'"
proof -
  let ?a = "opt_last xs None" and ?b = "opt_hd ys None"
  have d: "distinct xs" "distinct ys" "p \<notin> set xs" "p \<notin> set ys" "set xs \<inter> set ys = {}"
    and c: "chain h None xs (Some p)" "p < length h" "level_prev (h ! p) = ?a"
      "level_next (h ! p) = ?b" "chain h (Some p) ys None"
    and l: "level_head l = opt_hd xs (Some p)" "level_tail l = opt_last ys (Some p)"
    using rep by (auto simp: level_rep_def chain_append)
  have a_in: "\<And>q. ?a = Some q \<Longrightarrow> q \<in> set xs \<and> q < length h"
    and b_in: "\<And>q. ?b = Some q \<Longrightarrow> q \<in> set ys \<and> q < length h"
    using chain_range [OF c(1)] chain_range [OF c(5)] by (auto dest: opt_last_in opt_hd_in)
  have a_out: "\<forall>q. ?a = Some q \<longrightarrow> q \<notin> set ys" and b_out: "\<forall>q. ?b = Some q \<longrightarrow> q \<notin> set xs"
    using a_in b_in d(5) by blast+
  define h1 where "h1 = opt_update h ?a (\<lambda>x. x\<lparr>level_next := ?b\<rparr>)"
  define h2 where "h2 = opt_update h1 ?b (\<lambda>x. x\<lparr>level_prev := ?a\<rparr>)"
  define h' where "h' = h2[p := (h2 ! p)\<lparr>level_prev := None, level_next := None\<rparr>]"
  define l' where "l' = \<lparr>level_head = opt_hd (xs @ ys) None, level_tail = opt_last (xs @ ys) None\<rparr>"
  have "l' = \<lparr>level_head = (if ?a = None then ?b else level_head l),
     level_tail = (if ?b = None then ?a else level_tail l)\<rparr>"
    using l by (cases xs; cases ys) (simp_all add: l'_def opt_last_def)
  moreover have "\<And>q. ?a = Some q \<Longrightarrow> q < length h \<and> q \<noteq> p" using a_in d(3) by blast
  ultimately have "level_erase h l p = Some (h', l')"
    unfolding h'_def
    using level_erase_eval [OF c(2,3,4), of h2 l] b_in unfolding h2_def h1_def by simp
  moreover have "chain h1 None xs ?b" "chain h1 (Some p) ys None"
    unfolding h1_def using chain_set_next [OF c(1) d(1)] c(5) a_out
    by (simp_all add: chain_opt_update_notin)
  then have "chain h2 None xs ?b" "chain h2 ?a ys None"
    unfolding h2_def using chain_set_prev [of h1 "Some p" ys None ?a] d(2) b_out
    by (simp_all add: chain_opt_update_notin)
  then have "level_rep h' l' (xs @ ys)"
    using d by (auto simp: level_rep_def l'_def h'_def chain_append)
  moreover have "cores h' = cores h"
    by (simp add: h'_def h2_def h1_def cores_update cores_opt_update)
  moreover have "same_outside (set (xs @ p # ys)) h h'"
    unfolding h'_def h2_def h1_def using a_in b_in
    by (intro same_outside_trans_same [OF _ same_outside_update]
        same_outside_trans_same [OF same_outside_opt_update same_outside_opt_update]) auto
  ultimately show ?thesis by (rule that)
qed

section \<open>The contract of a price level\<close>

text \<open>
  What the order book relies on: \<open>rep h l ps\<close> says that in heap \<open>h\<close> the level \<open>l\<close> holds the
  orders \<open>ps\<close> in arrival order. No operation changes anything but links, and only in the
  orders of the level and the order it is called with.
\<close>

locale intrusive_list =
  fixes rep :: "heap \<Rightarrow> 'l \<Rightarrow> ptr list \<Rightarrow> bool"
    and emp :: 'l
    and is_emp :: "'l \<Rightarrow> bool"
    and front :: "'l \<Rightarrow> ptr option"
    and push :: "heap \<Rightarrow> 'l \<Rightarrow> ptr \<Rightarrow> (heap \<times> 'l) option"
    and pop :: "heap \<Rightarrow> 'l \<Rightarrow> (heap \<times> 'l) option"
    and del :: "heap \<Rightarrow> 'l \<Rightarrow> ptr \<Rightarrow> (heap \<times> 'l) option"
  assumes emp_rep: "rep h emp []"
    and rep_distinct: "rep h l ps \<Longrightarrow> distinct ps"
    and rep_range: "rep h l ps \<Longrightarrow> set ps \<subseteq> {..<length h}"
    and is_emp_rep: "rep h l ps \<Longrightarrow> is_emp l \<longleftrightarrow> ps = []"
    and front_rep: "rep h l ps \<Longrightarrow> front l = opt_hd ps None"
    and push_rep: "rep h l ps \<Longrightarrow> p < length h \<Longrightarrow> p \<notin> set ps \<Longrightarrow>
      \<exists>h' l'. push h l p = Some (h', l') \<and> rep h' l' (ps @ [p]) \<and> cores h' = cores h \<and>
        same_outside (set (p # ps)) h h'"
    and pop_rep: "rep h l (p # ps) \<Longrightarrow>
      \<exists>h' l'. pop h l = Some (h', l') \<and> rep h' l' ps \<and> cores h' = cores h \<and>
        same_outside (set (p # ps)) h h'"
    and del_rep: "rep h l (xs @ p # ys) \<Longrightarrow>
      \<exists>h' l'. del h l p = Some (h', l') \<and> rep h' l' (xs @ ys) \<and> cores h' = cores h \<and>
        same_outside (set (xs @ p # ys)) h h'"
    and links_rep: "rep h l ps \<Longrightarrow> length h' = length h \<Longrightarrow>
      (\<And>p. p \<in> set ps \<Longrightarrow> level_prev (h' ! p) = level_prev (h ! p) \<and>
        level_next (h' ! p) = level_next (h ! p)) \<Longrightarrow> rep h' l ps"
begin

text \<open>A level untouched by a change elsewhere still holds its orders.\<close>

lemma outside_rep:
  assumes "rep h l ps" and "same_outside S h h'" and "set ps \<inter> S = {}"
  shows "rep h' l ps"
proof (rule links_rep [OF assms(1)])
  show "length h' = length h" using assms(2) by (rule same_outside_length)
  fix p assume "p \<in> set ps"
  then have "h' ! p = h ! p"
    using assms rep_range [OF assms(1)] by (auto simp: same_outside_def)
  then show "level_prev (h' ! p) = level_prev (h ! p) \<and> level_next (h' ! p) = level_next (h ! p)"
    by simp
qed

text \<open>Appending orders one by one: the level is a queue in arrival order.\<close>

lemma push_all_rep:
  assumes "rep h l ps" and "distinct (ps @ qs)" and "set qs \<subseteq> {..<length h}"
  shows "\<exists>h' l'. foldl (\<lambda>r q. Option.bind r (\<lambda>(h, l). push h l q)) (Some (h, l)) qs = Some (h', l') \<and>
    rep h' l' (ps @ qs) \<and> cores h' = cores h"
  using assms
proof (induction qs arbitrary: h l ps)
  case Nil
  then show ?case by simp
next
  case (Cons q qs)
  then obtain h1 l1 where 1: "push h l q = Some (h1, l1)" "rep h1 l1 (ps @ [q])"
      "cores h1 = cores h"
    using push_rep [of h l ps q] by auto
  have "\<exists>h' l'. foldl (\<lambda>r q. Option.bind r (\<lambda>(h, l). push h l q)) (Some (h1, l1)) qs =
      Some (h', l') \<and> rep h' l' ((ps @ [q]) @ qs) \<and> cores h' = cores h1"
    using Cons.prems 1 cores_length [OF 1(3)] by (intro Cons.IH) auto
  with 1 show ?case by simp
qed

text \<open>Two representations of one level in one heap agree on the first order.\<close>

lemma front_unique: "rep h l ps \<Longrightarrow> rep h l qs \<Longrightarrow> opt_hd ps None = opt_hd qs None"
  using front_rep by metis

end

interpretation lvl: intrusive_list level_rep empty_level level_is_empty level_front
  push_back pop_front level_erase
proof (unfold_locales, goal_cases)
  case (6 h l ps p)
  then show ?case by (metis level_rep_push_back)
next
  case (7 h l p ps)
  then show ?case by (metis level_rep_pop_front)
next
  case (8 h l xs p ys)
  then show ?case by (metis level_rep_erase)
next
  case (9 h l ps h')
  then show ?case by (rule level_rep_cong) blast+
qed (auto simp: level_rep_def level_is_empty_def level_front_def empty_level_def dest: chain_range)

section \<open>Walking a level\<close>

text \<open>
  The pointers a level holds, read off the heap. The slab bounds the number of orders on a
  list, so the length of the heap is enough fuel for the walk.
\<close>

fun walk :: "nat \<Rightarrow> heap \<Rightarrow> ptr option \<Rightarrow> ptr list" where
  "walk (Suc n) h (Some p) = (if p < length h then p # walk n h (level_next (h ! p)) else [])"
| "walk _ _ _ = []"

definition level_ptrs :: "heap \<Rightarrow> price_level \<Rightarrow> ptr list" where
  "level_ptrs h l = walk (length h) h (level_head l)"

lemma walk_None [simp]: "walk n h None = []"
  by (cases n) auto

lemma walk_chain: "chain h pv ps None \<Longrightarrow> length ps \<le> n \<Longrightarrow> walk n h (opt_hd ps None) = ps"
proof (induction ps arbitrary: pv n)
  case (Cons p ps)
  then show ?case by (cases n) auto
qed simp

lemma level_ptrs_rep: "level_rep h l ps \<Longrightarrow> level_ptrs h l = ps"
  using distinct_bounded_length [of ps "length h"]
  by (auto simp: level_ptrs_def level_rep_def chain_range intro: walk_chain)

text \<open>A loop whose body only reads the heap is a fold over the pointers of the level.\<close>

lemma level_for_fold:
  assumes "chain h pv ps None" and "hp s = h"
    and "\<And>p s. p \<in> set ps \<Longrightarrow> hp s = h \<Longrightarrow> body p s = Some (f p s) \<and> hp (f p s) = h"
  shows "level_for hp body (opt_hd ps None) s = Some (fold f ps s)"
  using assms
proof (induction ps arbitrary: pv s)
  case (Cons p ps)
  then have b: "body p s = Some (f p s)" "hp (f p s) = h" by auto
  have "level_for hp body (opt_hd ps None) (f p s) = Some (fold f ps (f p s))"
    using Cons.prems b by (intro Cons.IH [of "Some p"]) auto
  with Cons.prems(1) b show ?case by (simp add: level_for_Some)
qed simp

end
