(* ===== verification/Pool.thy ===== *)
theory Pool
  imports Core_Types
begin

text \<open>
  \<open>include/ordbk/utils/pool.hpp\<close>: the fixed slab of orders and its stack of free slots. An
  \<open>Order*\<close> is the index of its slot, so the slab is the heap of the whole development.
  The mutex makes each operation atomic; the operations below are its critical sections.
\<close>

record pool =
  storage :: heap
  free_slots :: "u32 list"
  stack_top :: u32

text \<open>The constructor, with its assertion (a failed assertion aborts).\<close>

definition pool_init :: "nat \<Rightarrow> pool option" where
  "pool_init capacity =
     (if 0 < capacity \<and> capacity \<le> 0xFFFFFFFE
      then Some \<lparr>storage = replicate capacity order_default,
                 free_slots = map of_nat [0..<capacity],
                 stack_top = of_nat capacity\<rparr>
      else None)"

definition pool_acquire :: "pool \<Rightarrow> (ptr option \<times> pool) option" where
  "pool_acquire p =
     (if stack_top p = 0 then Some (None, p)
      else let top = stack_top p - 1 in do {
        idx \<leftarrow> deref (free_slots p) (unat top);
        st \<leftarrow> modify_at (storage p) (unat idx) (\<lambda>_. order_default);
        Some (Some (unat idx), p\<lparr>storage := st, stack_top := top\<rparr>)
      })"

definition pool_release :: "pool \<Rightarrow> ptr \<Rightarrow> pool option" where
  "pool_release p ord =
     do {
       fs \<leftarrow> modify_at (free_slots p) (unat (stack_top p)) (\<lambda>_. of_nat ord);
       Some (p\<lparr>free_slots := fs, stack_top := stack_top p + 1\<rparr>)
     }"

definition pool_acquire_or_abort :: "pool \<Rightarrow> (ptr \<times> pool) option" where
  "pool_acquire_or_abort p =
     do {
       (slot, p') \<leftarrow> pool_acquire p;
       case slot of None \<Rightarrow> None | Some x \<Rightarrow> Some (x, p')
     }"

definition pool_capacity :: "pool \<Rightarrow> nat" where
  "pool_capacity p = length (storage p)"

definition available_approx :: "pool \<Rightarrow> nat" where
  "available_approx p = unat (stack_top p)"

section \<open>The allocator interface\<close>

text \<open>
  What the clients of the pool rely on. \<open>free\<close> is the stack of free slots, bottom
  first; a slot handed out is the top of the stack and leaves it.
\<close>

locale slot_allocator =
  fixes acq :: "'p \<Rightarrow> (ptr option \<times> 'p) option"
    and rel :: "'p \<Rightarrow> ptr \<Rightarrow> 'p option"
    and free :: "'p \<Rightarrow> ptr list"
    and cap :: "'p \<Rightarrow> nat"
    and ok :: "'p \<Rightarrow> bool"
  assumes acq_none: "ok p \<Longrightarrow> free p = [] \<Longrightarrow> acq p = Some (None, p)"
    and acq_some: "ok p \<Longrightarrow> free p \<noteq> [] \<Longrightarrow>
      \<exists>p'. acq p = Some (Some (last (free p)), p') \<and> ok p' \<and>
        free p' = butlast (free p) \<and> cap p' = cap p"
    and rel_some: "ok p \<Longrightarrow> i < cap p \<Longrightarrow> i \<notin> set (free p) \<Longrightarrow>
      \<exists>p'. rel p i = Some p' \<and> ok p' \<and> free p' = free p @ [i] \<and> cap p' = cap p"
    and free_distinct: "ok p \<Longrightarrow> distinct (free p)"
    and free_in_range: "ok p \<Longrightarrow> set (free p) \<subseteq> {..<cap p}"
begin

lemma acq_fresh:
  assumes "ok p" and "acq p = Some (Some i, p')"
  shows "i \<in> set (free p)" and "i < cap p" and "i \<notin> set (free p')"
    and "ok p'" and "cap p' = cap p" and "set (free p') = set (free p) - {i}"
proof -
  have ne: "free p \<noteq> []" using acq_none assms by fastforce
  obtain q where q: "acq p = Some (Some (last (free p)), q)" "ok q"
      "free q = butlast (free p)" "cap q = cap p"
    using acq_some [OF assms(1) ne] by blast
  then have i: "i = last (free p)" and qp: "q = p'" using assms by auto
  have d: "distinct (butlast (free p) @ [last (free p)])"
    using free_distinct [OF assms(1)] ne by simp
  show "i \<in> set (free p)" using i ne by simp
  then show "i < cap p" using free_in_range [OF assms(1)] by auto
  show "i \<notin> set (free p')" using q i qp d by simp
  show "ok p'" "cap p' = cap p" using q qp by auto
  have "set (free p) = insert (last (free p)) (set (butlast (free p)))"
    by (metis append_butlast_last_id list.simps(15) ne rotate1.simps(2) set_rotate1)
  then show "set (free p') = set (free p) - {i}" using q i qp d by auto
qed

text \<open>The allocator is a stack: the slot released last is handed out first.\<close>

lemma rel_then_acq:
  assumes "ok p" and "i < cap p" and "i \<notin> set (free p)"
  obtains p' p'' where "rel p i = Some p'" and "acq p' = Some (Some i, p'')"
    and "free p'' = free p" and "ok p''"
proof -
  obtain p' where p': "rel p i = Some p'" "ok p'" "free p' = free p @ [i]"
    using rel_some assms by blast
  then obtain p'' where "acq p' = Some (Some i, p'')" "free p'' = free p" "ok p''"
    using acq_some [of p'] by auto
  then show ?thesis using that p'(1) by blast
qed

text \<open>Handing back a list of distinct slots that are in use never overflows the stack.\<close>

lemma rel_all:
  assumes "ok p" and "distinct is" and "set is \<subseteq> {..<cap p}" and "set is \<inter> set (free p) = {}"
  shows "\<exists>p'. foldl (\<lambda>r i. Option.bind r (\<lambda>q. rel q i)) (Some p) is = Some p' \<and> ok p' \<and>
    free p' = free p @ is \<and> cap p' = cap p"
  using assms
proof (induction "is" arbitrary: p)
  case Nil
  then show ?case by simp
next
  case (Cons i js)
  then obtain q where q: "rel p i = Some q" "ok q" "free q = free p @ [i]" "cap q = cap p"
    using rel_some [of p i] by auto
  have "\<exists>p'. foldl (\<lambda>r i. Option.bind r (\<lambda>q. rel q i)) (Some q) js = Some p' \<and> ok p' \<and>
    free p' = free q @ js \<and> cap p' = cap q"
    using Cons.prems q by (intro Cons.IH) auto
  then show ?case using q by auto
qed

end

section \<open>The pool satisfies it\<close>

definition free_list :: "pool \<Rightarrow> ptr list" where
  "free_list p = map unat (take (unat (stack_top p)) (free_slots p))"

definition pool_ok :: "pool \<Rightarrow> bool" where
  "pool_ok p \<longleftrightarrow> length (free_slots p) = length (storage p) \<and>
     length (storage p) \<le> 0xFFFFFFFE \<and> unat (stack_top p) \<le> length (storage p) \<and>
     distinct (free_list p) \<and> set (free_list p) \<subseteq> {..<length (storage p)}"

lemma length_free_list: "pool_ok p \<Longrightarrow> length (free_list p) = unat (stack_top p)"
  by (simp add: pool_ok_def free_list_def)

lemma free_list_storage [simp]: "free_list (p\<lparr>storage := h\<rparr>) = free_list p"
  by (simp add: free_list_def)

lemma pool_ok_storage: "length h = length (storage p) \<Longrightarrow> pool_ok (p\<lparr>storage := h\<rparr>) = pool_ok p"
  by (simp add: pool_ok_def)

lemma unat_of_nat_small32: "n < 2 ^ 32 \<Longrightarrow> unat (of_nat n :: u32) = n"
  by (simp add: unsigned_of_nat take_bit_nat_eq_self)

lemma pool_init_ok:
  assumes "pool_init n = Some p"
  shows "pool_ok p" and "free_list p = [0..<n]" and "length (storage p) = n"
proof -
  have n: "0 < n" "n \<le> 0xFFFFFFFE"
    and p: "p = \<lparr>storage = replicate n order_default, free_slots = map of_nat [0..<n],
      stack_top = of_nat n\<rparr>"
    using assms by (auto simp: pool_init_def split: if_splits)
  have top: "unat (stack_top p) = n"
    using n p by (simp add: unat_of_nat_small32)
  have "map (unat \<circ> (of_nat :: nat \<Rightarrow> u32)) [0..<n] = [0..<n]"
    using n by (intro map_idI) (auto simp: unat_of_nat_small32)
  then show fl: "free_list p = [0..<n]"
    using top p by (simp add: free_list_def)
  show "length (storage p) = n" using p by simp
  show "pool_ok p"
    using fl top n p by (auto simp: pool_ok_def)
qed

lemma pool_acquire_none: "pool_ok p \<Longrightarrow> free_list p = [] \<Longrightarrow> pool_acquire p = Some (None, p)"
  using length_free_list [of p] by (simp add: pool_acquire_def unat_eq_0)

lemma pool_acquire_some:
  assumes ok: "pool_ok p" and ne: "free_list p \<noteq> []"
  obtains p' where "pool_acquire p = Some (Some (last (free_list p)), p')" and "pool_ok p'"
    and "free_list p' = butlast (free_list p)"
    and "storage p' = (storage p)[last (free_list p) := order_default]"
proof -
  let ?n = "unat (stack_top p)" and ?top = "stack_top p - 1"
  have len: "length (free_list p) = ?n" using ok by (rule length_free_list)
  then have n0: "?n \<noteq> 0" using ne by (metis length_0_conv)
  then have pos: "stack_top p \<noteq> 0" "0 < ?n" by (metis unat_0, linarith)
  have top: "unat ?top = ?n - 1" using pos by (simp add: unat_minus_one)
  have bound: "?n \<le> length (free_slots p)" using ok by (simp add: pool_ok_def)
  then have lt: "unat ?top < length (free_slots p)" using top pos by linarith
  have last: "last (free_list p) = unat (free_slots p ! unat ?top)"
    using ne len bound pos top by (simp add: last_conv_nth free_list_def)
  have in_rng: "last (free_list p) < length (storage p)"
    using ok last_in_set [OF ne] by (auto simp: pool_ok_def)
  define p' where "p' = p\<lparr>storage := (storage p)[last (free_list p) := order_default],
    stack_top := ?top\<rparr>"
  have acq: "pool_acquire p = Some (Some (last (free_list p)), p')"
    using pos lt in_rng last by (simp add: pool_acquire_def p'_def Let_def)
  have fl: "free_list p' = butlast (free_list p)"
    using top bound by (simp add: p'_def free_list_def map_butlast [symmetric] butlast_take)
  have "pool_ok p'"
    using ok top pos fl by (auto simp: pool_ok_def p'_def distinct_butlast dest: in_set_butlastD)
  with acq fl show ?thesis using that by (simp add: p'_def)
qed

lemma pool_release_some:
  assumes ok: "pool_ok p" and i: "i < length (storage p)" "i \<notin> set (free_list p)"
  obtains p' where "pool_release p i = Some p'" and "pool_ok p'"
    and "free_list p' = free_list p @ [i]" and "storage p' = storage p"
proof -
  let ?n = "unat (stack_top p)"
  have len: "length (free_list p) = ?n" using ok by (rule length_free_list)
  have "length (free_list p @ [i]) \<le> length (storage p)"
    using ok i by (intro distinct_bounded_length) (auto simp: pool_ok_def)
  then have lt: "?n < length (free_slots p)" "?n < length (storage p)"
    using ok len by (auto simp: pool_ok_def)
  have small: "length (storage p) \<le> 0xFFFFFFFE" using ok by (simp add: pool_ok_def)
  then have top: "unat (stack_top p + 1) = Suc ?n"
    using lt by (simp add: unat_word_ariths)
  define p' where "p' = p\<lparr>free_slots := (free_slots p)[?n := of_nat i], stack_top := stack_top p + 1\<rparr>"
  have rel: "pool_release p i = Some p'"
    using lt by (simp add: pool_release_def p'_def)
  have "unat (of_nat i :: u32) = i" using i small by (intro unat_of_nat_small32) simp
  then have fl: "free_list p' = free_list p @ [i]"
    using lt top by (simp add: p'_def free_list_def take_Suc_conv_app_nth)
  have "pool_ok p'"
    using ok i lt top fl by (auto simp: pool_ok_def p'_def)
  with rel fl show ?thesis using that by (simp add: p'_def)
qed

interpretation slab: slot_allocator pool_acquire pool_release free_list pool_capacity pool_ok
proof (unfold_locales, goal_cases)
  case (1 p)
  then show ?case by (rule pool_acquire_none)
next
  case (2 p)
  then obtain p' where "pool_acquire p = Some (Some (last (free_list p)), p')" "pool_ok p'"
      "free_list p' = butlast (free_list p)"
      "storage p' = (storage p)[last (free_list p) := order_default]"
    by (rule pool_acquire_some)
  then show ?case by (auto simp: pool_capacity_def)
next
  case (3 p i)
  then obtain p' where "pool_release p i = Some p'" "pool_ok p'"
      "free_list p' = free_list p @ [i]" "storage p' = storage p"
    by (auto simp: pool_capacity_def elim: pool_release_some)
  then show ?case by (auto simp: pool_capacity_def)
next
  case (4 p)
  then show ?case by (simp add: pool_ok_def)
next
  case (5 p)
  then show ?case by (simp add: pool_ok_def pool_capacity_def)
qed

end
