(* ===== verification/Order_Book.thy ===== *)
theory Order_Book
  imports Containers Price_Level Pool
begin

text \<open>
  \<open>OrderBook\<close> of \<open>include/ordbk/orderbook/orderbook.hpp\<close> and \<open>src/orderbook/orderbook.cpp\<close>: two
  ladders of price levels, bids sorted by \<open>std::greater\<close> and asks by \<open>std::less\<close>, and the
  hash index from order ids to locators. The code of the two sides is the same up to the
  comparison; the statements the two branches share are the functions \<open>rest_at\<close>,
  \<open>unlink_at\<close>, \<open>pop_best\<close> and \<open>qty_at\<close>.
\<close>

type_synonym levels = "(i64 \<times> price_level) list"

record locator =
  loc_side :: side
  loc_price :: i64
  loc_order :: ptr

record order_book =
  book_instrument :: u32
  bids :: levels
  asks :: levels
  order_map :: "(u64 \<times> locator) list"

definition new_book :: "u32 \<Rightarrow> order_book" where
  "new_book i = \<lparr>book_instrument = i, bids = [], asks = [], order_map = []\<rparr>"

section \<open>Operations\<close>

subsection \<open>Resting and removing orders\<close>

text \<open>\<open>auto& list = levels[price]; list.push_back(order);\<close>\<close>

definition rest_at ::
  "(i64 \<Rightarrow> i64 \<Rightarrow> bool) \<Rightarrow> heap \<Rightarrow> levels \<Rightarrow> i64 \<Rightarrow> ptr \<Rightarrow> (heap \<times> levels) option" where
  "rest_at lt h ls k p =
     (let ls1 = om_subscript lt empty_level k ls in do {
        l \<leftarrow> om_find ls1 k;
        (h', l') \<leftarrow> push_back h l p;
        Some (h', om_assign k l' ls1)
      })"

definition add_resting :: "heap \<Rightarrow> order_book \<Rightarrow> ptr \<Rightarrow> (heap \<times> order_book) option" where
  "add_resting h b p =
     do {
       x \<leftarrow> deref h p;
       if side x = Buy then do {
         (h', ls) \<leftarrow> rest_at (>) h (bids b) (limit_price x) p;
         Some (h', b\<lparr>bids := ls,
           order_map := um_emplace (order_id x)
             \<lparr>loc_side = Buy, loc_price = limit_price x, loc_order = p\<rparr> (order_map b)\<rparr>)
       }
       else do {
         (h', ls) \<leftarrow> rest_at (<) h (asks b) (limit_price x) p;
         Some (h', b\<lparr>asks := ls,
           order_map := um_emplace (order_id x)
             \<lparr>loc_side = Sell, loc_price = limit_price x, loc_order = p\<rparr> (order_map b)\<rparr>)
       }
     }"

text \<open>Find the level, erase the order from it, and erase the level if it became empty.\<close>

definition unlink_at :: "heap \<Rightarrow> levels \<Rightarrow> i64 \<Rightarrow> ptr \<Rightarrow> (heap \<times> levels) option" where
  "unlink_at h ls k p =
     do {
       l \<leftarrow> om_find ls k;
       (h', l') \<leftarrow> level_erase h l p;
       Some (h', if level_is_empty l' then om_erase k ls else om_assign k l' ls)
     }"

definition cancel_and_get ::
  "heap \<Rightarrow> order_book \<Rightarrow> u64 \<Rightarrow> (ptr option \<times> heap \<times> order_book) option" where
  "cancel_and_get h b i =
     (case um_find (order_map b) i of
        None \<Rightarrow> Some (None, h, b)
      | Some loc \<Rightarrow>
          let b1 = b\<lparr>order_map := um_erase i (order_map b)\<rparr> in
          if loc_side loc = Buy then do {
            (h', ls) \<leftarrow> unlink_at h (bids b1) (loc_price loc) (loc_order loc);
            Some (Some (loc_order loc), h', b1\<lparr>bids := ls\<rparr>)
          }
          else do {
            (h', ls) \<leftarrow> unlink_at h (asks b1) (loc_price loc) (loc_order loc);
            Some (Some (loc_order loc), h', b1\<lparr>asks := ls\<rparr>)
          })"

definition book_cancel :: "heap \<Rightarrow> order_book \<Rightarrow> u64 \<Rightarrow> (bool \<times> heap \<times> order_book) option" where
  "book_cancel h b i =
     do {
       (r, h', b') \<leftarrow> cancel_and_get h b i;
       Some (r \<noteq> None, h', b')
     }"

subsection \<open>Queries\<close>

definition book_find :: "order_book \<Rightarrow> u64 \<Rightarrow> ptr option" where
  "book_find b i = (case um_find (order_map b) i of None \<Rightarrow> None | Some loc \<Rightarrow> Some (loc_order loc))"

definition best_bid :: "order_book \<Rightarrow> i64 option" where
  "best_bid b = (case bids b of [] \<Rightarrow> None | (k, l) # _ \<Rightarrow> Some k)"

definition best_ask :: "order_book \<Rightarrow> i64 option" where
  "best_ask b = (case asks b of [] \<Rightarrow> None | (k, l) # _ \<Rightarrow> Some k)"

definition qty_at :: "heap \<Rightarrow> levels \<Rightarrow> i64 \<Rightarrow> u64 option" where
  "qty_at h ls k =
     (case om_find ls k of
        None \<Rightarrow> Some kZeroQty
      | Some l \<Rightarrow>
          map_option snd (level_for fst
            (\<lambda>p (h, total). do { x \<leftarrow> deref h p; Some (h, total + remaining x) })
            (level_head l) (h, kZeroQty)))"

definition bid_qty_at :: "heap \<Rightarrow> order_book \<Rightarrow> i64 \<Rightarrow> u64 option" where
  "bid_qty_at h b k = qty_at h (bids b) k"

definition ask_qty_at :: "heap \<Rightarrow> order_book \<Rightarrow> i64 \<Rightarrow> u64 option" where
  "ask_qty_at h b k = qty_at h (asks b) k"

definition order_count :: "order_book \<Rightarrow> nat" where
  "order_count b = length (order_map b)"

definition book_empty :: "order_book \<Rightarrow> bool" where
  "book_empty b \<longleftrightarrow> order_map b = []"

subsection \<open>The top of a side\<close>

definition top_of :: "levels \<Rightarrow> ptr option" where
  "top_of ls = (case ls of [] \<Rightarrow> None | (k, l) # _ \<Rightarrow> level_front l)"

definition peek_top :: "order_book \<Rightarrow> side \<Rightarrow> ptr option" where
  "peek_top b s = (if s = Buy then top_of (bids b) else top_of (asks b))"

text \<open>
  The statements of one branch of \<open>pop_top\<close>; the id of the order at the front is the key
  the caller erases from the index. An empty ladder is dereferencing \<open>begin()\<close> of an empty
  map.
\<close>

definition pop_best :: "heap \<Rightarrow> levels \<Rightarrow> (u64 \<times> heap \<times> levels) option" where
  "pop_best h ls =
     (case ls of
        [] \<Rightarrow> None
      | (k, l) # rest \<Rightarrow> do {
          p \<leftarrow> level_front l;
          x \<leftarrow> deref h p;
          (h', l') \<leftarrow> pop_front h l;
          Some (order_id x, h', if level_is_empty l' then rest else (k, l') # rest)
        })"

definition pop_top :: "heap \<Rightarrow> order_book \<Rightarrow> side \<Rightarrow> (heap \<times> order_book) option" where
  "pop_top h b s =
     (if s = Buy then do {
        (i, h', ls) \<leftarrow> pop_best h (bids b);
        Some (h', b\<lparr>bids := ls, order_map := um_erase i (order_map b)\<rparr>)
      }
      else do {
        (i, h', ls) \<leftarrow> pop_best h (asks b);
        Some (h', b\<lparr>asks := ls, order_map := um_erase i (order_map b)\<rparr>)
      })"

subsection \<open>Draining the book\<close>

text \<open>
  \<open>clear_and_drain\<close>. The callback works on the pool (it releases the order there), so the
  loop state is the pool, whose slab is the heap the iterator reads.
\<close>

fun drain_levels :: "(ptr \<Rightarrow> pool \<Rightarrow> pool option) \<Rightarrow> levels \<Rightarrow> pool \<Rightarrow> pool option" where
  "drain_levels callback [] pl = Some pl"
| "drain_levels callback ((k, l) # ls) pl =
     do {
       pl' \<leftarrow> level_for storage
         (\<lambda>p pl. do {
            st \<leftarrow> modify_at (storage pl) p (\<lambda>x. x\<lparr>level_prev := None, level_next := None\<rparr>);
            callback p (pl\<lparr>storage := st\<rparr>)
          })
         (level_head l) pl;
       drain_levels callback ls pl'
     }"

definition clear_and_drain ::
  "(ptr \<Rightarrow> pool \<Rightarrow> pool option) \<Rightarrow> pool \<Rightarrow> order_book \<Rightarrow> (pool \<times> order_book) option" where
  "clear_and_drain callback pl b =
     do {
       pl1 \<leftarrow> drain_levels callback (bids b) pl;
       pl2 \<leftarrow> drain_levels callback (asks b) pl1;
       Some (pl2, b\<lparr>bids := [], asks := [], order_map := []\<rparr>)
     }"

section \<open>One side of the book\<close>

text \<open>
  The abstraction of a ladder: its prices with the pointers resting at each, best price
  first; \<open>queue\<close> flattens it to the sequence in which the orders are matched.
\<close>

type_synonym ladder = "(i64 \<times> ptr list) list"

definition queue :: "ladder \<Rightarrow> ptr list" where
  "queue pls = concat (map snd pls)"

lemma queue_simps [simp]:
  "queue [] = []" "queue ((k, ps) # pls) = ps @ queue pls"
  "queue (xs @ ys) = queue xs @ queue ys"
  by (simp_all add: queue_def)

definition side_view :: "heap \<Rightarrow> levels \<Rightarrow> ladder" where
  "side_view h ls = map (\<lambda>(k, l). (k, level_ptrs h l)) ls"

definition level_ok :: "(side \<Rightarrow> bool) \<Rightarrow> heap \<Rightarrow> i64 \<times> price_level \<Rightarrow> i64 \<times> ptr list \<Rightarrow> bool" where
  "level_ok P h e f \<longleftrightarrow> fst f = fst e \<and> level_rep h (snd e) (snd f) \<and> snd f \<noteq> [] \<and>
     (\<forall>p \<in> set (snd f). limit_price (h ! p) = fst e \<and> P (side (h ! p)))"

text \<open>
  \<open>side_rep lt P h ls pls\<close>: the ladder \<open>ls\<close> is sorted by \<open>lt\<close>, and each of its levels is
  non-empty and holds the orders \<open>pls\<close> says, all at the price of the level and all of a side
  accepted by \<open>P\<close>; no order rests twice.
\<close>

definition side_rep ::
  "(i64 \<Rightarrow> i64 \<Rightarrow> bool) \<Rightarrow> (side \<Rightarrow> bool) \<Rightarrow> heap \<Rightarrow> levels \<Rightarrow> ladder \<Rightarrow> bool" where
  "side_rep lt P h ls pls \<longleftrightarrow>
     sorted_wrt lt (map fst ls) \<and> list_all2 (level_ok P h) ls pls \<and> distinct (queue pls)"

lemma level_ok_ptrs: "level_ok P h e f \<Longrightarrow> (fst e, level_ptrs h (snd e)) = f"
  by (cases f) (auto simp: level_ok_def level_ptrs_rep)

lemma side_rep_view: "side_rep lt P h ls pls \<Longrightarrow> side_view h ls = pls"
proof -
  assume "side_rep lt P h ls pls"
  then have "list_all2 (level_ok P h) ls pls" by (simp add: side_rep_def)
  then show ?thesis
    by (induction rule: list_all2_induct) (auto simp: side_view_def dest: level_ok_ptrs)
qed

lemma side_rep_Nil [simp]: "side_rep lt P h [] []"
  by (simp add: side_rep_def)

lemma side_rep_empty_iff: "side_rep lt P h ls pls \<Longrightarrow> ls = [] \<longleftrightarrow> pls = []"
  by (auto simp: side_rep_def)

lemma side_rep_keys: "side_rep lt P h ls pls \<Longrightarrow> map fst pls = map fst ls"
proof -
  assume "side_rep lt P h ls pls"
  then have "list_all2 (level_ok P h) ls pls" by (simp add: side_rep_def)
  then show ?thesis
    by (induction rule: list_all2_induct) (auto simp: level_ok_def)
qed

lemma levels_ok_queue:
  "list_all2 (level_ok P h) ls pls \<Longrightarrow> p \<in> set (queue pls) \<Longrightarrow>
   p < length h \<and> P (side (h ! p)) \<and> limit_price (h ! p) \<in> fst ` set ls"
proof (induction rule: list_all2_induct)
  case (Cons e ls f pls)
  obtain k ps where f: "f = (k, ps)" by (cases f)
  have e: "level_rep h (snd e) ps" "\<And>q. q \<in> set ps \<Longrightarrow> limit_price (h ! q) = fst e \<and> P (side (h ! q))"
    using Cons.hyps(1) f by (auto simp: level_ok_def)
  show ?case
  proof (cases "p \<in> set ps")
    case True
    then show ?thesis using e(2) [OF True] lvl.rep_range [OF e(1)] by auto
  next
    case False
    then show ?thesis using Cons.IH Cons.prems f by auto
  qed
qed simp

lemma side_rep_queue:
  assumes "side_rep lt P h ls pls" and "p \<in> set (queue pls)"
  shows "p < length h" and "P (side (h ! p))" and "limit_price (h ! p) \<in> fst ` set ls"
  using levels_ok_queue [of P h ls pls p] assms by (auto simp: side_rep_def)

text \<open>A change of the heap that keeps links, prices and sides of the resting orders.\<close>

definition book_eq_on :: "ptr set \<Rightarrow> heap \<Rightarrow> heap \<Rightarrow> bool" where
  "book_eq_on S h h' \<longleftrightarrow> length h' = length h \<and>
     (\<forall>p \<in> S. level_prev (h' ! p) = level_prev (h ! p) \<and> level_next (h' ! p) = level_next (h ! p) \<and>
        limit_price (h' ! p) = limit_price (h ! p) \<and> side (h' ! p) = side (h ! p) \<and>
        order_id (h' ! p) = order_id (h ! p))"

lemma book_eq_on_mono: "book_eq_on S h h' \<Longrightarrow> T \<subseteq> S \<Longrightarrow> book_eq_on T h h'"
  by (auto simp: book_eq_on_def)

lemma same_outside_book_eq:
  "same_outside S h h' \<Longrightarrow> T \<inter> S = {} \<Longrightarrow> T \<subseteq> {..<length h} \<Longrightarrow> book_eq_on T h h'"
  by (auto simp: book_eq_on_def same_outside_def disjoint_iff subset_iff)

lemma levels_ok_cong:
  assumes "list_all2 (level_ok P h) ls pls" and "book_eq_on (set (queue pls)) h h'"
  shows "list_all2 (level_ok P h') ls pls"
  using assms
proof (induction rule: list_all2_induct)
  case (Cons e ls f pls)
  have q: "set (queue (f # pls)) = set (snd f) \<union> set (queue pls)" by (cases f) simp
  then have tl: "book_eq_on (set (queue pls)) h h'" and hd: "book_eq_on (set (snd f)) h h'"
    using Cons.prems by (auto elim: book_eq_on_mono)
  have rep: "level_rep h (snd e) (snd f)" using Cons.hyps(1) by (simp add: level_ok_def)
  have "level_rep h' (snd e) (snd f)"
    by (rule lvl.links_rep [OF rep]) (use hd in \<open>simp_all add: book_eq_on_def\<close>)
  then have "level_ok P h' e f"
    using Cons.hyps(1) hd by (simp add: level_ok_def book_eq_on_def)
  then show ?case using Cons.IH [OF tl] by simp
qed simp

lemma side_rep_cong:
  "side_rep lt P h ls pls \<Longrightarrow> book_eq_on (set (queue pls)) h h' \<Longrightarrow> side_rep lt P h' ls pls"
  by (auto simp: side_rep_def intro: levels_ok_cong)

lemma side_rep_outside:
  assumes "side_rep lt P h ls pls" and "same_outside S h h'" and "set (queue pls) \<inter> S = {}"
  shows "side_rep lt P h' ls pls"
proof (rule side_rep_cong [OF assms(1)])
  have "set (queue pls) \<subseteq> {..<length h}" using side_rep_queue(1) [OF assms(1)] by auto
  with assms show "book_eq_on (set (queue pls)) h h'" by (intro same_outside_book_eq)
qed

lemma cores_book_eq:
  assumes "cores h' = cores h" and "same_outside S h h'" and "T \<inter> S = {}" and "T \<subseteq> {..<length h}"
  shows "book_eq_on T h h'"
  using same_outside_book_eq [OF assms(2-4)] .

lemma core_fields:
  assumes "core y = core x"
  shows "limit_price y = limit_price x" and "side y = side x" and "order_id y = order_id x"
    and "remaining y = remaining x" and "status y = status x" and "filled_qty y = filled_qty x"
    and "initial_qty y = initial_qty x" and "order_type y = order_type x" and "tif y = tif x"
    and "order_instrument y = order_instrument x" and "ts y = ts x"
  using assms by (metis core_simps)+

text \<open>The contract of \<open>std::map\<close> and of a price level, put together for one side.\<close>

locale book_side = map_compare lt for lt :: "i64 \<Rightarrow> i64 \<Rightarrow> bool" +
  fixes P :: "side \<Rightarrow> bool"
begin

abbreviation rep :: "heap \<Rightarrow> levels \<Rightarrow> ladder \<Rightarrow> bool" where
  "rep \<equiv> side_rep lt P"

lemma rep_split:
  assumes "rep h (xs @ (k, l) # ys) pls"
  obtains as ps bs where "pls = as @ (k, ps) # bs" and "list_all2 (level_ok P h) xs as"
    and "level_ok P h (k, l) (k, ps)" and "list_all2 (level_ok P h) ys bs"
proof -
  have "list_all2 (level_ok P h) (xs @ (k, l) # ys) pls" using assms by (simp add: side_rep_def)
  then obtain as f bs where f: "pls = as @ f # bs" "list_all2 (level_ok P h) xs as"
      "level_ok P h (k, l) f" "list_all2 (level_ok P h) ys bs"
    by (auto simp: list_all2_append1 list_all2_Cons1)
  moreover from f(3) have "f = (k, snd f)" by (cases f) (simp add: level_ok_def)
  ultimately show ?thesis using that by metis
qed

lemma levels_frame:
  assumes "list_all2 (level_ok P h) ls as" and "same_outside S h h'" and "set (queue as) \<inter> S = {}"
  shows "list_all2 (level_ok P h') ls as"
proof -
  have "set (queue as) \<subseteq> {..<length h}" using levels_ok_queue [OF assms(1)] by auto
  with assms show ?thesis by (intro levels_ok_cong [OF assms(1)] same_outside_book_eq)
qed

text \<open>
  Exchanging the contents of one level: every operation of the book does this, and the rest
  of the ladder is a frame.
\<close>

lemma rep_replace:
  assumes "list_all2 (level_ok P h) xs as" and "list_all2 (level_ok P h) ys bs"
    and "sorted_wrt lt (map fst (xs @ (k, l) # ys))"
    and "same_outside S h h'" and "set (queue as) \<inter> S = {}" and "set (queue bs) \<inter> S = {}"
    and "distinct (queue as @ ps' @ queue bs)"
    and "level_rep h' l' ps'"
    and "\<And>q. q \<in> set ps' \<Longrightarrow> limit_price (h' ! q) = k \<and> P (side (h' ! q))"
  shows "ps' \<noteq> [] \<Longrightarrow> rep h' (xs @ (k, l') # ys) (as @ (k, ps') # bs)"
    and "ps' = [] \<Longrightarrow> rep h' (xs @ ys) (as @ bs)"
proof -
  have fr: "list_all2 (level_ok P h') xs as" "list_all2 (level_ok P h') ys bs"
    using assms by (auto intro: levels_frame)
  show "rep h' (xs @ (k, l') # ys) (as @ (k, ps') # bs)" if "ps' \<noteq> []"
    using that fr assms by (auto simp: side_rep_def level_ok_def intro!: list_all2_appendI)
  show "rep h' (xs @ ys) (as @ bs)" if "ps' = []"
    using that fr assms by (auto simp: side_rep_def sorted_wrt_append intro!: list_all2_appendI)
qed

text \<open>The prices along the queue never improve.\<close>

lemma queue_prices:
  assumes srt: "sorted_wrt lt (map fst (xs @ (k, l) # ys))"
    and xs: "list_all2 (level_ok P h) xs as" and ys: "list_all2 (level_ok P h) ys bs"
  shows "q \<in> set (queue as) \<Longrightarrow> lt (limit_price (h ! q)) k"
    and "q \<in> set (queue bs) \<Longrightarrow> lt k (limit_price (h ! q))"
proof -
  show "lt (limit_price (h ! q)) k" if "q \<in> set (queue as)"
    using levels_ok_queue [OF xs that] srt by (auto simp: sorted_wrt_append)
  show "lt k (limit_price (h ! q))" if "q \<in> set (queue bs)"
    using levels_ok_queue [OF ys that] srt by (auto simp: sorted_wrt_append)
qed

lemma lt_asym: "lt a b \<Longrightarrow> \<not> lt b a"
  using lt_trans lt_irrefl by blast

lemma rest_at_rep:
  assumes rep: "rep h ls pls" and p: "p < length h" "p \<notin> set (queue pls)"
    and px: "limit_price (h ! p) = k" "P (side (h ! p))"
  obtains h' ls' pls' A B where "rest_at lt h ls k p = Some (h', ls')" and "rep h' ls' pls'"
    and "queue pls = A @ B" and "queue pls' = A @ p # B"
    and "\<forall>q \<in> set A. \<not> lt k (limit_price (h ! q))" and "\<forall>q \<in> set B. lt k (limit_price (h ! q))"
    and "cores h' = cores h" and "same_outside (insert p (set (queue pls))) h h'"
proof -
  have srt: "om_sorted ls" using rep by (simp add: side_rep_def)
  obtain xs l ys as ps bs where sub: "om_subscript lt empty_level k ls = xs @ (k, l) # ys"
      and srt': "om_sorted (xs @ (k, l) # ys)" and q: "queue pls = queue as @ ps @ queue bs"
      and xs: "list_all2 (level_ok P h) xs as" and ys: "list_all2 (level_ok P h) ys bs"
      and l: "level_rep h l ps" and ps: "\<forall>q \<in> set ps. limit_price (h ! q) = k \<and> P (side (h ! q))"
    using srt
  proof (cases rule: om_subscript_cases [where k = k and d = empty_level])
    case (found xs l ys)
    from rep [unfolded found(1)] obtain as ps bs where "pls = as @ (k, ps) # bs"
        "list_all2 (level_ok P h) xs as" "level_ok P h (k, l) (k, ps)"
        "list_all2 (level_ok P h) ys bs"
      by (rule rep_split)
    with found srt show ?thesis by (intro that [of xs l ys as ps bs]) (auto simp: level_ok_def)
  next
    case (fresh xs ys)
    then have "list_all2 (level_ok P h) (xs @ ys) pls" using rep by (simp add: side_rep_def)
    then obtain as bs where "pls = as @ bs" "list_all2 (level_ok P h) xs as"
        "list_all2 (level_ok P h) ys bs"
      by (auto simp: list_all2_append1)
    with fresh show ?thesis by (intro that [of xs empty_level ys as "[]" bs]) auto
  qed
  have notin: "k \<notin> fst ` set xs" "k \<notin> fst ` set ys" using om_sorted_split_notin [OF srt'] by auto
  have d: "distinct (queue as @ ps @ queue bs)" using rep q by (simp add: side_rep_def)
  obtain h' l' where push: "push_back h l p = Some (h', l')" "level_rep h' l' (ps @ [p])"
      "cores h' = cores h" "same_outside (set (p # ps)) h h'"
    using lvl.push_rep [OF l p(1)] p(2) q by auto
  have fields: "limit_price (h' ! q) = k \<and> P (side (h' ! q))" if "q \<in> set (ps @ [p])" for q
    using that ps px lvl.rep_range [OF l] p(1) core_fields [OF cores_nth [OF push(3)], of q] by auto
  have "rep h' (xs @ (k, l') # ys) (as @ (k, ps @ [p]) # bs)"
    by (rule rep_replace(1) [OF xs ys srt' push(4) _ _ _ push(2) fields]) (use d p(2) q in auto)
  moreover have "rest_at lt h ls k p = Some (h', xs @ (k, l') # ys)"
    using sub push(1) notin by (simp add: rest_at_def om_find_split om_assign_split)
  moreover have "queue pls = (queue as @ ps) @ queue bs"
    and "queue (as @ (k, ps @ [p]) # bs) = (queue as @ ps) @ p # queue bs"
    using q by simp_all
  moreover have "\<forall>q \<in> set (queue as @ ps). \<not> lt k (limit_price (h ! q))"
    using queue_prices(1) [OF srt' xs ys] ps by (auto dest: lt_asym)
  moreover have "\<forall>q \<in> set (queue bs). lt k (limit_price (h ! q))"
    using queue_prices(2) [OF srt' xs ys] by blast
  moreover have "same_outside (insert p (set (queue pls))) h h'"
    using push(4) by (rule same_outside_mono) (use q in auto)
  ultimately show ?thesis using that push(3) by blast
qed

text \<open>The level an order rests in is the one at its price.\<close>

lemma level_of_order:
  assumes "list_all2 (level_ok P h) ls pls" and "p \<in> set (queue pls)"
  obtains xs l ys as qs rs bs where "ls = xs @ (limit_price (h ! p), l) # ys"
    and "pls = as @ (limit_price (h ! p), qs @ p # rs) # bs" and "list_all2 (level_ok P h) xs as"
    and "level_ok P h (limit_price (h ! p), l) (limit_price (h ! p), qs @ p # rs)"
    and "list_all2 (level_ok P h) ys bs"
proof -
  from assms(2) obtain f where f: "f \<in> set pls" "p \<in> set (snd f)" by (auto simp: queue_def)
  then obtain as bs where pls: "pls = as @ f # bs" by (auto simp: in_set_conv_decomp)
  with assms(1) obtain xs e ys where ls: "ls = xs @ e # ys" "list_all2 (level_ok P h) xs as"
      "level_ok P h e f" "list_all2 (level_ok P h) ys bs"
    by (auto simp: list_all2_append2 list_all2_Cons2)
  obtain qs rs where "snd f = qs @ p # rs" using f(2) by (auto simp: in_set_conv_decomp)
  moreover from ls(3) f(2) have "fst e = limit_price (h ! p)" "fst f = fst e"
    by (auto simp: level_ok_def)
  ultimately have "e = (limit_price (h ! p), snd e)" "f = (limit_price (h ! p), qs @ p # rs)"
    by (metis prod.collapse)+
  with pls ls show ?thesis using that by metis
qed

lemma unlink_at_rep:
  assumes rep: "rep h ls pls" and p: "p \<in> set (queue pls)"
  obtains h' ls' pls' A B where "unlink_at h ls (limit_price (h ! p)) p = Some (h', ls')"
    and "rep h' ls' pls'" and "queue pls = A @ p # B" and "queue pls' = A @ B"
    and "cores h' = cores h" and "same_outside (set (queue pls)) h h'"
proof -
  let ?k = "limit_price (h ! p)"
  have la: "list_all2 (level_ok P h) ls pls" and srt: "om_sorted ls" and d: "distinct (queue pls)"
    using rep by (auto simp: side_rep_def)
  obtain xs l ys as qs rs bs where ls: "ls = xs @ (?k, l) # ys"
      and pls: "pls = as @ (?k, qs @ p # rs) # bs" and xs: "list_all2 (level_ok P h) xs as"
      and l: "level_ok P h (?k, l) (?k, qs @ p # rs)" and ys: "list_all2 (level_ok P h) ys bs"
    using la p by (rule level_of_order)
  have notin: "?k \<notin> fst ` set xs" "?k \<notin> fst ` set ys"
    using om_sorted_split_notin [OF srt [unfolded ls]] by auto
  have lr: "level_rep h l (qs @ p # rs)" using l by (simp add: level_ok_def)
  obtain h' l' where del: "level_erase h l p = Some (h', l')" "level_rep h' l' (qs @ rs)"
      "cores h' = cores h" "same_outside (set (qs @ p # rs)) h h'"
    using lvl.del_rep [OF lr] by blast
  have fields: "limit_price (h' ! q) = ?k \<and> P (side (h' ! q))" if "q \<in> set (qs @ rs)" for q
    using that l lvl.rep_range [OF lr] core_fields [OF cores_nth [OF del(3)], of q]
    by (auto simp: level_ok_def)
  note new = rep_replace [OF xs ys srt [unfolded ls] del(4) _ _ _ del(2) fields]
  have q: "queue pls = (queue as @ qs) @ p # (rs @ queue bs)" using pls by simp
  have so: "same_outside (set (queue pls)) h h'"
    using del(4) by (rule same_outside_mono) (use q in auto)
  show ?thesis
  proof (cases "qs @ rs = []")
    case True
    have "rep h' (xs @ ys) (as @ bs)" using d pls True by (intro new(2)) auto
    moreover have "unlink_at h ls ?k p = Some (h', xs @ ys)"
      using ls del(1) notin True lvl.is_emp_rep [OF del(2)]
      by (simp add: unlink_at_def om_find_split om_erase_split)
    ultimately show ?thesis using that [OF _ _ q _ del(3) so] True by auto
  next
    case False
    have "rep h' (xs @ (?k, l') # ys) (as @ (?k, qs @ rs) # bs)"
      using d pls False by (intro new(1)) auto
    moreover have "unlink_at h ls ?k p = Some (h', xs @ (?k, l') # ys)"
      using ls del(1) notin False lvl.is_emp_rep [OF del(2)]
      by (auto simp: unlink_at_def om_find_split om_assign_split)
    ultimately show ?thesis using that [OF _ _ q _ del(3) so] by auto
  qed
qed

lemma top_of_rep: "rep h ls pls \<Longrightarrow> top_of ls = opt_hd (queue pls) None"
proof (cases ls)
  case (Cons e ls')
  assume "rep h ls pls"
  with Cons obtain f pls' where "pls = f # pls'" "level_ok P h e f"
    by (auto simp: side_rep_def list_all2_Cons1)
  then show ?thesis
    using Cons lvl.front_rep [of h "snd e" "snd f"]
    by (cases e; cases f; cases "snd f") (auto simp: top_of_def level_ok_def)
qed (auto simp: top_of_def side_rep_def)

lemma pop_best_rep:
  assumes rep: "rep h ls pls" and q: "queue pls = p # qs"
  obtains h' ls' pls' where "pop_best h ls = Some (order_id (h ! p), h', ls')"
    and "rep h' ls' pls'" and "queue pls' = qs" and "cores h' = cores h"
    and "same_outside (set (queue pls)) h h'"
proof -
  obtain k l ys where ls: "ls = (k, l) # ys" using rep q by (cases ls) (auto simp: side_rep_def)
  from rep have "rep h ([] @ (k, l) # ys) pls" using ls by simp
  then obtain ps bs where pls: "pls = (k, ps) # bs" and l: "level_ok P h (k, l) (k, ps)"
      and ys: "list_all2 (level_ok P h) ys bs"
    by (rule rep_split) auto
  then obtain rs where ps: "ps = p # rs" and qs: "qs = rs @ queue bs"
    using q by (cases ps) (auto simp: level_ok_def)
  have d: "distinct (queue pls)" and srt: "om_sorted ([] @ (k, l) # ys)"
    using rep ls by (auto simp: side_rep_def)
  have lr: "level_rep h l (p # rs)" using l ps by (simp add: level_ok_def)
  obtain h' l' where pop: "pop_front h l = Some (h', l')" "level_rep h' l' rs"
      "cores h' = cores h" "same_outside (set (p # rs)) h h'"
    using lvl.pop_rep [OF lr] by blast
  have fields: "limit_price (h' ! q) = k \<and> P (side (h' ! q))" if "q \<in> set rs" for q
    using that l ps lvl.rep_range [OF lr] core_fields [OF cores_nth [OF pop(3)], of q]
    by (auto simp: level_ok_def)
  note new = rep_replace [OF list_all2_Nil [THEN iffD2, OF refl] ys srt pop(4) _ _ _ pop(2) fields]
  have so: "same_outside (set (queue pls)) h h'"
    using pop(4) by (rule same_outside_mono) (use pls ps in auto)
  have eval: "pop_best h ls = Some (order_id (h ! p), h', if rs = [] then ys else (k, l') # ys)"
    using ls pop(1) lvl.front_rep [OF lr] lvl.rep_range [OF lr] lvl.is_emp_rep [OF pop(2)]
    by (simp add: pop_best_def)
  show ?thesis
  proof (cases "rs = []")
    case True
    have "rep h' ([] @ ys) ([] @ bs)" using d pls ps True by (intro new(2)) auto
    with True eval qs show ?thesis using that [OF _ _ _ pop(3) so] by auto
  next
    case False
    have "rep h' ([] @ (k, l') # ys) ([] @ (k, rs) # bs)" using d pls ps False by (intro new(1)) auto
    with False eval qs show ?thesis using that [OF _ _ _ pop(3) so] by auto
  qed
qed

text \<open>Along the queue, prices go from best to worst.\<close>

lemma queue_sorted:
  assumes "rep h ls pls"
  shows "sorted_wrt (\<lambda>p q. \<not> lt (limit_price (h ! q)) (limit_price (h ! p))) (queue pls)"
proof -
  have "list_all2 (level_ok P h) ls pls" "om_sorted ls" using assms by (auto simp: side_rep_def)
  then show ?thesis
  proof (induction rule: list_all2_induct)
    case (Cons e ls f pls)
    obtain k l ps where e: "e = (k, l)" "f = (k, ps)"
      using Cons.hyps(1) by (cases e; cases f) (auto simp: level_ok_def)
    have k: "\<forall>q \<in> set ps. limit_price (h ! q) = k" using Cons.hyps(1) e by (auto simp: level_ok_def)
    then have "sorted_wrt (\<lambda>p q. \<not> lt (limit_price (h ! q)) (limit_price (h ! p))) ps"
      by (induction ps) auto
    moreover have "lt k (limit_price (h ! q))" if "q \<in> set (queue pls)" for q
      using queue_prices(2) [of "[]" k l ls h "[]" pls q] Cons that e by auto
    ultimately show ?case using Cons e k by (auto simp: sorted_wrt_append dest: lt_asym)
  qed simp
qed

text \<open>The quantity at a price is the wrapped sum of what remains of the orders there.\<close>

lemma qty_at_rep:
  assumes rep: "rep h ls pls"
  shows "qty_at h ls k =
    Some (sum_list (map (\<lambda>p. remaining (h ! p)) (filter (\<lambda>p. limit_price (h ! p) = k) (queue pls))))"
proof (cases "om_find ls k")
  case None
  then have "\<forall>p \<in> set (queue pls). limit_price (h ! p) \<noteq> k"
    using side_rep_queue(3) [OF rep] by (auto simp: om_find_def map_of_eq_None_iff)
  with None show ?thesis by (simp add: qty_at_def kZeroQty_def filter_empty_conv)
next
  case (Some l)
  then obtain xs ys where ls: "ls = xs @ (k, l) # ys" by (rule om_find_decomp)
  from rep [unfolded ls] obtain as ps bs where pls: "pls = as @ (k, ps) # bs"
      and xs: "list_all2 (level_ok P h) xs as" and l: "level_ok P h (k, l) (k, ps)"
      and ys: "list_all2 (level_ok P h) ys bs"
    by (rule rep_split)
  have srt: "sorted_wrt lt (map fst (xs @ (k, l) # ys))" using rep ls by (simp add: side_rep_def)
  have "filter (\<lambda>p. limit_price (h ! p) = k) (queue as) = []"
    using queue_prices(1) [OF srt xs ys] by (intro filter_False) (metis lt_irrefl)
  moreover have "filter (\<lambda>p. limit_price (h ! p) = k) (queue bs) = []"
    using queue_prices(2) [OF srt xs ys] by (intro filter_False) (metis lt_irrefl)
  moreover have "filter (\<lambda>p. limit_price (h ! p) = k) ps = ps"
    using l by (auto simp: level_ok_def)
  ultimately have flt: "filter (\<lambda>p. limit_price (h ! p) = k) (queue pls) = ps"
    using pls by simp
  have c: "chain h None ps None" and hd: "level_head l = opt_hd ps None"
    using l by (auto simp: level_ok_def level_rep_def)
  define f where "f = (\<lambda>p (h' :: heap, t). (h', t + remaining (h ! p)))"
  have "level_for fst (\<lambda>p (h, t). do { x \<leftarrow> deref h p; Some (h, t + remaining x) })
      (opt_hd ps None) (h, kZeroQty) = Some (fold f ps (h, kZeroQty))"
    by (rule level_for_fold [OF c]) (use chain_range [OF c] in \<open>auto simp: f_def\<close>)
  moreover have "fold f ps (h, t) = (h, t + sum_list (map (\<lambda>p. remaining (h ! p)) ps))" for t
    by (induction ps arbitrary: t) (simp_all add: f_def add.assoc)
  ultimately show ?thesis using Some hd flt by (simp add: qty_at_def kZeroQty_def)
qed

end

interpretation bid_side: book_side "(>)" "\<lambda>s. s = Buy"
  by unfold_locales

interpretation ask_side: book_side "(<)" "\<lambda>s. s \<noteq> Buy"
  by unfold_locales

section \<open>The whole book\<close>

text \<open>
  \<open>book_rep h b bp ap\<close>: the bids of \<open>b\<close> are the ladder \<open>bp\<close>, its asks are \<open>ap\<close>, and every
  entry of the index locates a resting order with the entry's id. The index may miss an
  order: \<open>emplace\<close> does not overwrite, so a second resting order with a known id is not
  indexed.
\<close>

definition index_ok :: "heap \<Rightarrow> (u64 \<times> locator) list \<Rightarrow> ptr list \<Rightarrow> ptr list \<Rightarrow> bool" where
  "index_ok h m bq aq \<longleftrightarrow> um_ok m \<and>
     (\<forall>(i, loc) \<in> set m. order_id (h ! loc_order loc) = i \<and>
        loc_price loc = limit_price (h ! loc_order loc) \<and>
        (if loc_side loc = Buy then loc_order loc \<in> set bq else loc_order loc \<in> set aq))"

definition book_rep :: "heap \<Rightarrow> order_book \<Rightarrow> ladder \<Rightarrow> ladder \<Rightarrow> bool" where
  "book_rep h b bp ap \<longleftrightarrow> side_rep (>) (\<lambda>s. s = Buy) h (bids b) bp \<and>
     side_rep (<) (\<lambda>s. s \<noteq> Buy) h (asks b) ap \<and> index_ok h (order_map b) (queue bp) (queue ap)"

text \<open>The orders resting on each side, in matching order.\<close>

definition bid_queue :: "heap \<Rightarrow> order_book \<Rightarrow> ptr list" where
  "bid_queue h b = queue (side_view h (bids b))"

definition ask_queue :: "heap \<Rightarrow> order_book \<Rightarrow> ptr list" where
  "ask_queue h b = queue (side_view h (asks b))"

definition side_queue :: "heap \<Rightarrow> order_book \<Rightarrow> side \<Rightarrow> ptr list" where
  "side_queue h b s = (if s = Buy then bid_queue h b else ask_queue h b)"

definition book_ptrs :: "heap \<Rightarrow> order_book \<Rightarrow> ptr set" where
  "book_ptrs h b = set (bid_queue h b) \<union> set (ask_queue h b)"

definition book_ok :: "heap \<Rightarrow> order_book \<Rightarrow> bool" where
  "book_ok h b \<longleftrightarrow> book_rep h b (side_view h (bids b)) (side_view h (asks b))"

lemma book_rep_views:
  assumes "book_rep h b bp ap"
  shows "side_view h (bids b) = bp" and "side_view h (asks b) = ap"
    and "bid_queue h b = queue bp" and "ask_queue h b = queue ap" and "book_ok h b"
proof -
  show v: "side_view h (bids b) = bp" "side_view h (asks b) = ap"
    using assms by (auto simp: book_rep_def dest: side_rep_view)
  then show "bid_queue h b = queue bp" "ask_queue h b = queue ap" "book_ok h b"
    using assms by (simp_all add: bid_queue_def ask_queue_def book_ok_def)
qed

lemma book_ok_sides:
  assumes "book_ok h b"
  shows "side_rep (>) (\<lambda>s. s = Buy) h (bids b) (side_view h (bids b))"
    and "side_rep (<) (\<lambda>s. s \<noteq> Buy) h (asks b) (side_view h (asks b))"
    and "index_ok h (order_map b) (bid_queue h b) (ask_queue h b)"
  using assms by (auto simp: book_ok_def book_rep_def bid_queue_def ask_queue_def)

lemma bid_queue_facts:
  assumes "book_ok h b" and "p \<in> set (bid_queue h b)"
  shows "p < length h" and "side (h ! p) = Buy"
  using side_rep_queue [OF book_ok_sides(1) [OF assms(1)]] assms(2) by (auto simp: bid_queue_def)

lemma ask_queue_facts:
  assumes "book_ok h b" and "p \<in> set (ask_queue h b)"
  shows "p < length h" and "side (h ! p) \<noteq> Buy"
  using side_rep_queue [OF book_ok_sides(2) [OF assms(1)]] assms(2) by (auto simp: ask_queue_def)

lemma book_ptrs_range: "book_ok h b \<Longrightarrow> book_ptrs h b \<subseteq> {..<length h}"
  by (auto simp: book_ptrs_def dest: bid_queue_facts(1) ask_queue_facts(1))

lemma queues_disjoint: "book_ok h b \<Longrightarrow> set (bid_queue h b) \<inter> set (ask_queue h b) = {}"
  using bid_queue_facts(2) ask_queue_facts(2) by blast

lemma queues_distinct:
  "book_ok h b \<Longrightarrow> distinct (bid_queue h b)" "book_ok h b \<Longrightarrow> distinct (ask_queue h b)"
  using book_ok_sides by (auto simp: side_rep_def bid_queue_def ask_queue_def)

lemma new_book_ok [simp]: "book_ok h (new_book i)"
  by (simp add: book_ok_def book_rep_def new_book_def side_view_def index_ok_def)

lemma new_book_queues [simp]: "bid_queue h (new_book i) = []" "ask_queue h (new_book i) = []"
  by (simp_all add: bid_queue_def ask_queue_def new_book_def side_view_def)

text \<open>The invariant depends only on the links, prices, sides and ids of the resting orders.\<close>

lemma index_ok_cong:
  "index_ok h m bq aq \<Longrightarrow> book_eq_on (set bq \<union> set aq) h h' \<Longrightarrow> index_ok h' m bq aq"
  by (fastforce simp: index_ok_def book_eq_on_def split: if_splits)

lemma book_ok_cong:
  assumes ok: "book_ok h b" and eq: "book_eq_on (book_ptrs h b) h h'"
  shows "book_ok h' b" and "bid_queue h' b = bid_queue h b" and "ask_queue h' b = ask_queue h b"
proof -
  have "book_rep h' b (side_view h (bids b)) (side_view h (asks b))"
    using book_ok_sides [OF ok] eq unfolding book_rep_def
    by (auto simp: book_ptrs_def bid_queue_def ask_queue_def
        intro!: side_rep_cong [of _ _ h] index_ok_cong [of h] elim!: book_eq_on_mono)
  from book_rep_views [OF this] show "book_ok h' b" "bid_queue h' b = bid_queue h b"
    "ask_queue h' b = ask_queue h b"
    by (simp_all add: bid_queue_def ask_queue_def)
qed

lemma book_ok_outside:
  assumes "book_ok h b" and "same_outside S h h'" and "book_ptrs h b \<inter> S = {}"
  shows "book_ok h' b" and "bid_queue h' b = bid_queue h b" and "ask_queue h' b = ask_queue h b"
  using book_ok_cong [OF assms(1) same_outside_book_eq [OF assms(2,3) book_ptrs_range [OF assms(1)]]]
  by auto

section \<open>Operations on the whole book\<close>

lemma cores_book_fields:
  assumes "cores h' = cores h" and "p < length h"
  shows "limit_price (h' ! p) = limit_price (h ! p)" and "side (h' ! p) = side (h ! p)"
    and "order_id (h' ! p) = order_id (h ! p)" and "remaining (h' ! p) = remaining (h ! p)"
  using core_fields [OF cores_nth [OF assms]] by auto

lemma index_ok_cores:
  assumes "index_ok h m bq aq" and "cores h' = cores h" and "set bq \<union> set aq \<subseteq> {..<length h}"
  shows "index_ok h' m bq aq"
proof -
  have "order_id (h' ! loc_order loc) = i \<and> loc_price loc = limit_price (h' ! loc_order loc) \<and>
      (if loc_side loc = Buy then loc_order loc \<in> set bq else loc_order loc \<in> set aq)"
    if "(i, loc) \<in> set m" for i loc
  proof -
    have *: "order_id (h ! loc_order loc) = i" "loc_price loc = limit_price (h ! loc_order loc)"
      "if loc_side loc = Buy then loc_order loc \<in> set bq else loc_order loc \<in> set aq"
      using assms(1) that by (auto simp: index_ok_def)
    then have "loc_order loc < length h" using assms(3) by (auto split: if_splits)
    then show ?thesis using * cores_book_fields [OF assms(2)] by metis
  qed
  then show ?thesis using assms(1) by (auto simp: index_ok_def)
qed

lemma index_ok_mono:
  "index_ok h m bq aq \<Longrightarrow> set bq \<subseteq> set bq' \<Longrightarrow> set aq \<subseteq> set aq' \<Longrightarrow> index_ok h m bq' aq'"
  by (fastforce simp: index_ok_def split: if_splits)

lemma index_ok_emplace:
  assumes "index_ok h m bq aq" and "order_id (h ! loc_order loc) = i"
    and "loc_price loc = limit_price (h ! loc_order loc)"
    and "if loc_side loc = Buy then loc_order loc \<in> set bq else loc_order loc \<in> set aq"
  shows "index_ok h (um_emplace i loc m) bq aq"
  using assms by (auto simp: index_ok_def um_emplace_def um_ok_def um_find_def map_of_eq_None_iff)

text \<open>Erasing the id of an order that leaves the book keeps the index sound.\<close>

lemma index_ok_erase:
  assumes "index_ok h m bq aq" and "set bq - {p} \<subseteq> set bq'" and "set aq - {p} \<subseteq> set aq'"
    and "order_id (h ! p) = i"
  shows "index_ok h (um_erase i m) bq' aq'"
proof -
  have "order_id (h ! loc_order loc) = j \<and> loc_price loc = limit_price (h ! loc_order loc) \<and>
      (if loc_side loc = Buy then loc_order loc \<in> set bq' else loc_order loc \<in> set aq')"
    if "(j, loc) \<in> set (um_erase i m)" for j loc
  proof -
    have j: "(j, loc) \<in> set m" "j \<noteq> i" using that by (auto simp: um_erase_def)
    then have "loc_order loc \<noteq> p" using assms(1,4) by (auto simp: index_ok_def)
    then show ?thesis using j assms(1-3) by (fastforce simp: index_ok_def split: if_splits)
  qed
  then show ?thesis using assms(1) by (auto simp: index_ok_def)
qed

text \<open>
  Inserting behind every order at least as good: price priority first, then time. \<open>better s\<close>
  is the strict price order of a side.
\<close>

definition better :: "side \<Rightarrow> i64 \<Rightarrow> i64 \<Rightarrow> bool" where
  "better s a b \<longleftrightarrow> (if s = Buy then a > b else a < b)"

lemma better_Buy: "better Buy = (>)"
  by (auto simp: better_def fun_eq_iff)

lemma better_not_Buy: "s \<noteq> Buy \<Longrightarrow> better s = (<)"
  by (auto simp: better_def fun_eq_iff)

lemma side_queue_simps [simp]:
  "side_queue h b Buy = bid_queue h b" "s \<noteq> Buy \<Longrightarrow> side_queue h b s = ask_queue h b"
  by (simp_all add: side_queue_def)

lemma add_resting_bid:
  assumes ok: "book_ok h b" and p: "p < length h" "p \<notin> book_ptrs h b" and s: "side (h ! p) = Buy"
  obtains h' b' A B where "add_resting h b p = Some (h', b')" and "book_ok h' b'"
    and "bid_queue h b = A @ B" and "bid_queue h' b' = A @ p # B"
    and "\<forall>q \<in> set A. \<not> limit_price (h ! p) > limit_price (h ! q)"
    and "\<forall>q \<in> set B. limit_price (h ! p) > limit_price (h ! q)"
    and "ask_queue h' b' = ask_queue h b" and "cores h' = cores h"
    and "same_outside (insert p (book_ptrs h b)) h h'" and "book_instrument b' = book_instrument b"
    and "order_map b' = um_emplace (order_id (h ! p))
      \<lparr>loc_side = Buy, loc_price = limit_price (h ! p), loc_order = p\<rparr> (order_map b)"
proof -
  let ?v = "side_view h (bids b)" and ?o = "side_view h (asks b)"
  let ?m = "um_emplace (order_id (h ! p))
    \<lparr>loc_side = Buy, loc_price = limit_price (h ! p), loc_order = p\<rparr> (order_map b)"
  note sides = book_ok_sides [OF ok]
  have nq: "p \<notin> set (queue ?v)" using p(2) by (simp add: book_ptrs_def bid_queue_def)
  obtain h' ls pls' A B where r: "rest_at (>) h (bids b) (limit_price (h ! p)) p = Some (h', ls)"
      "side_rep (>) (\<lambda>s. s = Buy) h' ls pls'" "queue ?v = A @ B" "queue pls' = A @ p # B"
      "\<forall>q \<in> set A. \<not> limit_price (h ! p) > limit_price (h ! q)"
      "\<forall>q \<in> set B. limit_price (h ! p) > limit_price (h ! q)"
      "cores h' = cores h" "same_outside (insert p (set (queue ?v))) h h'"
    by (rule bid_side.rest_at_rep [OF sides(1) p(1) nq refl s])
  have oth: "side_rep (<) (\<lambda>s. s \<noteq> Buy) h' (asks b) ?o"
    using side_rep_outside [OF sides(2) r(8)] p(2) queues_disjoint [OF ok]
    by (auto simp: book_ptrs_def bid_queue_def ask_queue_def)
  have "index_ok h ?m (queue pls') (queue ?o)"
    by (intro index_ok_emplace index_ok_mono [OF sides(3)])
      (use r in \<open>auto simp: bid_queue_def ask_queue_def\<close>)
  then have "index_ok h' ?m (queue pls') (queue ?o)"
    using r(7) by (rule index_ok_cores) (use r p(1) bid_queue_facts(1) [OF ok]
      ask_queue_facts(1) [OF ok] in \<open>auto simp: bid_queue_def ask_queue_def\<close>)
  then have "book_rep h' (b\<lparr>bids := ls, order_map := ?m\<rparr>) (pls') (?o)"
    using r(2) oth by (simp add: book_rep_def)
  note v = book_rep_views [OF this]
  have "add_resting h b p = Some (h', b\<lparr>bids := ls, order_map := ?m\<rparr>)"
    using p(1) r(1) s by (simp add: add_resting_def)
  moreover have "same_outside (insert p (book_ptrs h b)) h h'"
    using r(8) by (rule same_outside_mono) (auto simp: book_ptrs_def bid_queue_def)
  ultimately show ?thesis
    using that [of h' "b\<lparr>bids := ls, order_map := ?m\<rparr>" A B] v r
    by (simp add: bid_queue_def ask_queue_def)
qed

lemma add_resting_ask:
  assumes ok: "book_ok h b" and p: "p < length h" "p \<notin> book_ptrs h b" and s: "side (h ! p) \<noteq> Buy"
  obtains h' b' A B where "add_resting h b p = Some (h', b')" and "book_ok h' b'"
    and "ask_queue h b = A @ B" and "ask_queue h' b' = A @ p # B"
    and "\<forall>q \<in> set A. \<not> limit_price (h ! p) < limit_price (h ! q)"
    and "\<forall>q \<in> set B. limit_price (h ! p) < limit_price (h ! q)"
    and "bid_queue h' b' = bid_queue h b" and "cores h' = cores h"
    and "same_outside (insert p (book_ptrs h b)) h h'" and "book_instrument b' = book_instrument b"
    and "order_map b' = um_emplace (order_id (h ! p))
      \<lparr>loc_side = Sell, loc_price = limit_price (h ! p), loc_order = p\<rparr> (order_map b)"
proof -
  let ?v = "side_view h (asks b)" and ?o = "side_view h (bids b)"
  let ?m = "um_emplace (order_id (h ! p))
    \<lparr>loc_side = Sell, loc_price = limit_price (h ! p), loc_order = p\<rparr> (order_map b)"
  note sides = book_ok_sides [OF ok]
  have nq: "p \<notin> set (queue ?v)" using p(2) by (simp add: book_ptrs_def ask_queue_def)
  obtain h' ls pls' A B where r: "rest_at (<) h (asks b) (limit_price (h ! p)) p = Some (h', ls)"
      "side_rep (<) (\<lambda>s. s \<noteq> Buy) h' ls pls'" "queue ?v = A @ B" "queue pls' = A @ p # B"
      "\<forall>q \<in> set A. \<not> limit_price (h ! p) < limit_price (h ! q)"
      "\<forall>q \<in> set B. limit_price (h ! p) < limit_price (h ! q)"
      "cores h' = cores h" "same_outside (insert p (set (queue ?v))) h h'"
    by (rule ask_side.rest_at_rep [OF sides(2) p(1) nq refl s])
  have oth: "side_rep (>) (\<lambda>s. s = Buy) h' (bids b) ?o"
    using side_rep_outside [OF sides(1) r(8)] p(2) queues_disjoint [OF ok]
    by (auto simp: book_ptrs_def bid_queue_def ask_queue_def)
  have "index_ok h ?m (queue ?o) (queue pls')"
    by (intro index_ok_emplace index_ok_mono [OF sides(3)])
      (use r in \<open>auto simp: bid_queue_def ask_queue_def\<close>)
  then have "index_ok h' ?m (queue ?o) (queue pls')"
    using r(7) by (rule index_ok_cores) (use r p(1) bid_queue_facts(1) [OF ok]
      ask_queue_facts(1) [OF ok] in \<open>auto simp: bid_queue_def ask_queue_def\<close>)
  then have "book_rep h' (b\<lparr>asks := ls, order_map := ?m\<rparr>) (?o) (pls')"
    using r(2) oth by (simp add: book_rep_def)
  note v = book_rep_views [OF this]
  have "add_resting h b p = Some (h', b\<lparr>asks := ls, order_map := ?m\<rparr>)"
    using p(1) r(1) s by (simp add: add_resting_def)
  moreover have "same_outside (insert p (book_ptrs h b)) h h'"
    using r(8) by (rule same_outside_mono) (auto simp: book_ptrs_def ask_queue_def)
  ultimately show ?thesis
    using that [of h' "b\<lparr>asks := ls, order_map := ?m\<rparr>" A B] v r
    by (simp add: bid_queue_def ask_queue_def)
qed

lemma add_resting_ok:
  assumes "book_ok h b" and "p < length h" and "p \<notin> book_ptrs h b" and "s = side (h ! p)"
  obtains h' b' A B where "add_resting h b p = Some (h', b')" and "book_ok h' b'"
    and "side_queue h b s = A @ B" and "side_queue h' b' s = A @ p # B"
    and "\<forall>q \<in> set A. \<not> better s (limit_price (h ! p)) (limit_price (h ! q))"
    and "\<forall>q \<in> set B. better s (limit_price (h ! p)) (limit_price (h ! q))"
    and "side_queue h' b' (opposite s) = side_queue h b (opposite s)"
    and "cores h' = cores h" and "same_outside (insert p (book_ptrs h b)) h h'"
    and "book_instrument b' = book_instrument b"
    and "order_map b' = um_emplace (order_id (h ! p))
      \<lparr>loc_side = (if s = Buy then Buy else Sell), loc_price = limit_price (h ! p), loc_order = p\<rparr>
      (order_map b)"
proof (cases "s = Buy")
  case True
  then have "side (h ! p) = Buy" using assms(4) by simp
  from add_resting_bid [OF assms(1-3) this] show ?thesis
    using True that by (simp add: better_Buy) metis
next
  case False
  then have "side (h ! p) \<noteq> Buy" using assms(4) by simp
  from add_resting_ask [OF assms(1-3) this] show ?thesis
    using False that by (simp add: better_not_Buy) metis
qed

text \<open>An order leaves the book: from the bids, from the asks.\<close>

lemma remove_bid:
  assumes ok: "book_ok h b" and r: "side_rep (>) (\<lambda>s. s = Buy) h' ls pls'" "bid_queue h b = A @ p # B"
      "queue pls' = A @ B" "cores h' = cores h" "same_outside (set (bid_queue h b)) h h'"
    and b': "b' = b\<lparr>bids := ls, order_map := um_erase (order_id (h ! p)) (order_map b)\<rparr>"
  shows "book_ok h' b'" and "bid_queue h' b' = A @ B" and "ask_queue h' b' = ask_queue h b"
    and "same_outside (book_ptrs h b) h h'"
proof -
  let ?o = "side_view h (asks b)" and ?m = "um_erase (order_id (h ! p)) (order_map b)"
  note sides = book_ok_sides [OF ok]
  have oth: "side_rep (<) (\<lambda>s. s \<noteq> Buy) h' (asks b) ?o"
    using side_rep_outside [OF sides(2) r(5)] queues_disjoint [OF ok] by (auto simp: ask_queue_def)
  have "index_ok h ?m (queue pls') (queue ?o)"
    by (rule index_ok_erase [OF sides(3), of p]) (use r in \<open>auto simp: ask_queue_def\<close>)
  then have "index_ok h' ?m (queue pls') (queue ?o)"
    using r(4) by (rule index_ok_cores) (use r bid_queue_facts(1) [OF ok]
      ask_queue_facts(1) [OF ok] in \<open>auto simp: ask_queue_def\<close>)
  then have "book_rep h' b' (pls') (?o)"
    using r(1) oth by (simp add: book_rep_def b')
  note v = book_rep_views [OF this]
  show "book_ok h' b'" "bid_queue h' b' = A @ B" "ask_queue h' b' = ask_queue h b"
    using v r(3) by (simp_all add: ask_queue_def)
  show "same_outside (book_ptrs h b) h h'"
    using r(5) by (rule same_outside_mono) (auto simp: book_ptrs_def)
qed

lemma remove_ask:
  assumes ok: "book_ok h b" and r: "side_rep (<) (\<lambda>s. s \<noteq> Buy) h' ls pls'" "ask_queue h b = A @ p # B"
      "queue pls' = A @ B" "cores h' = cores h" "same_outside (set (ask_queue h b)) h h'"
    and b': "b' = b\<lparr>asks := ls, order_map := um_erase (order_id (h ! p)) (order_map b)\<rparr>"
  shows "book_ok h' b'" and "ask_queue h' b' = A @ B" and "bid_queue h' b' = bid_queue h b"
    and "same_outside (book_ptrs h b) h h'"
proof -
  let ?o = "side_view h (bids b)" and ?m = "um_erase (order_id (h ! p)) (order_map b)"
  note sides = book_ok_sides [OF ok]
  have oth: "side_rep (>) (\<lambda>s. s = Buy) h' (bids b) ?o"
    using side_rep_outside [OF sides(1) r(5)] queues_disjoint [OF ok] by (auto simp: bid_queue_def)
  have "index_ok h ?m (queue ?o) (queue pls')"
    by (rule index_ok_erase [OF sides(3), of p]) (use r in \<open>auto simp: bid_queue_def\<close>)
  then have "index_ok h' ?m (queue ?o) (queue pls')"
    using r(4) by (rule index_ok_cores) (use r bid_queue_facts(1) [OF ok]
      ask_queue_facts(1) [OF ok] in \<open>auto simp: bid_queue_def\<close>)
  then have "book_rep h' b' (?o) (pls')"
    using r(1) oth by (simp add: book_rep_def b')
  note v = book_rep_views [OF this]
  show "book_ok h' b'" "ask_queue h' b' = A @ B" "bid_queue h' b' = bid_queue h b"
    using v r(3) by (simp_all add: bid_queue_def)
  show "same_outside (book_ptrs h b) h h'"
    using r(5) by (rule same_outside_mono) (auto simp: book_ptrs_def)
qed

lemma cancel_and_get_none:
  "um_find (order_map b) i = None \<Longrightarrow> cancel_and_get h b i = Some (None, h, b)"
  by (simp add: cancel_and_get_def)

lemma cancel_and_get_some:
  assumes ok: "book_ok h b" and loc: "um_find (order_map b) i = Some loc"
  defines "p \<equiv> loc_order loc"
  obtains h' b' A B where "cancel_and_get h b i = Some (Some p, h', b')" and "book_ok h' b'"
    and "side_queue h b (side (h ! p)) = A @ p # B" and "side_queue h' b' (side (h ! p)) = A @ B"
    and "side_queue h' b' (opposite (side (h ! p))) = side_queue h b (opposite (side (h ! p)))"
    and "cores h' = cores h" and "same_outside (book_ptrs h b) h h'"
    and "book_instrument b' = book_instrument b" and "order_map b' = um_erase i (order_map b)"
    and "order_id (h ! p) = i" and "p \<in> book_ptrs h b"
proof -
  note sides = book_ok_sides [OF ok]
  have l: "order_id (h ! p) = i" "loc_price loc = limit_price (h ! p)"
      "if loc_side loc = Buy then p \<in> set (bid_queue h b) else p \<in> set (ask_queue h b)"
    using sides(3) loc um_find_in_set [of "order_map b"] by (auto simp: index_ok_def p_def)
  show ?thesis
  proof (cases "loc_side loc = Buy")
    case True
    then have q: "p \<in> set (bid_queue h b)" using l by simp
    then have buy: "side (h ! p) = Buy" using bid_queue_facts [OF ok] by blast
    obtain h' ls pls' A B where r: "unlink_at h (bids b) (limit_price (h ! p)) p = Some (h', ls)"
        "side_rep (>) (\<lambda>s. s = Buy) h' ls pls'" "bid_queue h b = A @ p # B" "queue pls' = A @ B"
        "cores h' = cores h" "same_outside (set (bid_queue h b)) h h'"
      using bid_side.unlink_at_rep [OF sides(1) q [unfolded bid_queue_def]]
      unfolding bid_queue_def by metis
    define b' where "b' = b\<lparr>bids := ls, order_map := um_erase (order_id (h ! p)) (order_map b)\<rparr>"
    have "cancel_and_get h b i = Some (Some p, h', b')"
      using loc True l r(1) by (simp add: cancel_and_get_def p_def b'_def)
    then show ?thesis
      using that [of h' b' A B] remove_bid [OF ok r(2-6) b'_def] r buy l q
      by (simp add: b'_def book_ptrs_def)
  next
    case False
    then have q: "p \<in> set (ask_queue h b)" using l by simp
    then have sell: "side (h ! p) \<noteq> Buy" using ask_queue_facts [OF ok] by blast
    obtain h' ls pls' A B where r: "unlink_at h (asks b) (limit_price (h ! p)) p = Some (h', ls)"
        "side_rep (<) (\<lambda>s. s \<noteq> Buy) h' ls pls'" "ask_queue h b = A @ p # B" "queue pls' = A @ B"
        "cores h' = cores h" "same_outside (set (ask_queue h b)) h h'"
      using ask_side.unlink_at_rep [OF sides(2) q [unfolded ask_queue_def]]
      unfolding ask_queue_def by metis
    define b' where "b' = b\<lparr>asks := ls, order_map := um_erase (order_id (h ! p)) (order_map b)\<rparr>"
    have "cancel_and_get h b i = Some (Some p, h', b')"
      using loc False l r(1) by (simp add: cancel_and_get_def p_def b'_def)
    then show ?thesis
      using that [of h' b' A B] remove_ask [OF ok r(2-6) b'_def] r sell l q
      by (simp add: b'_def book_ptrs_def)
  qed
qed

lemma peek_top_queue: "book_ok h b \<Longrightarrow> peek_top b s = opt_hd (side_queue h b s) None"
  using bid_side.top_of_rep [OF book_ok_sides(1)] ask_side.top_of_rep [OF book_ok_sides(2)]
  by (simp add: peek_top_def side_queue_def bid_queue_def ask_queue_def)

lemma pop_top_ok:
  assumes ok: "book_ok h b" and q: "side_queue h b s = p # qs"
  obtains h' b' where "pop_top h b s = Some (h', b')" and "book_ok h' b'"
    and "side_queue h' b' s = qs" and "side_queue h' b' (opposite s) = side_queue h b (opposite s)"
    and "cores h' = cores h" and "same_outside (book_ptrs h b) h h'"
    and "book_instrument b' = book_instrument b"
    and "order_map b' = um_erase (order_id (h ! p)) (order_map b)"
proof (cases "s = Buy")
  case True
  then have bq: "bid_queue h b = [] @ p # qs" using q by simp
  obtain h' ls pls' where r: "pop_best h (bids b) = Some (order_id (h ! p), h', ls)"
      "side_rep (>) (\<lambda>s. s = Buy) h' ls pls'" "queue pls' = [] @ qs"
      "cores h' = cores h" "same_outside (set (bid_queue h b)) h h'"
    using bid_side.pop_best_rep [OF book_ok_sides(1) [OF ok], of p qs] bq
    unfolding bid_queue_def by auto
  define b' where "b' = b\<lparr>bids := ls, order_map := um_erase (order_id (h ! p)) (order_map b)\<rparr>"
  have "pop_top h b s = Some (h', b')" using True r(1) by (simp add: pop_top_def b'_def)
  then show ?thesis
    using that [of h' b'] remove_bid [OF ok r(2) bq r(3-5) b'_def] r True by (simp add: b'_def)
next
  case False
  then have aq: "ask_queue h b = [] @ p # qs" using q by simp
  obtain h' ls pls' where r: "pop_best h (asks b) = Some (order_id (h ! p), h', ls)"
      "side_rep (<) (\<lambda>s. s \<noteq> Buy) h' ls pls'" "queue pls' = [] @ qs"
      "cores h' = cores h" "same_outside (set (ask_queue h b)) h h'"
    using ask_side.pop_best_rep [OF book_ok_sides(2) [OF ok], of p qs] aq
    unfolding ask_queue_def by auto
  define b' where "b' = b\<lparr>asks := ls, order_map := um_erase (order_id (h ! p)) (order_map b)\<rparr>"
  have "pop_top h b s = Some (h', b')" using False r(1) by (simp add: pop_top_def b'_def)
  then show ?thesis
    using that [of h' b'] remove_ask [OF ok r(2) aq r(3-5) b'_def] r False by (simp add: b'_def)
qed

end
