(* ===== verification/Latency.thy ===== *)
theory Latency
  imports Prelude
begin

text \<open>
  \<open>include/ordbk/utils/latency.hpp\<close>: the latency recorder. Each matcher owns one tracker and
  runs on one thread, so the atomics are plain counters here and the compare-exchange loop of
  \<open>record\<close> ends with the larger of the two values. The clock is an input: the functions that
  call \<open>now_ns\<close> take its readings as arguments.
\<close>

definition kThresholds :: "u64 list" where
  "kThresholds = [1000, 10000, 100000, 1000000]"

definition kBuckets :: nat where
  "kBuckets = 5"

record latency_tracker =
  lt_count :: u64
  lt_sum_ns :: u64
  lt_max_ns :: u64
  lt_hist :: "u64 list"

definition new_tracker :: latency_tracker where
  "new_tracker = \<lparr>lt_count = 0, lt_sum_ns = 0, lt_max_ns = 0, lt_hist = replicate kBuckets 0\<rparr>"

text \<open>The loop over the thresholds: the index of the first one above \<open>ns\<close>.\<close>

fun bucket_from :: "nat \<Rightarrow> u64 list \<Rightarrow> u64 \<Rightarrow> nat" where
  "bucket_from i [] ns = i"
| "bucket_from i (t # ts) ns = (if ns < t then i else bucket_from (Suc i) ts ns)"

definition bucket :: "u64 \<Rightarrow> nat" where
  "bucket ns = bucket_from 0 kThresholds ns"

definition record_latency :: "u64 \<Rightarrow> latency_tracker \<Rightarrow> latency_tracker" where
  "record_latency ns t = t\<lparr>
     lt_count := lt_count t + 1,
     lt_sum_ns := lt_sum_ns t + ns,
     lt_max_ns := (if ns > lt_max_ns t then ns else lt_max_ns t),
     lt_hist := (lt_hist t)[bucket ns := lt_hist t ! bucket ns + 1]\<rparr>"

record snapshot =
  sn_count :: u64
  sn_mean_ns :: u64
  sn_max_ns :: u64
  sn_hist :: "u64 list"

definition snapshot_of :: "latency_tracker \<Rightarrow> snapshot" where
  "snapshot_of t = \<lparr>sn_count = lt_count t,
     sn_mean_ns = (if lt_count t \<noteq> 0 then lt_sum_ns t div lt_count t else 0),
     sn_max_ns = lt_max_ns t, sn_hist = lt_hist t\<rparr>"

definition empty_snapshot :: snapshot where
  "empty_snapshot = \<lparr>sn_count = 0, sn_mean_ns = 0, sn_max_ns = 0, sn_hist = replicate kBuckets 0\<rparr>"

definition reset_tracker :: "latency_tracker \<Rightarrow> latency_tracker" where
  "reset_tracker t = t\<lparr>lt_count := 0, lt_sum_ns := 0, lt_max_ns := 0,
     lt_hist := map (\<lambda>_. 0) (lt_hist t)\<rparr>"

section \<open>The histogram counts every sample once\<close>

definition tracker_ok :: "latency_tracker \<Rightarrow> bool" where
  "tracker_ok t \<longleftrightarrow> length (lt_hist t) = kBuckets \<and> sum_list (lt_hist t) = lt_count t"

lemma bucket_less: "bucket ns < kBuckets"
  by (simp add: bucket_def kThresholds_def kBuckets_def)

lemma bucket_cases:
  "bucket ns = (if ns < 1000 then 0 else if ns < 10000 then 1 else if ns < 100000 then 2
     else if ns < 1000000 then 3 else 4)"
  by (simp add: bucket_def kThresholds_def)

lemma sum_list_incr:
  "i < length xs \<Longrightarrow> sum_list (xs[i := xs ! i + d]) = sum_list xs + (d :: 'a :: comm_monoid_add)"
proof (induction xs arbitrary: i)
  case (Cons x xs)
  then show ?case by (cases i) (auto simp: ac_simps)
qed simp

lemma new_tracker_ok [simp]: "tracker_ok new_tracker"
  by (simp add: tracker_ok_def new_tracker_def sum_list_replicate)

lemma record_latency_ok: "tracker_ok t \<Longrightarrow> tracker_ok (record_latency ns t)"
  using bucket_less [of ns] by (simp add: tracker_ok_def record_latency_def sum_list_incr)

lemma record_latency_max: "lt_max_ns (record_latency ns t) = max (lt_max_ns t) ns"
  by (auto simp: record_latency_def max_def)

text \<open>After any series of samples: the count, the sum, the maximum and the histogram.\<close>

definition record_all :: "u64 list \<Rightarrow> latency_tracker \<Rightarrow> latency_tracker" where
  "record_all xs t = fold record_latency xs t"

lemma record_all_simps [simp]:
  "record_all [] t = t" "record_all (x # xs) t = record_all xs (record_latency x t)"
  by (simp_all add: record_all_def)

lemma record_all_ok: "tracker_ok t \<Longrightarrow> tracker_ok (record_all xs t)"
  by (induction xs arbitrary: t) (simp_all add: record_latency_ok)

lemma record_all_count: "lt_count (record_all xs t) = lt_count t + of_nat (length xs)"
  by (induction xs arbitrary: t) (simp_all add: record_latency_def)

lemma record_all_sum: "lt_sum_ns (record_all xs t) = lt_sum_ns t + sum_list xs"
  by (induction xs arbitrary: t) (simp_all add: record_latency_def)

lemma record_all_max: "lt_max_ns (record_all xs t) = fold max xs (lt_max_ns t)"
  by (induction xs arbitrary: t) (simp_all add: record_latency_max max.commute)

lemma record_all_hist:
  assumes "length (lt_hist t) = kBuckets" and "i < kBuckets"
  shows "lt_hist (record_all xs t) ! i = lt_hist t ! i + of_nat (length (filter (\<lambda>x. bucket x = i) xs))"
  using assms(1)
proof (induction xs arbitrary: t)
  case (Cons x xs)
  then have "length (lt_hist (record_latency x t)) = kBuckets" by (simp add: record_latency_def)
  from Cons.IH [OF this] Cons.prems assms(2) show ?case by (auto simp: record_latency_def nth_list_update)
qed simp

lemma fold_max_bounds: "y \<le> fold max xs (y :: 'a :: linorder)" "x \<in> set xs \<Longrightarrow> x \<le> fold max xs y"
proof -
  show le: "y \<le> fold max xs y" for y
  proof (induction xs arbitrary: y)
    case (Cons a xs)
    from Cons.IH [of "max a y"] show ?case by simp
  qed simp
  show "x \<in> set xs \<Longrightarrow> x \<le> fold max xs y"
  proof (induction xs arbitrary: y)
    case (Cons a xs)
    have "max a y \<le> fold max xs (max a y)" for y
    proof (induction xs arbitrary: a y)
      case (Cons b xs)
      from Cons.IH [of b "max a y"] show ?case by (simp add: max.assoc)
    qed simp
    then show ?case using Cons by auto
  qed simp
qed

text \<open>
  As long as neither the number nor the sum of the samples overflows, a snapshot is exact: the
  number of samples, their mean rounded down, an upper bound that the mean does not exceed, and in each
  bucket the number of its samples.
\<close>

lemma snapshot_exact:
  assumes "length xs < 2 ^ 64" and "sum_list (map unat xs) < 2 ^ 64"
  defines "sn \<equiv> snapshot_of (record_all xs new_tracker)"
  shows "unat (sn_count sn) = length xs" and "unat (sn_mean_ns sn) = sum_list (map unat xs) div length xs"
    and "x \<in> set xs \<Longrightarrow> x \<le> sn_max_ns sn" and "sn_mean_ns sn \<le> sn_max_ns sn"
    and "i < kBuckets \<Longrightarrow> unat (sn_hist sn ! i) = length (filter (\<lambda>x. bucket x = i) xs)"
proof -
  have nat64: "unat (of_nat n :: u64) = n" if "n < 2 ^ 64" for n
    using that by (simp add: unsigned_of_nat take_bit_nat_eq_self)
  have sum: "(sum_list ys :: u64) = of_nat (sum_list (map unat ys))" for ys
    by (induction ys) simp_all
  have c: "lt_count (record_all xs new_tracker) = of_nat (length xs)" "lt_sum_ns (record_all xs new_tracker) = sum_list xs"
    by (simp_all add: record_all_count record_all_sum new_tracker_def)
  show cnt: "unat (sn_count sn) = length xs" using nat64 [OF assms(1)] by (simp add: sn_def snapshot_of_def c)
  have m: "sn_mean_ns sn = (if xs = [] then 0 else sum_list xs div of_nat (length xs))"
    using cnt by (auto simp: sn_def snapshot_of_def c)
  show mean: "unat (sn_mean_ns sn) = sum_list (map unat xs) div length xs"
    using nat64 [OF assms(1)] nat64 [OF assms(2)] by (simp add: m unat_div sum)
  show mx: "x \<le> sn_max_ns sn" if "x \<in> set xs" for x
    using fold_max_bounds(2) [OF that] by (simp add: sn_def snapshot_of_def record_all_max)
  have "sum_list (map unat xs) \<le> length xs * unat (sn_max_ns sn)"
    using sum_list_mono [of xs unat "\<lambda>_. unat (sn_max_ns sn)"] mx by (simp add: word_le_nat_alt sum_list_triv)
  then have "sum_list (map unat xs) div length xs \<le> unat (sn_max_ns sn)"
    by (cases "xs = []") (simp_all add: less_mult_imp_div_less div_le_mono order.trans [OF div_le_mono])
  then show "sn_mean_ns sn \<le> sn_max_ns sn" using mean by (simp add: word_le_nat_alt)
  have "length (filter (\<lambda>x. bucket x = i) xs) < 2 ^ 64"
    using assms(1) length_filter_le [of "\<lambda>x. bucket x = i" xs] by linarith
  then show "unat (sn_hist sn ! i) = length (filter (\<lambda>x. bucket x = i) xs)" if "i < kBuckets"
    using that record_all_hist [of new_tracker i xs] nat64 by (simp add: sn_def snapshot_of_def new_tracker_def)
qed

end
