(* ===== verification/Matcher.thy ===== *)
theory Matcher
  imports Order_Book Latency
begin

text \<open>
  \<open>include/ordbk/matching/matcher.hpp\<close> and \<open>src/matching/matcher.cpp\<close>: matching of one incoming
  order against one book. The book is owned by the matcher's slot in the engine; the pool is
  shared, so it is passed in and out. \<open>clk n\<close> is the n-th reading of the clock during the
  call.
\<close>

record matcher =
  m_book :: order_book
  m_stats :: latency_tracker

definition new_matcher :: "u32 \<Rightarrow> matcher" where
  "new_matcher i = \<lparr>m_book = new_book i, m_stats = new_tracker\<rparr>"

section \<open>Operations\<close>

definition prices_cross :: "side \<Rightarrow> i64 \<Rightarrow> i64 \<Rightarrow> bool" where
  "prices_cross taker_side taker_limit maker_price =
     (if taker_side = Buy then maker_price \<le> taker_limit else maker_price \<ge> taker_limit)"

subsection \<open>The fill-or-kill check\<close>

text \<open>
  The inner loop over one level: \<open>(True, _)\<close> is the early \<open>return true\<close>, \<open>(False, need)\<close> the
  end of the level.
\<close>

partial_function (option) fill_level :: "heap \<Rightarrow> ptr option \<Rightarrow> u64 \<Rightarrow> (bool \<times> u64) option" where
  "fill_level h cur need =
     (case cur of
        None \<Rightarrow> Some (False, need)
      | Some p \<Rightarrow> do {
          x \<leftarrow> deref h p;
          if remaining x \<ge> need then Some (True, need)
          else fill_level h (level_next x) (need - remaining x)
        })"

declare fill_level.simps [code]

fun fill_levels :: "heap \<Rightarrow> order \<Rightarrow> levels \<Rightarrow> u64 \<Rightarrow> bool option" where
  "fill_levels h taker [] need = Some (need = 0)"
| "fill_levels h taker ((price, l) # ls) need =
     (if order_type taker = Limit \<and> \<not> prices_cross (side taker) (limit_price taker) price
      then Some (need = 0)
      else do {
        (done, need') \<leftarrow> fill_level h (level_head l) need;
        if done then Some True else fill_levels h taker ls need'
      })"

definition can_fully_fill :: "heap \<Rightarrow> order_book \<Rightarrow> order \<Rightarrow> bool option" where
  "can_fully_fill h b taker =
     (if opposite (side taker) = Buy then fill_levels h taker (bids b) (remaining taker)
      else fill_levels h taker (asks b) (remaining taker))"

subsection \<open>The matching loop\<close>

text \<open>One round: the fill, the trade, and the fate of the maker.\<close>

definition match_once :: "pool \<Rightarrow> order_book \<Rightarrow> ptr \<Rightarrow> ptr \<Rightarrow> (pool \<times> order_book \<times> trade) option" where
  "match_once pl b tp mp =
     do {
       t \<leftarrow> deref (storage pl) tp;
       x \<leftarrow> deref (storage pl) mp;
       let fill = qty_min (remaining t) (remaining x);
       h1 \<leftarrow> modify_at (storage pl) tp (\<lambda>y. y\<lparr>filled_qty := filled_qty y + fill\<rparr>);
       h2 \<leftarrow> modify_at h1 mp (\<lambda>y. y\<lparr>filled_qty := filled_qty y + fill\<rparr>);
       let tr = \<lparr>maker_id = order_id x, taker_id = order_id t, trade_instrument = order_instrument t,
                 trade_price = limit_price x, trade_quantity = fill, trade_ts = ts t\<rparr>;
       x2 \<leftarrow> deref h2 mp;
       if is_fully_filled x2 then do {
         h3 \<leftarrow> modify_at h2 mp (\<lambda>y. y\<lparr>status := Filled\<rparr>);
         (h4, b') \<leftarrow> pop_top h3 b (opposite (side t));
         pl' \<leftarrow> pool_release (pl\<lparr>storage := h4\<rparr>) mp;
         Some (pl', b', tr)
       }
       else do {
         h3 \<leftarrow> modify_at h2 mp (\<lambda>y. y\<lparr>status := PartiallyFilled\<rparr>);
         Some (pl\<lparr>storage := h3\<rparr>, b, tr)
       }
     }"

partial_function (option) match_loop ::
  "pool \<Rightarrow> order_book \<Rightarrow> ptr \<Rightarrow> trade list \<Rightarrow> (pool \<times> order_book \<times> trade list) option" where
  "match_loop pl b tp trades =
     do {
       t \<leftarrow> deref (storage pl) tp;
       if remaining t > 0 then
         (case peek_top b (opposite (side t)) of
            None \<Rightarrow> Some (pl, b, trades)
          | Some mp \<Rightarrow> do {
              x \<leftarrow> deref (storage pl) mp;
              if order_type t = Limit \<and>
                 \<not> prices_cross (side t) (limit_price t) (limit_price x)
              then Some (pl, b, trades)
              else do {
                (pl', b', tr) \<leftarrow> match_once pl b tp mp;
                match_loop pl' b' tp (trades @ [tr])
              }
            })
       else Some (pl, b, trades)
     }"

declare match_loop.simps [code]

subsection \<open>Submitting and cancelling\<close>

definition submit_rejects :: "u32 \<Rightarrow> order \<Rightarrow> bool" where
  "submit_rejects instrument x \<longleftrightarrow>
     initial_qty x = 0 \<or> order_instrument x \<noteq> instrument \<or>
     (order_type x = Limit \<and> limit_price x \<le> 0) \<or>
     (order_type x = Market \<and> (tif x = GTC \<or> tif x = Day))"

text \<open>What happens to the taker after the loop: its status, and whether it rests.\<close>

definition settle :: "pool \<Rightarrow> order_book \<Rightarrow> ptr \<Rightarrow> (pool \<times> order_book) option" where
  "settle pl b p =
     do {
       x \<leftarrow> deref (storage pl) p;
       if is_fully_filled x then do {
         h \<leftarrow> modify_at (storage pl) p (\<lambda>y. y\<lparr>status := Filled\<rparr>);
         Some (pl\<lparr>storage := h\<rparr>, b)
       }
       else if order_type x = Market \<or> tif x = IOC then do {
         h \<leftarrow> modify_at (storage pl) p
           (\<lambda>y. y\<lparr>status := (if filled_qty y > 0 then PartiallyFilled else Cancelled)\<rparr>);
         Some (pl\<lparr>storage := h\<rparr>, b)
       }
       else do {
         h \<leftarrow> modify_at (storage pl) p
           (\<lambda>y. y\<lparr>status := (if filled_qty y > 0 then PartiallyFilled else New)\<rparr>);
         (h', b') \<leftarrow> add_resting h b p;
         Some (pl\<lparr>storage := h'\<rparr>, b')
       }
     }"

definition reject_order :: "pool \<Rightarrow> ptr \<Rightarrow> pool option" where
  "reject_order pl p =
     do {
       h \<leftarrow> modify_at (storage pl) p (\<lambda>y. y\<lparr>status := Rejected\<rparr>);
       Some (pl\<lparr>storage := h\<rparr>)
     }"

definition matcher_submit ::
  "(nat \<Rightarrow> u64) \<Rightarrow> pool \<Rightarrow> matcher \<Rightarrow> ptr \<Rightarrow> (pool \<times> matcher \<times> trade list) option" where
  "matcher_submit clk pl m p =
     do {
       x \<leftarrow> deref (storage pl) p;
       if submit_rejects (book_instrument (m_book m)) x then do {
         pl' \<leftarrow> reject_order pl p;
         Some (pl', m, [])
       }
       else do {
         fok_ok \<leftarrow> (if tif x = FOK then can_fully_fill (storage pl) (m_book m) x else Some True);
         if \<not> fok_ok then do {
           pl' \<leftarrow> reject_order pl p;
           Some (pl', m, [])
         }
         else do {
           (pl1, b1, trades) \<leftarrow> match_loop pl (m_book m) p [];
           (pl2, b2) \<leftarrow> settle pl1 b1 p;
           h \<leftarrow> modify_at (storage pl2) p (\<lambda>y. y\<lparr>match_complete_ns := sint (clk 1)\<rparr>);
           Some (pl2\<lparr>storage := h\<rparr>,
                 m\<lparr>m_book := b2, m_stats := record_latency (clk 2 - clk 0) (m_stats m)\<rparr>, trades)
         }
       }
     }"

definition matcher_cancel :: "pool \<Rightarrow> matcher \<Rightarrow> u64 \<Rightarrow> (bool \<times> pool \<times> matcher) option" where
  "matcher_cancel pl m i =
     do {
       (r, h, b) \<leftarrow> cancel_and_get (storage pl) (m_book m) i;
       case r of
         None \<Rightarrow> Some (False, pl\<lparr>storage := h\<rparr>, m\<lparr>m_book := b\<rparr>)
       | Some p \<Rightarrow> do {
           h' \<leftarrow> modify_at h p (\<lambda>y. y\<lparr>status := Cancelled\<rparr>);
           pl' \<leftarrow> pool_release (pl\<lparr>storage := h'\<rparr>) p;
           Some (True, pl', m\<lparr>m_book := b\<rparr>)
         }
     }"

definition cancel_all :: "pool \<Rightarrow> matcher \<Rightarrow> (pool \<times> matcher) option" where
  "cancel_all pl m =
     do {
       (pl', b) \<leftarrow> clear_and_drain
         (\<lambda>p pl. do {
            h \<leftarrow> modify_at (storage pl) p (\<lambda>y. y\<lparr>status := Cancelled\<rparr>);
            pool_release (pl\<lparr>storage := h\<rparr>) p
          }) pl (m_book m);
       Some (pl', m\<lparr>m_book := b\<rparr>)
     }"

section \<open>The reference matching algorithm\<close>

text \<open>
  Matching as a function of values: the incoming order and the list of the orders resting on
  the other side, best first. No pointers, no links, no pool.
\<close>

definition crosses :: "order \<Rightarrow> order \<Rightarrow> bool" where
  "crosses t x \<longleftrightarrow> order_type t \<noteq> Limit \<or> prices_cross (side t) (limit_price t) (limit_price x)"

definition mk_trade :: "order \<Rightarrow> order \<Rightarrow> u64 \<Rightarrow> trade" where
  "mk_trade t x q = \<lparr>maker_id = order_id x, taker_id = order_id t,
     trade_instrument = order_instrument t, trade_price = limit_price x,
     trade_quantity = q, trade_ts = ts t\<rparr>"

definition fill_order :: "u64 \<Rightarrow> order \<Rightarrow> order" where
  "fill_order q x = x\<lparr>filled_qty := filled_qty x + q\<rparr>"

fun match_ref :: "order \<Rightarrow> order list \<Rightarrow> order \<times> trade list \<times> order list" where
  "match_ref t [] = (t, [], [])"
| "match_ref t (x # xs) =
     (if remaining t = 0 \<or> \<not> crosses t x then (t, [], x # xs)
      else let q = min (remaining t) (remaining x) in
        if remaining x \<le> remaining t then
          (case match_ref (fill_order q t) xs of (t', trs, xs') \<Rightarrow> (t', mk_trade t x q # trs, xs'))
        else (fill_order q t, [mk_trade t x q], (fill_order q x)\<lparr>status := PartiallyFilled\<rparr> # xs))"

lemma fill_order_simps [simp]:
  "order_id (fill_order q x) = order_id x" "limit_price (fill_order q x) = limit_price x"
  "initial_qty (fill_order q x) = initial_qty x" "filled_qty (fill_order q x) = filled_qty x + q"
  "order_instrument (fill_order q x) = order_instrument x" "status (fill_order q x) = status x"
  "side (fill_order q x) = side x" "order_type (fill_order q x) = order_type x"
  "tif (fill_order q x) = tif x" "ts (fill_order q x) = ts x"
  "level_prev (fill_order q x) = level_prev x" "level_next (fill_order q x) = level_next x"
  "remaining (fill_order q x) = remaining x - q" "core (fill_order q x) = fill_order q (core x)"
  by (simp_all add: fill_order_def remaining_def)

lemma fully_filled_by_min:
  "is_fully_filled (fill_order (min (remaining t) (remaining x)) x) \<longleftrightarrow> remaining x \<le> remaining t"
  by (auto simp: is_fully_filled_def min_def remaining_def algebra_simps)

lemma crosses_core [simp]: "crosses (core t) x = crosses t x" "crosses t (core x) = crosses t x"
  by (simp_all add: crosses_def)

lemma mk_trade_core [simp]: "mk_trade (core t) x q = mk_trade t x q" "mk_trade t (core x) q = mk_trade t x q"
  by (simp_all add: mk_trade_def)

section \<open>The loop refines it\<close>

text \<open>
  The state the loop runs in: a sound book and pool, a taker that is in the slab but not in
  the book, and no slot of either on the free stack.
\<close>

definition match_pre :: "pool \<Rightarrow> order_book \<Rightarrow> ptr \<Rightarrow> bool" where
  "match_pre pl b tp \<longleftrightarrow> pool_ok pl \<and> book_ok (storage pl) b \<and> tp < length (storage pl) \<and>
     tp \<notin> book_ptrs (storage pl) b \<and>
     set (free_list pl) \<inter> insert tp (book_ptrs (storage pl) b) = {}"

abbreviation opp_queue :: "pool \<Rightarrow> order_book \<Rightarrow> ptr \<Rightarrow> ptr list" where
  "opp_queue pl b tp \<equiv> side_queue (storage pl) b (opposite (side (storage pl ! tp)))"

abbreviation own_queue :: "pool \<Rightarrow> order_book \<Rightarrow> ptr \<Rightarrow> ptr list" where
  "own_queue pl b tp \<equiv> side_queue (storage pl) b (side (storage pl ! tp))"

lemma book_ptrs_sides: "book_ptrs h b = set (side_queue h b s) \<union> set (side_queue h b (opposite s))"
  by (cases "s = Buy") (auto simp: book_ptrs_def)

lemma book_ok_sideq:
  assumes "book_ok h b"
  shows "distinct (side_queue h b s)" and "set (side_queue h b s) \<subseteq> {..<length h}"
    and "set (side_queue h b s) \<inter> set (side_queue h b (opposite s)) = {}"
proof -
  show "distinct (side_queue h b s)"
    using queues_distinct [OF assms] by (cases "s = Buy") auto
  show "set (side_queue h b s) \<subseteq> {..<length h}"
    using book_ptrs_range [OF assms] book_ptrs_sides [of h b s] by auto
  show "set (side_queue h b s) \<inter> set (side_queue h b (opposite s)) = {}"
    using queues_disjoint [OF assms] by (cases "s = Buy") auto
qed

text \<open>A change of two orders that leaves links, prices, sides and ids alone.\<close>

lemma fill_both_ok:
  assumes ok: "book_ok h b" and "tp < length h" "mp < length h" "tp \<noteq> mp"
    and h': "h' = h[tp := fill_order q (h ! tp), mp := (fill_order q (h ! mp))\<lparr>status := s\<rparr>]"
  shows "book_ok h' b" and "bid_queue h' b = bid_queue h b" and "ask_queue h' b = ask_queue h b"
    and "side_queue h' b z = side_queue h b z" and "book_ptrs h' b = book_ptrs h b"
proof -
  have "book_eq_on (book_ptrs h b) h h'"
    using assms(2-4) by (auto simp: book_eq_on_def h' nth_list_update)
  from book_ok_cong [OF ok this]
  show "book_ok h' b" "bid_queue h' b = bid_queue h b" "ask_queue h' b = ask_queue h b"
    "side_queue h' b z = side_queue h b z" "book_ptrs h' b = book_ptrs h b"
    by (auto simp: side_queue_def book_ptrs_def)
qed

lemma match_once_eval:
  fixes pl b tp mp
  defines "h \<equiv> storage pl"
  defines "q \<equiv> min (remaining (h ! tp)) (remaining (h ! mp))"
  assumes "tp < length h" "mp < length h" "tp \<noteq> mp"
  shows "match_once pl b tp mp =
    (if remaining (h ! mp) \<le> remaining (h ! tp) then do {
       (h4, b') \<leftarrow> pop_top (h[tp := fill_order q (h ! tp),
          mp := (fill_order q (h ! mp))\<lparr>status := Filled\<rparr>]) b (opposite (side (h ! tp)));
       pl' \<leftarrow> pool_release (pl\<lparr>storage := h4\<rparr>) mp;
       Some (pl', b', mk_trade (h ! tp) (h ! mp) q)
     }
     else Some (pl\<lparr>storage := h[tp := fill_order q (h ! tp),
        mp := (fill_order q (h ! mp))\<lparr>status := PartiallyFilled\<rparr>]\<rparr>, b, mk_trade (h ! tp) (h ! mp) q))"
proof -
  have full: "is_fully_filled (fill_order q (h ! mp)) \<longleftrightarrow> remaining (h ! mp) \<le> remaining (h ! tp)"
    unfolding q_def by (rule fully_filled_by_min)
  have "h[tp := fill_order q (h ! tp)] ! mp = h ! mp" using assms(5) by simp
  then show ?thesis
    using assms(3-5) full [unfolded fill_order_def q_def]
    by (simp add: match_once_def Let_def qty_min_eq h_def q_def mk_trade_def fill_order_def
        cong: if_cong)
qed

text \<open>The maker at the top is used up: fill both orders and take the maker off the book.\<close>

lemma fill_pop_ok:
  assumes ok: "book_ok h b" and tp: "tp < length h" "tp \<notin> book_ptrs h b"
    and opp: "side_queue h b s = mp # qs"
    and h3: "h3 = h[tp := fill_order q (h ! tp), mp := (fill_order q (h ! mp))\<lparr>status := Filled\<rparr>]"
  obtains h4 b' where "pop_top h3 b s = Some (h4, b')" and "book_ok h4 b'"
    and "side_queue h4 b' s = qs" and "side_queue h4 b' (opposite s) = side_queue h b (opposite s)"
    and "core (h4 ! tp) = fill_order q (core (h ! tp))" and "book_ptrs h4 b' = book_ptrs h b - {mp}"
    and "\<And>p. p < length h \<Longrightarrow> p \<noteq> tp \<Longrightarrow> p \<noteq> mp \<Longrightarrow> core (h4 ! p) = core (h ! p)"
    and "same_outside (insert tp (book_ptrs h b)) h h4"
    and "book_instrument b' = book_instrument b"
    and "order_map b' = um_erase (order_id (h ! mp)) (order_map b)"
proof -
  have mp: "mp < length h" "mp \<in> book_ptrs h b"
    using book_ok_sideq(2) [OF ok, of s] book_ptrs_sides [of h b s] opp by auto
  then have ne: "tp \<noteq> mp" using tp by auto
  note ok3 = fill_both_ok [OF ok tp(1) mp(1) ne h3]
  have so3: "same_outside (insert tp (book_ptrs h b)) h h3"
    unfolding h3 using mp
    by (intro same_outside_trans_same [OF same_outside_update same_outside_update]) auto
  have h3n: "length h3 = length h" "h3 ! tp = fill_order q (h ! tp)"
      "order_id (h3 ! mp) = order_id (h ! mp)"
    using tp mp ne by (auto simp: h3)
  have opp3: "side_queue h3 b s = mp # qs" using ok3 opp by simp
  obtain h4 b' where pop: "pop_top h3 b s = Some (h4, b')" "book_ok h4 b'" "side_queue h4 b' s = qs"
      "side_queue h4 b' (opposite s) = side_queue h3 b (opposite s)" "cores h4 = cores h3"
      "same_outside (book_ptrs h3 b) h3 h4" "book_instrument b' = book_instrument b"
      "order_map b' = um_erase (order_id (h3 ! mp)) (order_map b)"
    using pop_top_ok [OF ok3(1) opp3] by metis
  have "core (h4 ! p) = core (h3 ! p)" if "p < length h" for p
    using cores_nth [OF pop(5)] that h3n(1) by simp
  moreover have "same_outside (insert tp (book_ptrs h b)) h h4"
    by (rule same_outside_trans_same [OF so3 same_outside_mono [OF pop(6)]]) (use ok3(5) in auto)
  moreover have "book_ptrs h4 b' = book_ptrs h b - {mp}"
    using book_ptrs_sides [of h4 b' s] book_ptrs_sides [of h b s] pop(3,4) ok3(4) opp
      book_ok_sideq [OF ok, of s] by auto
  ultimately show ?thesis using that [OF pop(1-3)] pop ok3(4) h3n tp(1) by (auto simp: h3)
qed

lemma match_once_full:
  fixes pl b tp mp
  defines "h \<equiv> storage pl"
  defines "q \<equiv> min (remaining (h ! tp)) (remaining (h ! mp))"
  assumes pre: "match_pre pl b tp" and opp: "opp_queue pl b tp = mp # qs"
    and le: "remaining (h ! mp) \<le> remaining (h ! tp)"
  obtains pl' b' where "match_once pl b tp mp = Some (pl', b', mk_trade (h ! tp) (h ! mp) q)"
    and "match_pre pl' b' tp" and "core (storage pl' ! tp) = fill_order q (core (h ! tp))"
    and "opp_queue pl' b' tp = qs" and "own_queue pl' b' tp = own_queue pl b tp"
    and "free_list pl' = free_list pl @ [mp]"
    and "\<And>p. p < length h \<Longrightarrow> p \<noteq> tp \<Longrightarrow> p \<noteq> mp \<Longrightarrow> core (storage pl' ! p) = core (h ! p)"
    and "same_outside (insert tp (book_ptrs h b)) h (storage pl')"
    and "book_instrument b' = book_instrument b"
    and "order_map b' = um_erase (order_id (h ! mp)) (order_map b)"
    and "book_ptrs (storage pl') b' = book_ptrs h b - {mp}"
proof -
  let ?s = "side (h ! tp)"
  have ok: "book_ok h b" "pool_ok pl" and tp: "tp < length h" "tp \<notin> book_ptrs h b"
      and fr: "set (free_list pl) \<inter> insert tp (book_ptrs h b) = {}"
    using pre by (auto simp: match_pre_def h_def)
  have opp': "side_queue h b (opposite ?s) = mp # qs" using opp by (simp add: h_def)
  have mp: "mp < length h" "mp \<in> book_ptrs h b"
    using book_ok_sideq(2) [OF ok(1), of "opposite ?s"] book_ptrs_sides [of h b ?s] opp' by auto
  obtain h4 b' where pop:
      "pop_top (h[tp := fill_order q (h ! tp), mp := (fill_order q (h ! mp))\<lparr>status := Filled\<rparr>])
         b (opposite ?s) = Some (h4, b')"
      "book_ok h4 b'" "side_queue h4 b' (opposite ?s) = qs"
      "side_queue h4 b' (opposite (opposite ?s)) = side_queue h b (opposite (opposite ?s))"
      "core (h4 ! tp) = fill_order q (core (h ! tp))" "book_ptrs h4 b' = book_ptrs h b - {mp}"
      "\<And>p. p < length h \<Longrightarrow> p \<noteq> tp \<Longrightarrow> p \<noteq> mp \<Longrightarrow> core (h4 ! p) = core (h ! p)"
      "same_outside (insert tp (book_ptrs h b)) h h4" "book_instrument b' = book_instrument b"
      "order_map b' = um_erase (order_id (h ! mp)) (order_map b)"
    using fill_pop_ok [OF ok(1) tp opp' refl, of q] by metis
  have len: "length h4 = length h" using pop(8) by (rule same_outside_length)
  obtain pl' where rel: "pool_release (pl\<lparr>storage := h4\<rparr>) mp = Some pl'" "pool_ok pl'"
      "free_list pl' = free_list pl @ [mp]" "storage pl' = h4"
    using pool_release_some [of "pl\<lparr>storage := h4\<rparr>" mp] mp fr ok(2) len
    by (auto simp: pool_ok_storage h_def)
  have eval: "match_once pl b tp mp = Some (pl', b', mk_trade (h ! tp) (h ! mp) q)"
    using match_once_eval [of tp pl mp b] tp mp le pop(1) rel(1) by (auto simp: h_def q_def)
  have sd: "side (h4 ! tp) = ?s" using pop(5) by (metis core_simps(7) fill_order_simps(7))
  have own: "side_queue h4 b' ?s = side_queue h b ?s"
    using pop(3,4) opp' by (cases "?s = Buy") (auto simp: side_queue_def)
  have "match_pre pl' b' tp"
    using rel pop(2,6) tp fr len mp by (auto simp: match_pre_def)
  then show ?thesis
    using that [of pl' b'] eval rel pop sd own by (simp add: h_def)
qed

lemma match_once_partial:
  fixes pl b tp mp
  defines "h \<equiv> storage pl"
  assumes pre: "match_pre pl b tp" and opp: "opp_queue pl b tp = mp # qs"
    and gt: "\<not> remaining (h ! mp) \<le> remaining (h ! tp)"
  obtains pl' where "match_once pl b tp mp = Some (pl', b, mk_trade (h ! tp) (h ! mp) (remaining (h ! tp)))"
    and "match_pre pl' b tp" and "core (storage pl' ! tp) = fill_order (remaining (h ! tp)) (core (h ! tp))"
    and "core (storage pl' ! mp) =
      (fill_order (remaining (h ! tp)) (core (h ! mp)))\<lparr>status := PartiallyFilled\<rparr>"
    and "opp_queue pl' b tp = mp # qs" and "own_queue pl' b tp = own_queue pl b tp"
    and "free_list pl' = free_list pl"
    and "\<And>p. p < length h \<Longrightarrow> p \<noteq> tp \<Longrightarrow> p \<noteq> mp \<Longrightarrow> core (storage pl' ! p) = core (h ! p)"
    and "same_outside (insert tp (book_ptrs h b)) h (storage pl')"
    and "book_ptrs (storage pl') b = book_ptrs h b"
proof -
  let ?q = "remaining (h ! tp)"
  have ok: "book_ok h b" "pool_ok pl" and tp: "tp < length h" "tp \<notin> book_ptrs h b"
      and fr: "set (free_list pl) \<inter> insert tp (book_ptrs h b) = {}"
    using pre by (auto simp: match_pre_def h_def)
  have mp: "mp < length h" "mp \<in> book_ptrs h b"
    using book_ok_sideq(2) [OF ok(1), of "opposite (side (h ! tp))"]
      book_ptrs_sides [of h b "side (h ! tp)"] opp by (auto simp: h_def)
  then have ne: "tp \<noteq> mp" using tp by auto
  have min: "min ?q (remaining (h ! mp)) = ?q" using gt by simp
  define h3 where "h3 = h[tp := fill_order ?q (h ! tp),
    mp := (fill_order ?q (h ! mp))\<lparr>status := PartiallyFilled\<rparr>]"
  note ok3 = fill_both_ok [OF ok(1) tp(1) mp(1) ne h3_def]
  have h3: "length h3 = length h" "h3 ! tp = fill_order ?q (h ! tp)"
      "h3 ! mp = (fill_order ?q (h ! mp))\<lparr>status := PartiallyFilled\<rparr>"
      "\<And>p. p \<noteq> tp \<Longrightarrow> p \<noteq> mp \<Longrightarrow> h3 ! p = h ! p"
    using tp mp ne by (auto simp: h3_def)
  have eval: "match_once pl b tp mp = Some (pl\<lparr>storage := h3\<rparr>, b, mk_trade (h ! tp) (h ! mp) ?q)"
    using match_once_eval [of tp pl mp b] tp mp ne gt min by (simp add: h_def h3_def)
  have "match_pre (pl\<lparr>storage := h3\<rparr>) b tp"
    using pre ok3 h3(1) by (simp add: match_pre_def pool_ok_storage h_def)
  moreover have "same_outside (insert tp (book_ptrs h b)) h h3"
    unfolding h3_def using mp
    by (intro same_outside_trans_same [OF same_outside_update same_outside_update]) auto
  ultimately show ?thesis
    using that [of "pl\<lparr>storage := h3\<rparr>"] eval h3 ok3 opp by (simp add: h_def)
qed

text \<open>
  What the loop leaves behind, against the result \<open>(t', trs, xs')\<close> of the reference algorithm:
  the first \<open>n\<close> makers are gone from the book and back on the free stack, the others are
  those of the reference, and nothing else has changed but links.
\<close>

definition match_post ::
  "pool \<Rightarrow> order_book \<Rightarrow> ptr \<Rightarrow> order \<times> trade list \<times> order list \<Rightarrow> nat \<Rightarrow> pool \<Rightarrow> order_book \<Rightarrow> bool" where
  "match_post pl b tp r n pl' b' \<longleftrightarrow>
     (let h = storage pl; h' = storage pl'; q = opp_queue pl b tp in
      match_pre pl' b' tp \<and> core (h' ! tp) = fst r \<and> n \<le> length q \<and>
      opp_queue pl' b' tp = drop n q \<and> map (\<lambda>p. core (h' ! p)) (drop n q) = snd (snd r) \<and>
      own_queue pl' b' tp = own_queue pl b tp \<and>
      free_list pl' = free_list pl @ take n q \<and>
      (\<forall>p < length h. p \<notin> insert tp (set q) \<longrightarrow> core (h' ! p) = core (h ! p)) \<and>
      same_outside (insert tp (book_ptrs h b)) h h' \<and>
      book_instrument b' = book_instrument b \<and>
      order_map b' = fold um_erase (map (\<lambda>p. order_id (h ! p)) (take n q)) (order_map b))"

abbreviation maker_values :: "pool \<Rightarrow> order_book \<Rightarrow> ptr \<Rightarrow> order list" where
  "maker_values pl b tp \<equiv> map (\<lambda>p. core (storage pl ! p)) (opp_queue pl b tp)"

lemma match_post_refl:
  "match_pre pl b tp \<Longrightarrow>
   match_post pl b tp (core (storage pl ! tp), trs, maker_values pl b tp) 0 pl b"
  by (simp add: match_post_def)

lemma match_pre_range: "match_pre pl b tp \<Longrightarrow> set (opp_queue pl b tp) \<subseteq> {..<length (storage pl)}"
  using book_ok_sideq(2) by (simp add: match_pre_def)

text \<open>The loop stops at once where the reference does.\<close>

lemma match_loop_stop:
  assumes pre: "match_pre pl b tp"
    and stop: "remaining (storage pl ! tp) = 0 \<or> opp_queue pl b tp = [] \<or>
      \<not> crosses (storage pl ! tp) (storage pl ! hd (opp_queue pl b tp))"
  shows "match_loop pl b tp trades = Some (pl, b, trades)"
proof (cases "opp_queue pl b tp")
  case Nil
  then show ?thesis
    using pre peek_top_queue [of "storage pl" b "opposite (side (storage pl ! tp))"]
    by (subst match_loop.simps) (simp add: match_pre_def)
next
  case (Cons mp qs)
  then have "mp < length (storage pl)" using match_pre_range [OF pre] by auto
  then show ?thesis
    using pre stop Cons peek_top_queue [of "storage pl" b "opposite (side (storage pl ! tp))"]
    by (subst match_loop.simps) (auto simp: match_pre_def crosses_def word_pos_iff)
qed

lemma match_loop_step:
  assumes pre: "match_pre pl b tp" and opp: "opp_queue pl b tp = mp # qs"
    and go: "remaining (storage pl ! tp) \<noteq> 0" "crosses (storage pl ! tp) (storage pl ! mp)"
  shows "match_loop pl b tp trades =
    do { (pl', b', tr) \<leftarrow> match_once pl b tp mp; match_loop pl' b' tp (trades @ [tr]) }"
proof -
  have "mp < length (storage pl)" using match_pre_range [OF pre] opp by auto
  then show ?thesis
    using pre go opp peek_top_queue [of "storage pl" b "opposite (side (storage pl ! tp))"]
    by (subst match_loop.simps) (auto simp: match_pre_def crosses_def word_pos_iff)
qed

lemma match_post_cons:
  assumes pre: "match_pre pl b tp" and opp: "opp_queue pl b tp = mp # qs"
    and 1: "opp_queue pl1 b1 tp = qs" "own_queue pl1 b1 tp = own_queue pl b tp"
      "free_list pl1 = free_list pl @ [mp]"
      "\<And>p. p < length (storage pl) \<Longrightarrow> p \<noteq> tp \<Longrightarrow> p \<noteq> mp \<Longrightarrow> core (storage pl1 ! p) = core (storage pl ! p)"
      "same_outside (insert tp (book_ptrs (storage pl) b)) (storage pl) (storage pl1)"
      "book_instrument b1 = book_instrument b"
      "order_map b1 = um_erase (order_id (storage pl ! mp)) (order_map b)"
      "book_ptrs (storage pl1) b1 = book_ptrs (storage pl) b - {mp}"
    and post: "match_post pl1 b1 tp (t', trs, xs') n pl' b'"
  shows "match_post pl b tp (t', tr # trs, xs') (Suc n) pl' b'"
proof -
  have mem: "set (mp # qs) \<subseteq> {..<length (storage pl)}" and tpn: "tp \<notin> set (mp # qs)" and
      d: "distinct (mp # qs)"
    using match_pre_range [OF pre] pre opp book_ptrs_sides [of "storage pl" b "side (storage pl ! tp)"]
      book_ok_sideq(1) [of "storage pl" b "opposite (side (storage pl ! tp))"]
    by (auto simp: match_pre_def)
  have ids: "map (\<lambda>p. order_id (storage pl1 ! p)) (take n qs) = map (\<lambda>p. order_id (storage pl ! p)) (take n qs)"
  proof (rule map_cong [OF refl])
    fix p assume "p \<in> set (take n qs)"
    then have "p \<in> set qs" by (rule in_set_takeD)
    then have "core (storage pl1 ! p) = core (storage pl ! p)" using mem tpn d by (intro 1(4)) auto
    then show "order_id (storage pl1 ! p) = order_id (storage pl ! p)" by (rule core_fields)
  qed
  have len: "length (storage pl1) = length (storage pl)" using 1(5) by (rule same_outside_length)
  have "same_outside (insert tp (book_ptrs (storage pl) b)) (storage pl1) (storage pl')"
    using post by (auto simp: match_post_def Let_def 1(8) intro: same_outside_mono)
  then have "same_outside (insert tp (book_ptrs (storage pl) b)) (storage pl) (storage pl')"
    by (rule same_outside_trans_same [OF 1(5)])
  then show ?thesis
    using post opp 1 ids len by (auto simp: match_post_def Let_def)
qed

text \<open>The makers behind the first one do not change their values in a round.\<close>

lemma maker_tail_values:
  assumes pre: "match_pre pl b tp" and opp: "opp_queue pl b tp = mp # qs"
    and same: "\<And>p. p < length (storage pl) \<Longrightarrow> p \<noteq> tp \<Longrightarrow> p \<noteq> mp \<Longrightarrow> core (h' ! p) = core (storage pl ! p)"
  shows "map (\<lambda>p. core (h' ! p)) qs = map (\<lambda>p. core (storage pl ! p)) qs"
  using match_pre_range [OF pre] pre opp
    book_ok_sideq(1) [of "storage pl" b "opposite (side (storage pl ! tp))"]
    book_ptrs_sides [of "storage pl" b "side (storage pl ! tp)"]
  by (intro map_cong [OF refl] same) (auto simp: match_pre_def)

text \<open>\<open>refines pl b tp\<close>: the loop, started in this state, returns what the reference says.\<close>

definition refines :: "pool \<Rightarrow> order_book \<Rightarrow> ptr \<Rightarrow> bool" where
  "refines pl b tp \<longleftrightarrow> (\<forall>trades. \<exists>n pl' b'.
     match_loop pl b tp trades =
       Some (pl', b', trades @ fst (snd (match_ref (core (storage pl ! tp)) (maker_values pl b tp)))) \<and>
     match_post pl b tp (match_ref (core (storage pl ! tp)) (maker_values pl b tp)) n pl' b')"

lemma refines_stop:
  assumes pre: "match_pre pl b tp"
    and stop: "remaining (storage pl ! tp) = 0 \<or> opp_queue pl b tp = [] \<or>
      \<not> crosses (storage pl ! tp) (storage pl ! hd (opp_queue pl b tp))"
  shows "refines pl b tp"
proof -
  have "match_ref (core (storage pl ! tp)) (maker_values pl b tp) =
      (core (storage pl ! tp), [], maker_values pl b tp)"
    using stop by (cases "opp_queue pl b tp") auto
  then show ?thesis
    using match_loop_stop [OF pre stop] match_post_refl [OF pre, of "[]"] by (auto simp: refines_def)
qed

lemma refines_full:
  assumes pre: "match_pre pl b tp" and opp: "opp_queue pl b tp = mp # qs"
    and go: "remaining (storage pl ! tp) \<noteq> 0" "crosses (storage pl ! tp) (storage pl ! mp)"
      "remaining (storage pl ! mp) \<le> remaining (storage pl ! tp)"
    and IH: "\<And>pl b. opp_queue pl b tp = qs \<Longrightarrow> match_pre pl b tp \<Longrightarrow> refines pl b tp"
  shows "refines pl b tp"
proof -
  let ?t = "storage pl ! tp" and ?x = "storage pl ! mp"
  let ?tr = "mk_trade ?t ?x (min (remaining ?t) (remaining ?x))"
  obtain pl1 b1 where 1: "match_once pl b tp mp = Some (pl1, b1, ?tr)" "match_pre pl1 b1 tp"
      "core (storage pl1 ! tp) = fill_order (min (remaining ?t) (remaining ?x)) (core ?t)"
      "opp_queue pl1 b1 tp = qs" "own_queue pl1 b1 tp = own_queue pl b tp"
      "free_list pl1 = free_list pl @ [mp]"
      "\<And>p. p < length (storage pl) \<Longrightarrow> p \<noteq> tp \<Longrightarrow> p \<noteq> mp \<Longrightarrow> core (storage pl1 ! p) = core (storage pl ! p)"
      "same_outside (insert tp (book_ptrs (storage pl) b)) (storage pl) (storage pl1)"
      "book_instrument b1 = book_instrument b" "order_map b1 = um_erase (order_id ?x) (order_map b)"
      "book_ptrs (storage pl1) b1 = book_ptrs (storage pl) b - {mp}"
    using match_once_full [OF pre opp go(3)] by metis
  obtain t' trs xs' where r: "match_ref (core (storage pl1 ! tp)) (maker_values pl1 b1 tp) = (t', trs, xs')"
    by (metis prod_cases3)
  then have ref: "match_ref (core ?t) (maker_values pl b tp) = (t', ?tr # trs, xs')"
    using go opp 1(3,4) maker_tail_values [OF pre opp 1(7)] by simp
  show ?thesis
    unfolding refines_def ref
  proof
    fix trades
    obtain n pl' b' where "match_loop pl1 b1 tp (trades @ [?tr]) = Some (pl', b', (trades @ [?tr]) @ trs)"
        and "match_post pl1 b1 tp (t', trs, xs') n pl' b'"
      using spec [OF IH [OF 1(4,2), unfolded refines_def r], of "trades @ [?tr]"] by auto
    then show "\<exists>n pl' b'. match_loop pl b tp trades =
        Some (pl', b', trades @ fst (snd (t', ?tr # trs, xs'))) \<and>
        match_post pl b tp (t', ?tr # trs, xs') n pl' b'"
      using match_loop_step [OF pre opp go(1,2), of trades] 1(1)
        match_post_cons [OF pre opp 1(4-11)] by fastforce
  qed
qed

lemma refines_partial:
  assumes pre: "match_pre pl b tp" and opp: "opp_queue pl b tp = mp # qs"
    and go: "remaining (storage pl ! tp) \<noteq> 0" "crosses (storage pl ! tp) (storage pl ! mp)"
      "\<not> remaining (storage pl ! mp) \<le> remaining (storage pl ! tp)"
  shows "refines pl b tp"
proof -
  let ?t = "storage pl ! tp" and ?x = "storage pl ! mp"
  let ?tr = "mk_trade ?t ?x (remaining ?t)"
  obtain pl1 where 1: "match_once pl b tp mp = Some (pl1, b, ?tr)"
      "match_pre pl1 b tp" "core (storage pl1 ! tp) = fill_order (remaining ?t) (core ?t)"
      "core (storage pl1 ! mp) = (fill_order (remaining ?t) (core ?x))\<lparr>status := PartiallyFilled\<rparr>"
      "opp_queue pl1 b tp = mp # qs" "own_queue pl1 b tp = own_queue pl b tp"
      "free_list pl1 = free_list pl"
      "\<And>p. p < length (storage pl) \<Longrightarrow> p \<noteq> tp \<Longrightarrow> p \<noteq> mp \<Longrightarrow> core (storage pl1 ! p) = core (storage pl ! p)"
      "same_outside (insert tp (book_ptrs (storage pl) b)) (storage pl) (storage pl1)"
    using match_once_partial [OF pre opp go(3)] by metis
  have "remaining (storage pl1 ! tp) = 0"
    using arg_cong [OF 1(3), of remaining] by simp
  then have stop: "match_loop pl1 b tp (trades @ [?tr]) = Some (pl1, b, trades @ [?tr])" for trades
    using match_loop_stop [OF 1(2)] by blast
  have min: "min (remaining ?t) (remaining ?x) = remaining ?t" using go(3) by simp
  have ref: "match_ref (core ?t) (maker_values pl b tp) =
      (core (storage pl1 ! tp), [?tr], maker_values pl1 b tp)"
    using go opp 1(3-5) maker_tail_values [OF pre opp 1(8)] min by (simp add: Let_def)
  have "match_post pl b tp (core (storage pl1 ! tp), [?tr], maker_values pl1 b tp) 0 pl1 b"
    using 1 opp by (auto simp: match_post_def Let_def)
  then show ?thesis
    unfolding refines_def ref using match_loop_step [OF pre opp go(1,2)] 1(1) stop by auto
qed

lemma match_loop_refines: "match_pre pl b tp \<Longrightarrow> refines pl b tp"
proof (induction "opp_queue pl b tp" arbitrary: pl b)
  case Nil
  then show ?case by (intro refines_stop) auto
next
  case (Cons mp qs)
  note opp = Cons.hyps(2) [symmetric]
  show ?case
  proof (cases "remaining (storage pl ! tp) = 0 \<or> \<not> crosses (storage pl ! tp) (storage pl ! mp)")
    case True
    then show ?thesis using Cons.prems opp by (intro refines_stop) auto
  next
    case False
    then show ?thesis
      using refines_full [OF Cons.prems opp] refines_partial [OF Cons.prems opp] Cons.hyps(1) by metis
  qed
qed

end
