(* ===== verification/Matching.thy ===== *)
theory Matching
  imports Matcher
begin

text \<open>
  What matching guarantees. First the properties of the reference algorithm \<open>match_ref\<close> on
  values, then the fill-or-kill check, then \<open>Matcher::submit\<close>, \<open>cancel\<close> and \<open>cancel_all\<close> as
  a whole: the concrete operations refine an abstract book that is two lists of order values.
\<close>

section \<open>Properties of the reference algorithm\<close>

abbreviation left :: "order \<Rightarrow> nat" where
  "left x \<equiv> unat (remaining x)"

abbreviation volume :: "trade list \<Rightarrow> nat" where
  "volume trs \<equiv> sum_list (map (\<lambda>tr. unat (trade_quantity tr)) trs)"

abbreviation depth :: "order list \<Rightarrow> nat" where
  "depth xs \<equiv> sum_list (map left xs)"

lemma mk_trade_simps [simp]:
  "trade_quantity (mk_trade t x q) = q" "trade_price (mk_trade t x q) = limit_price x"
  "maker_id (mk_trade t x q) = order_id x" "taker_id (mk_trade t x q) = order_id t"
  "trade_instrument (mk_trade t x q) = order_instrument t" "trade_ts (mk_trade t x q) = ts t"
  by (simp_all add: mk_trade_def)

lemma remaining_status [simp]: "remaining (x\<lparr>status := s\<rparr>) = remaining x"
  by (simp add: remaining_def)

lemma crosses_fill_order [simp]: "crosses (fill_order q t) = crosses t"
  by (simp add: crosses_def fun_eq_iff)

text \<open>The identity of the taker is kept; only its filled quantity moves.\<close>

lemma match_ref_taker:
  "match_ref t xs = (t', trs, xs') \<Longrightarrow> \<exists>q. t' = fill_order q t"
proof (induction t xs arbitrary: t' trs xs' rule: match_ref.induct)
  case (1 t)
  then show ?case by (auto simp: fill_order_def intro!: exI [of _ 0])
next
  case (2 t x xs)
  show ?case
  proof (cases "remaining t = 0 \<or> \<not> crosses t x \<or> \<not> remaining x \<le> remaining t")
    case True
    then show ?thesis
      using "2.prems" by (auto simp: Let_def fill_order_def split: if_splits intro: exI [of _ 0])
  next
    case False
    let ?q = "min (remaining t) (remaining x)"
    obtain u vs ws where r: "match_ref (fill_order ?q t) xs = (u, vs, ws)" by (metis prod_cases3)
    then obtain q' where "u = fill_order q' (fill_order ?q t)"
      using "2.IH" [OF _ refl] False by blast
    moreover have "t' = u" using "2.prems" False r by (auto simp: Let_def)
    ultimately show ?thesis by (auto simp: fill_order_def add.assoc intro!: exI [of _ "?q + q'"])
  qed
qed

text \<open>Conservation: what is traded is what the taker and the makers lose.\<close>

lemma match_ref_conserves:
  "match_ref t xs = (t', trs, xs') \<Longrightarrow>
   left t = left t' + volume trs \<and> depth xs = depth xs' + volume trs"
proof (induction t xs arbitrary: t' trs xs' rule: match_ref.induct)
  case (2 t x xs)
  show ?case
  proof (cases "remaining t = 0 \<or> \<not> crosses t x")
    case True
    then show ?thesis using "2.prems" by auto
  next
    case go: False
    show ?thesis
    proof (cases "remaining x \<le> remaining t")
      case True
      obtain u vs ws where r: "match_ref (fill_order (remaining x) t) xs = (u, vs, ws)"
        by (metis prod_cases3)
      have min: "min (remaining t) (remaining x) = remaining x" using True by simp
      have "left (fill_order (remaining x) t) = left u + volume vs \<and> depth xs = depth ws + volume vs"
        using "2.IH" [OF _ refl True] go r min by simp
      moreover have "left (fill_order (remaining x) t) = left t - left x" "left x \<le> left t"
        using True by (simp_all add: unat_sub_le word_le_nat_alt)
      ultimately show ?thesis using "2.prems" go True r min by (auto simp: Let_def)
    next
      case False
      then have "left (fill_order (remaining t) x) = left x - left t" "left t \<le> left x"
        by (simp_all add: unat_sub_le word_le_nat_alt)
      then show ?thesis using "2.prems" go False by (auto simp: Let_def)
    qed
  qed
qed simp

text \<open>The loop stops only when the taker is filled or nothing more crosses.\<close>

lemma match_ref_stops:
  "match_ref t xs = (t', trs, xs') \<Longrightarrow> remaining t' = 0 \<or> xs' = [] \<or> \<not> crosses t (hd xs')"
proof (induction t xs arbitrary: t' trs xs' rule: match_ref.induct)
  case (2 t x xs)
  show ?case
  proof (cases "remaining t \<noteq> 0 \<and> crosses t x \<and> remaining x \<le> remaining t")
    case True
    obtain u vs ws where r: "match_ref (fill_order (min (remaining t) (remaining x)) t) xs = (u, vs, ws)"
      by (metis prod_cases3)
    then show ?thesis
      using "2.IH" [OF _ refl _ r] "2.prems" True by (auto simp: Let_def)
  next
    case False
    then show ?thesis using "2.prems" by (auto simp: Let_def min_def split: if_splits)
  qed
qed simp

text \<open>
  Price-time priority: the makers are served strictly from the front. All but the last one
  are used up, and the trades name them in order, at their own prices.
\<close>

lemma match_ref_priority:
  "match_ref t xs = (t', trs, xs') \<Longrightarrow>
   \<exists>n. n \<le> length xs \<and>
     ((xs' = drop n xs \<and> trs = map (\<lambda>x. mk_trade t x (remaining x)) (take n xs)) \<or>
      (\<exists>q. n < length xs \<and> 0 < q \<and> q < remaining (xs ! n) \<and> remaining t' = 0 \<and>
        xs' = (fill_order q (xs ! n))\<lparr>status := PartiallyFilled\<rparr> # drop (Suc n) xs \<and>
        trs = map (\<lambda>x. mk_trade t x (remaining x)) (take n xs) @ [mk_trade t (xs ! n) q]))"
proof (induction t xs arbitrary: t' trs xs' rule: match_ref.induct)
  case (1 t)
  then show ?case by simp
next
  case (2 t x xs)
  consider (stop) "remaining t = 0 \<or> \<not> crosses t x"
    | (full) "remaining t \<noteq> 0" "crosses t x" "remaining x \<le> remaining t"
    | (part) "remaining t \<noteq> 0" "crosses t x" "\<not> remaining x \<le> remaining t" by blast
  then show ?case
  proof cases
    case stop
    then show ?thesis using "2.prems" by (intro exI [of _ 0]) auto
  next
    case full
    let ?u = "fill_order (remaining x) t"
    have min: "min (remaining t) (remaining x) = remaining x" using full by simp
    obtain vs where r: "match_ref ?u xs = (t', vs, xs')" and trs: "trs = mk_trade t x (remaining x) # vs"
      using "2.prems" full min by (auto simp: Let_def split: prod.splits)
    have mk: "mk_trade ?u = mk_trade t" by (simp add: mk_trade_def fun_eq_iff)
    obtain n where n: "n \<le> length xs"
        "(xs' = drop n xs \<and> vs = map (\<lambda>x. mk_trade t x (remaining x)) (take n xs)) \<or>
         (\<exists>q. n < length xs \<and> 0 < q \<and> q < remaining (xs ! n) \<and> remaining t' = 0 \<and>
          xs' = (fill_order q (xs ! n))\<lparr>status := PartiallyFilled\<rparr> # drop (Suc n) xs \<and>
          vs = map (\<lambda>x. mk_trade t x (remaining x)) (take n xs) @ [mk_trade t (xs ! n) q])"
      using "2.IH" [OF _ refl full(3)] full r min mk by auto
    then show ?thesis using trs by (intro exI [of _ "Suc n"]) auto
  next
    case part
    then have "min (remaining t) (remaining x) = remaining t" by simp
    then have "t' = fill_order (remaining t) t" "trs = [mk_trade t x (remaining t)]"
        "xs' = (fill_order (remaining t) x)\<lparr>status := PartiallyFilled\<rparr> # xs"
      using "2.prems" part by (simp_all add: Let_def)
    then show ?thesis
      using part by (intro exI [of _ 0] conjI disjI2 exI [of _ "remaining t"])
        (simp_all add: word_neq_0_conv)
  qed
qed

text \<open>Every trade is at a price the taker accepts.\<close>

lemma match_ref_prices:
  "match_ref t xs = (t', trs, xs') \<Longrightarrow> tr \<in> set trs \<Longrightarrow> order_type t = Limit \<Longrightarrow>
   prices_cross (side t) (limit_price t) (trade_price tr)"
proof (induction t xs arbitrary: t' trs xs' rule: match_ref.induct)
  case (2 t x xs)
  show ?case
  proof (cases "remaining t \<noteq> 0 \<and> crosses t x \<and> remaining x \<le> remaining t")
    case True
    obtain u vs ws where r: "match_ref (fill_order (min (remaining t) (remaining x)) t) xs = (u, vs, ws)"
      by (metis prod_cases3)
    then have "tr = mk_trade t x (min (remaining t) (remaining x)) \<or> tr \<in> set vs"
      using "2.prems" True by (auto simp: Let_def)
    then show ?thesis
      using "2.IH" [OF _ refl _ r] "2.prems"(3) True by (auto simp: crosses_def)
  next
    case False
    then show ?thesis using "2.prems" by (auto simp: Let_def crosses_def split: if_splits)
  qed
qed simp

section \<open>The fill-or-kill check\<close>

text \<open>What the taker could trade against: the orders at the front that cross.\<close>

definition available :: "order \<Rightarrow> order list \<Rightarrow> nat" where
  "available t xs = depth (takeWhile (crosses t) xs)"

lemma available_simps [simp]:
  "available t [] = 0"
  "available t (x # xs) = (if crosses t x then left x + available t xs else 0)"
  by (simp_all add: available_def)

text \<open>The walk over one level, and over the ladder, as a walk over the queue.\<close>

fun fill_ref :: "order \<Rightarrow> order list \<Rightarrow> u64 \<Rightarrow> bool" where
  "fill_ref t [] need = (need = 0)"
| "fill_ref t (x # xs) need =
     (if \<not> crosses t x then need = 0
      else if remaining x \<ge> need then True
      else fill_ref t xs (need - remaining x))"

lemma fill_ref_available: "fill_ref t xs need \<longleftrightarrow> unat need \<le> available t xs"
proof (induction t xs need rule: fill_ref.induct)
  case (1 t need)
  then show ?case by (simp add: unat_eq_0)
next
  case (2 t x xs need)
  show ?case
  proof (cases "crosses t x \<and> \<not> remaining x \<ge> need")
    case True
    then have "left x < unat need" by (simp add: word_le_nat_alt)
    moreover have "unat (need - remaining x) = unat need - left x"
      using True by (metis linorder_le_cases unat_sub_le)
    ultimately show ?thesis using 2 True by auto
  next
    case False
    then show ?thesis by (auto simp: unat_eq_0 word_le_nat_alt)
  qed
qed

lemma fill_level_chain:
  assumes "chain h pv ps None" and "\<forall>p \<in> set ps. crosses t (h ! p)"
  shows "\<exists>d need'. fill_level h (opt_hd ps None) need = Some (d, need') \<and>
    fill_ref t (map ((!) h) ps @ ys) need = (d \<or> fill_ref t ys need')"
  using assms
proof (induction ps arbitrary: pv need)
  case Nil
  then show ?case by (subst fill_level.simps) (simp add: exI [of _ False])
next
  case (Cons p ps)
  show ?case
  proof (cases "remaining (h ! p) \<ge> need")
    case True
    then show ?thesis using Cons.prems by (subst fill_level.simps) (simp add: exI [of _ True])
  next
    case False
    obtain d need' where "fill_level h (opt_hd ps None) (need - remaining (h ! p)) = Some (d, need')"
        "fill_ref t (map ((!) h) ps @ ys) (need - remaining (h ! p)) = (d \<or> fill_ref t ys need')"
      using Cons.IH [of "Some p" "need - remaining (h ! p)"] Cons.prems by auto
    then show ?thesis using Cons.prems False by (subst fill_level.simps) simp
  qed
qed

lemma fill_levels_queue:
  assumes "list_all2 (level_ok P h) ls pls"
  shows "fill_levels h t ls need = Some (fill_ref t (map ((!) h) (queue pls)) need)"
  using assms
proof (induction arbitrary: need rule: list_all2_induct)
  case (Cons e ls f pls)
  obtain k l ps where e: "e = (k, l)" "f = (k, ps)" and lv: "level_ok P h (k, l) (k, ps)"
    using Cons.hyps(1) by (cases e; cases f) (auto simp: level_ok_def)
  have c: "chain h None ps None" "level_head l = opt_hd ps None" and ne: "ps \<noteq> []"
      and k: "\<forall>p \<in> set ps. limit_price (h ! p) = k"
    using lv by (auto simp: level_ok_def level_rep_def)
  show ?case
  proof (cases "order_type t = Limit \<and> \<not> prices_cross (side t) (limit_price t) k")
    case True
    then have "\<not> crosses t (h ! hd ps)" using k ne by (auto simp: crosses_def)
    then show ?thesis using True e ne by (cases ps) auto
  next
    case False
    then have "\<forall>p \<in> set ps. crosses t (h ! p)" using k by (auto simp: crosses_def)
    then obtain d need' where "fill_level h (opt_hd ps None) need = Some (d, need')"
        "fill_ref t (map ((!) h) ps @ map ((!) h) (queue pls)) need =
          (d \<or> fill_ref t (map ((!) h) (queue pls)) need')"
      using fill_level_chain [OF c(1)] by blast
    then show ?thesis using False e c(2) Cons.IH by (auto simp: bind_eq_Some_conv)
  qed
qed simp

lemma fill_ref_core: "fill_ref (core t) (map core xs) need = fill_ref t xs need"
  by (induction xs arbitrary: need) auto

lemma can_fully_fill_available:
  assumes ok: "book_ok h b"
  shows "can_fully_fill h b t = Some (left t \<le>
    available (core t) (map (\<lambda>p. core (h ! p)) (side_queue h b (opposite (side t)))))"
proof -
  have "can_fully_fill h b t =
      Some (fill_ref t (map ((!) h) (side_queue h b (opposite (side t)))) (remaining t))"
    using book_ok_sides [OF ok] fill_levels_queue
    by (cases "side t = Buy") (auto simp: can_fully_fill_def side_rep_def bid_queue_def ask_queue_def)
  then show ?thesis
    using fill_ref_core [of t "map ((!) h) (side_queue h b (opposite (side t)))" "remaining t"]
    by (simp add: fill_ref_available comp_def)
qed

text \<open>The check predicts the loop: the taker is filled if and only if enough is available.\<close>

lemma match_ref_fills_iff:
  "match_ref t xs = (t', trs, xs') \<Longrightarrow> remaining t' = 0 \<longleftrightarrow> left t \<le> available t xs"
proof (induction t xs arbitrary: t' trs xs' rule: match_ref.induct)
  case (1 t)
  then show ?case by (simp add: unat_eq_0)
next
  case (2 t x xs)
  consider (stop) "remaining t = 0 \<or> \<not> crosses t x"
    | (full) "remaining t \<noteq> 0" "crosses t x" "remaining x \<le> remaining t"
    | (part) "remaining t \<noteq> 0" "crosses t x" "\<not> remaining x \<le> remaining t" by blast
  then show ?case
  proof cases
    case stop
    then show ?thesis using "2.prems" by (auto simp: unat_eq_0)
  next
    case full
    let ?u = "fill_order (remaining x) t"
    have min: "min (remaining t) (remaining x) = remaining x" using full by simp
    obtain vs where r: "match_ref ?u xs = (t', vs, xs')"
      using "2.prems" full min by (auto simp: Let_def split: prod.splits)
    have "remaining t' = 0 \<longleftrightarrow> left ?u \<le> available ?u xs"
      using "2.IH" [OF _ refl full(3)] full r min by simp
    moreover have "left ?u = left t - left x" "left x \<le> left t"
      using full by (simp_all add: unat_sub_le word_le_nat_alt)
    moreover have "available ?u xs = available t xs" by (simp add: available_def)
    ultimately show ?thesis using full by auto
  next
    case part
    then have "left t \<le> left x" "min (remaining t) (remaining x) = remaining t"
      by (simp_all add: word_le_nat_alt)
    then show ?thesis using "2.prems" part by (auto simp: Let_def)
  qed
qed

text \<open>The volume traded: all that is available, up to the size of the order.\<close>

lemma match_ref_volume:
  "match_ref t xs = (t', trs, xs') \<Longrightarrow> volume trs = min (left t) (available t xs)"
proof (induction t xs arbitrary: t' trs xs' rule: match_ref.induct)
  case (1 t)
  then show ?case by simp
next
  case (2 t x xs)
  consider (stop) "remaining t = 0 \<or> \<not> crosses t x"
    | (full) "remaining t \<noteq> 0" "crosses t x" "remaining x \<le> remaining t"
    | (part) "remaining t \<noteq> 0" "crosses t x" "\<not> remaining x \<le> remaining t" by blast
  then show ?case
  proof cases
    case stop
    then show ?thesis using "2.prems" by (auto simp: unat_eq_0)
  next
    case full
    let ?u = "fill_order (remaining x) t"
    have min: "min (remaining t) (remaining x) = remaining x" using full by simp
    obtain vs where r: "match_ref ?u xs = (t', vs, xs')" and trs: "trs = mk_trade t x (remaining x) # vs"
      using "2.prems" full min by (auto simp: Let_def split: prod.splits)
    have "volume vs = min (left ?u) (available ?u xs)"
      using "2.IH" [OF _ refl full(3)] full r min by simp
    moreover have "left ?u = left t - left x" "left x \<le> left t"
      using full by (simp_all add: unat_sub_le word_le_nat_alt)
    moreover have "available ?u xs = available t xs" by (simp add: available_def)
    ultimately show ?thesis using full trs by auto
  next
    case part
    then have "left t \<le> left x" "min (remaining t) (remaining x) = remaining t"
      by (simp_all add: word_le_nat_alt)
    then show ?thesis using "2.prems" part by (auto simp: Let_def)
  qed
qed

section \<open>Submitting an order: the abstract book\<close>

text \<open>
  The abstract book is one list of order values per side, best first. \<open>insert_prio\<close> puts an
  order behind every order that is at least as good.
\<close>

fun insert_prio :: "order \<Rightarrow> order list \<Rightarrow> order list" where
  "insert_prio x [] = [x]"
| "insert_prio x (y # ys) =
     (if better (side x) (limit_price x) (limit_price y) then x # y # ys
      else y # insert_prio x ys)"

definition settle_status :: "order \<Rightarrow> order_status" where
  "settle_status t =
     (if is_fully_filled t then Filled
      else if order_type t = Market \<or> tif t = IOC
        then (if filled_qty t > 0 then PartiallyFilled else Cancelled)
      else (if filled_qty t > 0 then PartiallyFilled else New))"

definition rests :: "order \<Rightarrow> bool" where
  "rests t \<longleftrightarrow> \<not> is_fully_filled t \<and> \<not> (order_type t = Market \<or> tif t = IOC)"

definition spec_rejects :: "u32 \<Rightarrow> order \<Rightarrow> order list \<Rightarrow> bool" where
  "spec_rejects instr t opp \<longleftrightarrow>
     submit_rejects instr t \<or> (tif t = FOK \<and> \<not> left t \<le> available t opp)"

definition submit_spec ::
  "(nat \<Rightarrow> u64) \<Rightarrow> u32 \<Rightarrow> order \<Rightarrow> order list \<Rightarrow> order list \<Rightarrow>
   order \<times> trade list \<times> order list \<times> order list" where
  "submit_spec clk instr t own opp =
     (if spec_rejects instr t opp then (t\<lparr>status := Rejected\<rparr>, [], own, opp)
      else case match_ref t opp of (t1, trs, opp') \<Rightarrow>
        let t2 = t1\<lparr>status := settle_status t1, match_complete_ns := sint (clk 1)\<rparr> in
        (t2, trs, if rests t1 then insert_prio t2 own else own, opp'))"

text \<open>The abstraction function: the values of the orders resting on a side.\<close>

definition book_view :: "heap \<Rightarrow> order_book \<Rightarrow> side \<Rightarrow> order list" where
  "book_view h b s = map (\<lambda>p. core (h ! p)) (side_queue h b s)"

lemma insert_prio_split:
  assumes "\<forall>y \<in> set ys. \<not> better (side x) (limit_price x) (limit_price y)"
    and "\<forall>z \<in> set zs. better (side x) (limit_price x) (limit_price z)"
  shows "insert_prio x (ys @ zs) = ys @ x # zs"
  using assms
proof (induction ys)
  case Nil
  then show ?case by (cases zs) auto
qed simp

lemma settle_core [simp]:
  "settle_status (core t) = settle_status t" "rests (core t) = rests t"
  "submit_rejects i (core t) = submit_rejects i t"
  by (simp_all add: settle_status_def rests_def submit_rejects_def)

section \<open>Settling the taker\<close>

text \<open>
  The end of \<open>submit\<close>: the status, the resting of the remainder, and the completion time.
\<close>

definition finish :: "i64 \<Rightarrow> pool \<Rightarrow> order_book \<Rightarrow> ptr \<Rightarrow> (pool \<times> order_book) option" where
  "finish c pl b p =
     do {
       (pl2, b2) \<leftarrow> settle pl b p;
       h \<leftarrow> modify_at (storage pl2) p (\<lambda>y. y\<lparr>match_complete_ns := c\<rparr>);
       Some (pl2\<lparr>storage := h\<rparr>, b2)
     }"

lemma side_queue_cong:
  "book_ok h b \<Longrightarrow> book_eq_on (book_ptrs h b) h h' \<Longrightarrow> side_queue h' b s = side_queue h b s"
  using book_ok_cong(2,3) by (simp add: side_queue_def)

text \<open>The result of \<open>finish\<close> against the abstract book.\<close>

definition finish_post :: "i64 \<Rightarrow> pool \<Rightarrow> order_book \<Rightarrow> ptr \<Rightarrow> pool \<Rightarrow> order_book \<Rightarrow> bool" where
  "finish_post c pl b p pl' b' \<longleftrightarrow>
     (let h = storage pl; h' = storage pl'; t = h ! p; r = rests t in
      pool_ok pl' \<and> book_ok h' b' \<and>
      core (h' ! p) = (core t)\<lparr>status := settle_status t, match_complete_ns := c\<rparr> \<and>
      book_view h' b' (side t) =
        (if r then insert_prio (core (h' ! p)) (book_view h b (side t)) else book_view h b (side t)) \<and>
      book_view h' b' (opposite (side t)) = book_view h b (opposite (side t)) \<and>
      side_queue h' b' (opposite (side t)) = side_queue h b (opposite (side t)) \<and>
      book_ptrs h' b' = (if r then insert p (book_ptrs h b) else book_ptrs h b) \<and>
      free_list pl' = free_list pl \<and>
      (\<forall>q < length h. q \<noteq> p \<longrightarrow> core (h' ! q) = core (h ! q)) \<and>
      same_outside (insert p (book_ptrs h b)) h h' \<and>
      book_instrument b' = book_instrument b \<and>
      order_map b' = (if r then um_emplace (order_id t) \<lparr>loc_side = (if side t = Buy then Buy else Sell),
        loc_price = limit_price t, loc_order = p\<rparr> (order_map b) else order_map b))"

lemma book_view_cong:
  assumes "side_queue h' b' s = side_queue h b s"
    and "\<And>q. q \<in> set (side_queue h b s) \<Longrightarrow> core (h' ! q) = core (h ! q)"
  shows "book_view h' b' s = book_view h b s"
  using assms by (simp add: book_view_def)

lemma finish_leaves:
  assumes pre: "match_pre pl b p" and nr: "\<not> rests (storage pl ! p)"
  shows "\<exists>pl' b'. finish c pl b p = Some (pl', b') \<and> finish_post c pl b p pl' b'"
proof -
  let ?h = "storage pl" and ?t = "storage pl ! p"
  define h' where "h' = ?h[p := ?t\<lparr>status := settle_status ?t, match_complete_ns := c\<rparr>]"
  have ok: "book_ok ?h b" and p: "p < length ?h" "p \<notin> book_ptrs ?h b"
    using pre by (auto simp: match_pre_def)
  have so: "same_outside {p} ?h h'" unfolding h'_def by (rule same_outside_update) simp
  have bo: "book_ok h' b" "bid_queue h' b = bid_queue ?h b" "ask_queue h' b = ask_queue ?h b"
    using book_ok_outside [OF ok so] p by auto
  then have sq: "side_queue h' b s = side_queue ?h b s" for s by (simp add: side_queue_def)
  have hn: "h' ! q = ?h ! q" if "q \<noteq> p" for q using that by (simp add: h'_def)
  have view: "book_view h' b s = book_view ?h b s" for s
    using sq hn p(2) book_ptrs_sides [of ?h b s] by (intro book_view_cong) (auto, metis)
  have "finish c pl b p = Some (pl\<lparr>storage := h'\<rparr>, b)"
    using p nr by (auto simp: finish_def settle_def h'_def settle_status_def rests_def)
  moreover have "finish_post c pl b p (pl\<lparr>storage := h'\<rparr>) b"
    using pre nr bo sq view hn p so same_outside_mono [OF so, of "insert p (book_ptrs ?h b)"]
    by (auto simp: finish_post_def Let_def match_pre_def pool_ok_storage book_ptrs_def h'_def)
  ultimately show ?thesis by blast
qed

text \<open>
  Resting an order refines \<open>insert_prio\<close> on the abstract book, also when the values are read
  after a later write to the order itself.
\<close>

lemma add_resting_view:
  assumes ok: "book_ok h b" and p: "p < length h" "p \<notin> book_ptrs h b" and s: "s = side (h ! p)"
  obtains h' b' where "add_resting h b p = Some (h', b')" and "book_ok h' b'"
    and "\<forall>h''. (\<forall>q \<in> book_ptrs h b. core (h'' ! q) = core (h ! q)) \<longrightarrow>
      side (h'' ! p) = s \<longrightarrow> limit_price (h'' ! p) = limit_price (h ! p) \<longrightarrow>
      map (\<lambda>q. core (h'' ! q)) (side_queue h' b' s) = insert_prio (core (h'' ! p)) (book_view h b s)"
    and "side_queue h' b' (opposite s) = side_queue h b (opposite s)"
    and "book_ptrs h' b' = insert p (book_ptrs h b)" and "cores h' = cores h"
    and "same_outside (insert p (book_ptrs h b)) h h'" and "book_instrument b' = book_instrument b"
    and "order_map b' = um_emplace (order_id (h ! p))
      \<lparr>loc_side = (if s = Buy then Buy else Sell), loc_price = limit_price (h ! p), loc_order = p\<rparr>
      (order_map b)"
proof -
  obtain h' b' A B where r: "add_resting h b p = Some (h', b')" "book_ok h' b'"
      "side_queue h b s = A @ B" "side_queue h' b' s = A @ p # B"
      "\<forall>q \<in> set A. \<not> better s (limit_price (h ! p)) (limit_price (h ! q))"
      "\<forall>q \<in> set B. better s (limit_price (h ! p)) (limit_price (h ! q))"
      "side_queue h' b' (opposite s) = side_queue h b (opposite s)" "cores h' = cores h"
      "same_outside (insert p (book_ptrs h b)) h h'" "book_instrument b' = book_instrument b"
      "order_map b' = um_emplace (order_id (h ! p)) \<lparr>loc_side = (if s = Buy then Buy else Sell),
        loc_price = limit_price (h ! p), loc_order = p\<rparr> (order_map b)"
    by (rule add_resting_ok [OF ok p s])
  have mem: "set A \<subseteq> book_ptrs h b" "set B \<subseteq> book_ptrs h b"
    using r(3) book_ptrs_sides [of h b s] by auto
  have "map (\<lambda>q. core (h'' ! q)) (side_queue h' b' s) = insert_prio (core (h'' ! p)) (book_view h b s)"
    if c: "\<forall>q \<in> book_ptrs h b. core (h'' ! q) = core (h ! q)" and
      "side (h'' ! p) = s" "limit_price (h'' ! p) = limit_price (h ! p)" for h''
  proof -
    have "map (\<lambda>q. core (h'' ! q)) (A @ p # B) =
        map (\<lambda>q. core (h ! q)) A @ core (h'' ! p) # map (\<lambda>q. core (h ! q)) B"
      using mem c by (auto simp: subset_iff)
    also have "\<dots> = insert_prio (core (h'' ! p)) (map (\<lambda>q. core (h ! q)) A @ map (\<lambda>q. core (h ! q)) B)"
      using that r(5,6) by (intro insert_prio_split [symmetric]) auto
    finally show ?thesis using r(3,4) by (simp add: book_view_def)
  qed
  moreover have "book_ptrs h' b' = insert p (book_ptrs h b)"
    using r(3,4,7) book_ptrs_sides [of h' b' s] book_ptrs_sides [of h b s] by auto
  ultimately show ?thesis using that [OF r(1,2)] r by metis
qed

text \<open>Writing the status or the completion time of an order.\<close>

definition keeps_place :: "(order \<Rightarrow> order) \<Rightarrow> bool" where
  "keeps_place f \<longleftrightarrow> (\<forall>x. level_prev (f x) = level_prev x \<and> level_next (f x) = level_next x \<and>
     limit_price (f x) = limit_price x \<and> side (f x) = side x \<and> order_id (f x) = order_id x)"

lemma keeps_place_stamps [simp]:
  "keeps_place (\<lambda>x. x\<lparr>status := s\<rparr>)" "keeps_place (\<lambda>x. x\<lparr>match_complete_ns := c\<rparr>)"
  by (simp_all add: keeps_place_def)

lemma stamp_ok:
  assumes f: "keeps_place f" and ok: "book_ok h b" and p: "p < length h" and h': "h' = h[p := f (h ! p)]"
  shows "book_ok h' b" and "side_queue h' b s = side_queue h b s" and "book_ptrs h' b = book_ptrs h b"
    and "q \<noteq> p \<Longrightarrow> h' ! q = h ! q" and "h' ! p = f (h ! p)" and "same_outside {p} h h'"
proof -
  have "book_eq_on (book_ptrs h b) h h'" using p f by (auto simp: book_eq_on_def h' nth_list_update keeps_place_def)
  from book_ok_cong [OF ok this]
  show "book_ok h' b" "side_queue h' b s = side_queue h b s" "book_ptrs h' b = book_ptrs h b"
    by (auto simp: side_queue_def book_ptrs_def)
  show "q \<noteq> p \<Longrightarrow> h' ! q = h ! q" "h' ! p = f (h ! p)" using p by (simp_all add: h')
  show "same_outside {p} h h'" unfolding h' by (rule same_outside_update) simp
qed

lemma finish_rests:
  assumes pre: "match_pre pl b p" and r: "rests (storage pl ! p)"
  shows "\<exists>pl' b'. finish c pl b p = Some (pl', b') \<and> finish_post c pl b p pl' b'"
proof -
  let ?h = "storage pl" and ?t = "storage pl ! p"
  let ?s = "side ?t" and ?I = "insert p (book_ptrs (storage pl) b)"
  let ?f = "\<lambda>x. x\<lparr>status := settle_status ?t\<rparr>" and ?g = "\<lambda>x :: order. x\<lparr>match_complete_ns := c\<rparr>"
  have ok: "book_ok ?h b" and p: "p < length ?h" "p \<notin> book_ptrs ?h b"
    using pre by (auto simp: match_pre_def)
  define h1 where "h1 = ?h[p := ?f ?t]"
  note 1 = stamp_ok [OF keeps_place_stamps(1) ok p(1) h1_def]
  have p1: "p < length h1" "p \<notin> book_ptrs h1 b" "?s = side (h1 ! p)"
    using 1 p by (auto simp: h1_def)
  obtain h2 b' where add: "add_resting h1 b p = Some (h2, b')" "book_ok h2 b'"
      "\<forall>h''. (\<forall>q \<in> book_ptrs h1 b. core (h'' ! q) = core (h1 ! q)) \<longrightarrow> side (h'' ! p) = ?s \<longrightarrow>
        limit_price (h'' ! p) = limit_price (h1 ! p) \<longrightarrow>
        map (\<lambda>q. core (h'' ! q)) (side_queue h2 b' ?s) = insert_prio (core (h'' ! p)) (book_view h1 b ?s)"
      "side_queue h2 b' (opposite ?s) = side_queue h1 b (opposite ?s)"
      "book_ptrs h2 b' = insert p (book_ptrs h1 b)" "cores h2 = cores h1"
      "same_outside (insert p (book_ptrs h1 b)) h1 h2" "book_instrument b' = book_instrument b"
      "order_map b' = um_emplace (order_id (h1 ! p)) \<lparr>loc_side = (if ?s = Buy then Buy else Sell),
        loc_price = limit_price (h1 ! p), loc_order = p\<rparr> (order_map b)"
    by (rule add_resting_view [OF 1(1) p1])
  have p2: "p < length h2" using cores_length [OF add(6)] p1 by simp
  define h3 where "h3 = h2[p := ?g (h2 ! p)]"
  note 3 = stamp_ok [OF keeps_place_stamps(2) add(2) p2 h3_def]
  have c2: "core (h2 ! q) = core (h1 ! q)" if "q < length ?h" for q
    using cores_nth [OF add(6)] that by (simp add: h1_def)
  have c3: "core (h3 ! q) = core (?h ! q)" if "q < length ?h" "q \<noteq> p" for q
    using c2 [of q] that 1(4) 3(4) by simp
  have cp: "core (h3 ! p) = (core ?t)\<lparr>status := settle_status ?t, match_complete_ns := c\<rparr>"
    using c2 [OF p(1)] 1(5) 3(5) by simp
  have fp: "side (h3 ! p) = ?s" "limit_price (h3 ! p) = limit_price ?t"
    using arg_cong [OF cp, of side] arg_cong [OF cp, of limit_price] by simp_all
  have cb: "core (h3 ! q) = core (?h ! q)" "core (h1 ! q) = core (?h ! q)" if "q \<in> book_ptrs ?h b" for q
  proof -
    have "q \<noteq> p" "q < length ?h" using that p book_ptrs_range [OF ok] by auto
    then show "core (h3 ! q) = core (?h ! q)" "core (h1 ! q) = core (?h ! q)"
      using c3 1(4) by simp_all
  qed
  have view1: "book_view h1 b s = book_view ?h b s" for s
    using 1(2) cb(2) book_ptrs_sides [of ?h b s] by (intro book_view_cong) auto
  have "map (\<lambda>q. core (h3 ! q)) (side_queue h2 b' ?s) = insert_prio (core (h3 ! p)) (book_view h1 b ?s)"
    using fp 1(3,5) cb by (intro add(3) [rule_format]) auto
  then have own: "book_view h3 b' ?s = insert_prio (core (h3 ! p)) (book_view ?h b ?s)"
    using 3(2) view1 by (simp add: book_view_def)
  have opp: "book_view h3 b' (opposite ?s) = book_view ?h b (opposite ?s)"
    using add(4) 1(2) 3(2) cb(1) book_ptrs_sides [of ?h b ?s] by (intro book_view_cong) auto
  have so1: "same_outside ?I ?h h1" by (rule same_outside_mono [OF 1(6)]) simp
  have so2: "same_outside ?I h1 h2" using add(7) 1(3) by simp
  have so3: "same_outside ?I h2 h3" by (rule same_outside_mono [OF 3(6)]) simp
  have so: "same_outside ?I ?h h3"
    by (rule same_outside_trans_same [OF same_outside_trans_same [OF so1 so2] so3])
  have "finish c pl b p = Some (pl\<lparr>storage := h3\<rparr>, b')"
    using p r add(1) p2 by (auto simp: finish_def settle_def h1_def h3_def settle_status_def rests_def)
  moreover have "finish_post c pl b p (pl\<lparr>storage := h3\<rparr>) b'"
    using pre r 1(2,3,5) 3(1-3) own opp c3 cp so add(4,5,8,9) same_outside_length [OF so]
    by (auto simp: finish_post_def Let_def match_pre_def pool_ok_storage)
  ultimately show ?thesis by blast
qed

lemma finish_ok:
  "match_pre pl b p \<Longrightarrow> \<exists>pl' b'. finish c pl b p = Some (pl', b') \<and> finish_post c pl b p pl' b'"
  using finish_rests finish_leaves by blast

section \<open>Submit refines the abstract book\<close>

text \<open>
  \<open>submit_post\<close>: the abstraction commutes, the invariants hold again, and the frame: \<open>n\<close>
  makers left the book for the free stack, the taker rests or not, no other slot changed.
\<close>

definition submit_post ::
  "(nat \<Rightarrow> u64) \<Rightarrow> pool \<Rightarrow> order_book \<Rightarrow> ptr \<Rightarrow> pool \<Rightarrow> order_book \<Rightarrow> trade list \<Rightarrow> nat \<Rightarrow> bool" where
  "submit_post clk pl b p pl' b' trs n \<longleftrightarrow>
     (let h = storage pl; h' = storage pl'; t = core (h ! p); s = side t; q = opp_queue pl b p;
          rs = (\<not> spec_rejects (book_instrument b) t (book_view h b (opposite s)) \<and> rests (h' ! p)) in
      submit_spec clk (book_instrument b) t (book_view h b s) (book_view h b (opposite s)) =
        (core (h' ! p), trs, book_view h' b' s, book_view h' b' (opposite s)) \<and>
      pool_ok pl' \<and> book_ok h' b' \<and> n \<le> length q \<and> side_queue h' b' (opposite s) = drop n q \<and>
      free_list pl' = free_list pl @ take n q \<and>
      book_ptrs h' b' = (book_ptrs h b - set (take n q)) \<union> (if rs then {p} else {}) \<and>
      (\<forall>r < length h. r \<notin> insert p (set q) \<longrightarrow> core (h' ! r) = core (h ! r)) \<and>
      same_outside (insert p (book_ptrs h b)) h h' \<and>
      book_instrument b' = book_instrument b \<and>
      order_map b' = (let m1 = fold um_erase (map (\<lambda>p. order_id (h ! p)) (take n q)) (order_map b) in
        if rs then um_emplace (order_id t) \<lparr>loc_side = (if s = Buy then Buy else Sell),
          loc_price = limit_price t, loc_order = p\<rparr> m1 else m1))"

lemma submit_post_ok:
  assumes "match_pre pl b p" and "submit_post clk pl b p pl' b' trs n"
  shows "set (free_list pl') \<inter> book_ptrs (storage pl') b' = {}"
proof -
  let ?q = "opp_queue pl b p"
  have "set ?q \<subseteq> book_ptrs (storage pl) b" "p \<notin> set ?q"
    using assms(1) book_ptrs_sides [of "storage pl" b "side (storage pl ! p)"] by (auto simp: match_pre_def)
  then show ?thesis
    using assms by (auto simp: submit_post_def Let_def match_pre_def dest: in_set_takeD)
qed

lemma rests_stamp [simp]:
  "rests (x\<lparr>status := a\<rparr>) = rests x" "rests (x\<lparr>match_complete_ns := c\<rparr>) = rests x"
  by (simp_all add: rests_def is_fully_filled_def)

lemma reject_post:
  assumes pre: "match_pre pl b p"
    and rej: "spec_rejects (book_instrument b) (core (storage pl ! p)) (book_view (storage pl) b (opposite (side (storage pl ! p))))"
  shows "\<exists>pl'. reject_order pl p = Some pl' \<and> submit_post clk pl b p pl' b [] 0"
proof -
  let ?h = "storage pl"
  have ok: "book_ok ?h b" and p: "p < length ?h" "p \<notin> book_ptrs ?h b"
    using pre by (auto simp: match_pre_def)
  define h' where "h' = ?h[p := (?h ! p)\<lparr>status := Rejected\<rparr>]"
  note 1 = stamp_ok [OF keeps_place_stamps(1) ok p(1) h'_def]
  have view: "book_view h' b s = book_view ?h b s" for s
    using 1(2,4) p(2) book_ptrs_sides [of ?h b s] by (intro book_view_cong) (auto, metis)
  have "reject_order pl p = Some (pl\<lparr>storage := h'\<rparr>)"
    using p by (simp add: reject_order_def h'_def)
  moreover have "submit_post clk pl b p (pl\<lparr>storage := h'\<rparr>) b [] 0"
    using pre rej 1 view same_outside_mono [OF 1(6), of "insert p (book_ptrs ?h b)"]
      same_outside_length [OF 1(6)]
    by (auto simp: submit_post_def Let_def submit_spec_def match_pre_def pool_ok_storage)
  ultimately show ?thesis by blast
qed

lemma match_finish_post:
  assumes pre: "match_pre pl b p"
    and acc: "\<not> spec_rejects (book_instrument b) (core (storage pl ! p)) (book_view (storage pl) b (opposite (side (storage pl ! p))))"
    and r: "match_ref (core (storage pl ! p)) (maker_values pl b p) = (t1, trs, xs')"
    and 1: "match_post pl b p (t1, trs, xs') n pl1 b1"
    and 2: "finish_post (sint (clk 1)) pl1 b1 p pl2 b2"
  shows "submit_post clk pl b p pl2 b2 trs n"
proof -
  let ?h = "storage pl" and ?h1 = "storage pl1" and ?h2 = "storage pl2"
  let ?s = "side (?h ! p)" and ?q = "opp_queue pl b p"
  have t1: "core (?h1 ! p) = t1" using 1 by (simp add: match_post_def Let_def)
  obtain d where d: "t1 = fill_order d (core (?h ! p))" using match_ref_taker [OF r] by blast
  have s1: "side (?h1 ! p) = ?s" "limit_price (?h1 ! p) = limit_price (?h ! p)"
      "order_id (?h1 ! p) = order_id (?h ! p)"
    using arg_cong [OF t1, of side] arg_cong [OF t1, of limit_price] arg_cong [OF t1, of order_id] d
    by simp_all
  have pq: "p \<notin> set ?q" "set ?q \<subseteq> book_ptrs ?h b" "distinct ?q" "set ?q \<inter> set (own_queue pl b p) = {}"
    using pre book_ptrs_sides [of ?h b ?s] book_ok_sideq [of ?h b "opposite ?s"] book_ok_sideq(3) [of ?h b ?s]
    by (auto simp: match_pre_def)
  have own1: "book_view ?h1 b1 ?s = book_view ?h b ?s"
    using 1 s1 pre pq book_ok_sideq(2) [of ?h b ?s] book_ptrs_sides [of ?h b ?s]
    by (intro book_view_cong) (auto simp: match_post_def Let_def match_pre_def)
  have opp1: "book_view ?h1 b1 (opposite ?s) = xs'"
    using 1 s1 by (simp add: match_post_def Let_def book_view_def)
  have ptrs1: "book_ptrs ?h1 b1 = book_ptrs ?h b - set (take n ?q)"
  proof -
    have "set ?q = set (take n ?q) \<union> set (drop n ?q)" "set (take n ?q) \<inter> set (drop n ?q) = {}"
      using pq(3) by (metis append_take_drop_id set_append, metis append_take_drop_id distinct_append)
    then show ?thesis
      using 1 s1 pq(4) book_ptrs_sides [of ?h1 b1 ?s] book_ptrs_sides [of ?h b ?s]
      by (auto simp: match_post_def Let_def)
  qed
  have so: "same_outside (insert p (book_ptrs ?h b)) ?h ?h2"
  proof (rule same_outside_trans_same)
    show "same_outside (insert p (book_ptrs ?h b)) ?h ?h1" using 1 by (simp add: match_post_def Let_def)
    show "same_outside (insert p (book_ptrs ?h b)) ?h1 ?h2"
      using 2 ptrs1 by (auto simp: finish_post_def Let_def elim: same_outside_mono)
  qed
  have st: "settle_status (?h1 ! p) = settle_status t1" "rests (?h1 ! p) = rests t1"
    using t1 by (metis settle_core(1), metis settle_core(2))
  have t2: "core (?h2 ! p) = t1\<lparr>status := settle_status t1, match_complete_ns := sint (clk 1)\<rparr>"
    using 2 t1 st by (simp add: finish_post_def Let_def)
  have "rests (core (?h2 ! p)) = rests t1" unfolding t2 by simp
  then have rs: "rests (?h2 ! p) = rests t1" by simp
  have mv: "maker_values pl b p = book_view ?h b (opposite ?s)" by (simp add: book_view_def)
  have spec: "submit_spec clk (book_instrument b) (core (?h ! p)) (book_view ?h b ?s)
      (book_view ?h b (opposite ?s)) =
      (core (?h2 ! p), trs, book_view ?h2 b2 ?s, book_view ?h2 b2 (opposite ?s))"
    using acc r 2 s1 own1 opp1 t2 st rs mv by (simp add: submit_spec_def Let_def finish_post_def)
  have om1: "order_map b1 = fold um_erase (map (\<lambda>p. order_id (?h ! p)) (take n ?q)) (order_map b)"
      "free_list pl1 = free_list pl @ take n ?q" "n \<le> length ?q" "book_instrument b1 = book_instrument b"
      "\<forall>i < length ?h. i \<notin> insert p (set ?q) \<longrightarrow> core (?h1 ! i) = core (?h ! i)"
      "length ?h1 = length ?h" "side_queue ?h1 b1 (opposite ?s) = drop n ?q"
    using 1 s1 same_outside_length by (auto simp: match_post_def Let_def)
  show ?thesis
    unfolding submit_post_def Let_def
    using spec acc 2 om1 s1 ptrs1 so st rs pq(1) by (auto simp: finish_post_def Let_def)
qed

text \<open>\<open>Matcher::submit\<close> as a whole: it always returns, and does what the abstract book says.\<close>

lemma submit_refines:
  assumes pre: "match_pre pl (m_book m) p"
  obtains pl' m' trs n where "matcher_submit clk pl m p = Some (pl', m', trs)"
    and "submit_post clk pl (m_book m) p pl' (m_book m') trs n"
    and "m_stats m' = (if status (storage pl' ! p) = Rejected then m_stats m
      else record_latency (clk 2 - clk 0) (m_stats m))"
proof -
  let ?b = "m_book m" and ?h = "storage pl"
  let ?opp = "book_view ?h ?b (opposite (side (?h ! p)))"
  have ok: "book_ok ?h ?b" and p: "p < length ?h" using pre by (auto simp: match_pre_def)
  have fok: "can_fully_fill ?h ?b (?h ! p) = Some (left (?h ! p) \<le> available (core (?h ! p)) ?opp)"
    using can_fully_fill_available [OF ok] by (simp add: book_view_def)
  show ?thesis
  proof (cases "spec_rejects (book_instrument ?b) (core (?h ! p)) ?opp")
    case True
    obtain pl' where r: "reject_order pl p = Some pl'" "submit_post clk pl ?b p pl' ?b [] 0"
      using reject_post [OF pre True] by blast
    have "matcher_submit clk pl m p = Some (pl', m, [])"
      using True p r(1) fok by (auto simp: matcher_submit_def spec_rejects_def)
    moreover have "status (storage pl' ! p) = Rejected"
      using r(1) p by (auto simp: reject_order_def)
    ultimately show ?thesis using that r(2) by simp
  next
    case False
    obtain t1 trs xs' where ref: "match_ref (core (?h ! p)) (maker_values pl ?b p) = (t1, trs, xs')"
      by (metis prod_cases3)
    obtain n pl1 b1 where 1: "match_loop pl ?b p [] = Some (pl1, b1, trs)"
        "match_post pl ?b p (t1, trs, xs') n pl1 b1"
      using spec [OF match_loop_refines [OF pre, unfolded refines_def ref], of "[]"] by auto
    have "match_pre pl1 b1 p" using 1(2) by (simp add: match_post_def Let_def)
    then obtain pl2 b2 where 2: "finish (sint (clk 1)) pl1 b1 p = Some (pl2, b2)"
        "finish_post (sint (clk 1)) pl1 b1 p pl2 b2"
      using finish_ok by blast
    have "status (core (storage pl2 ! p)) \<noteq> Rejected"
      using 2(2) by (auto simp: finish_post_def Let_def settle_status_def)
    moreover have "matcher_submit clk pl m p = Some (pl2, m\<lparr>m_book := b2,
        m_stats := record_latency (clk 2 - clk 0) (m_stats m)\<rparr>, trs)"
      using False p fok 1(1) 2(1)
      by (auto simp: matcher_submit_def spec_rejects_def finish_def bind_eq_Some_conv)
    ultimately show ?thesis
      using that match_finish_post [where clk = clk, OF pre False ref 1(2) 2(2)] by simp
  qed
qed

end
