(* ===== verification/Cancelling.thy ===== *)
theory Cancelling
  imports Matching
begin

text \<open>
  \<open>Matcher::cancel\<close> and \<open>Matcher::cancel_all\<close>. A cancel takes exactly one order off the book and
  hands its slot back. \<open>cancel_all\<close> runs on \<open>OrderBook::clear_and_drain\<close>, whose loop body
  clears \<open>level_next\<close> before the iterator reads it: the theorems below say which orders that
  loop reaches.
\<close>

section \<open>The state of a matcher and the shared pool\<close>

definition matcher_ok :: "pool \<Rightarrow> order_book \<Rightarrow> bool" where
  "matcher_ok pl b \<longleftrightarrow> pool_ok pl \<and> book_ok (storage pl) b \<and>
     set (free_list pl) \<inter> book_ptrs (storage pl) b = {}"

lemma match_pre_matcher_ok:
  "match_pre pl b p \<longleftrightarrow> matcher_ok pl b \<and> p < length (storage pl) \<and>
     p \<notin> book_ptrs (storage pl) b \<and> p \<notin> set (free_list pl)"
  by (auto simp: match_pre_def matcher_ok_def)

section \<open>Cancelling one order\<close>

lemma matcher_cancel_miss:
  "book_find (m_book m) i = None \<Longrightarrow> matcher_cancel pl m i = Some (False, pl, m)"
  by (auto simp: matcher_cancel_def cancel_and_get_none book_find_def split: option.splits)

text \<open>
  The order found under the id leaves the book and its slot goes on the free stack; nothing
  else moves.
\<close>

definition cancel_post :: "pool \<Rightarrow> order_book \<Rightarrow> u64 \<Rightarrow> ptr \<Rightarrow> pool \<Rightarrow> order_book \<Rightarrow> bool" where
  "cancel_post pl b i p pl' b' \<longleftrightarrow>
     (let h = storage pl; h' = storage pl' in
      matcher_ok pl' b' \<and> order_id (h ! p) = i \<and> p \<in> book_ptrs h b \<and>
      (\<forall>s. side_queue h' b' s = removeAll p (side_queue h b s)) \<and>
      book_ptrs h' b' = book_ptrs h b - {p} \<and>
      free_list pl' = free_list pl @ [p] \<and>
      core (h' ! p) = (core (h ! p))\<lparr>status := Cancelled\<rparr> \<and>
      (\<forall>q < length h. q \<noteq> p \<longrightarrow> core (h' ! q) = core (h ! q)) \<and>
      same_outside (book_ptrs h b) h h' \<and>
      book_instrument b' = book_instrument b \<and>
      order_map b' = um_erase i (order_map b))"

lemma matcher_cancel_hit:
  assumes ok: "matcher_ok pl (m_book m)" and hit: "book_find (m_book m) i = Some p"
  shows "\<exists>pl' m'. matcher_cancel pl m i = Some (True, pl', m') \<and>
    cancel_post pl (m_book m) i p pl' (m_book m') \<and> m_stats m' = m_stats m"
proof -
  let ?h = "storage pl" and ?b = "m_book m"
  let ?s = "side (?h ! p)"
  have bo: "book_ok ?h ?b" and po: "pool_ok pl" and fr: "set (free_list pl) \<inter> book_ptrs ?h ?b = {}"
    using ok by (auto simp: matcher_ok_def)
  obtain loc where loc: "um_find (order_map ?b) i = Some loc" "p = loc_order loc"
    using hit by (auto simp: book_find_def split: option.splits)
  obtain h1 b1 A B where r: "cancel_and_get ?h ?b i = Some (Some p, h1, b1)" "book_ok h1 b1"
      "side_queue ?h ?b ?s = A @ p # B" "side_queue h1 b1 ?s = A @ B"
      "side_queue h1 b1 (opposite ?s) = side_queue ?h ?b (opposite ?s)"
      "cores h1 = cores ?h" "same_outside (book_ptrs ?h ?b) ?h h1"
      "book_instrument b1 = book_instrument ?b" "order_map b1 = um_erase i (order_map ?b)"
      "order_id (?h ! p) = i" "p \<in> book_ptrs ?h ?b"
    using cancel_and_get_some [OF bo loc(1)] loc(2) by metis
  have len: "length h1 = length ?h" using r(7) by (rule same_outside_length)
  have p: "p < length ?h" using r(11) book_ptrs_range [OF bo] by auto
  have d: "distinct (A @ p # B)" "p \<notin> set (side_queue ?h ?b (opposite ?s))"
    using r(3) book_ok_sideq(1,3) [OF bo, of ?s] by auto
  have rem: "side_queue h1 b1 s = removeAll p (side_queue ?h ?b s)" for s
    using r(3-5) d by (cases "s = Buy"; cases "?s = Buy") (auto simp: side_queue_def)
  define h2 where "h2 = h1[p := (h1 ! p)\<lparr>status := Cancelled\<rparr>]"
  note 2 = stamp_ok [OF keeps_place_stamps(1) r(2) p [folded len] h2_def]
  obtain pl' where rel: "pool_release (pl\<lparr>storage := h2\<rparr>) p = Some pl'" "pool_ok pl'"
      "free_list pl' = free_list pl @ [p]" "storage pl' = h2"
    using pool_release_some [of "pl\<lparr>storage := h2\<rparr>" p] p fr r(11) po len
    by (auto simp: pool_ok_storage h2_def)
  have c: "core (h1 ! q) = core (?h ! q)" if "q < length ?h" for q
    using cores_nth [OF r(6) that] .
  have ptrs: "book_ptrs h2 b1 = book_ptrs ?h ?b - {p}"
    using 2(3) rem [of Buy] rem [of Sell] by (auto simp: book_ptrs_def side_queue_def)
  have so: "same_outside (book_ptrs ?h ?b) ?h h2"
    using same_outside_trans_same [OF r(7) same_outside_mono [OF 2(6)]] r(11) by simp
  have eval: "matcher_cancel pl m i = Some (True, pl', m\<lparr>m_book := b1\<rparr>)"
    using r(1) p len rel(1) by (simp add: matcher_cancel_def h2_def)
  have "cancel_post pl ?b i p pl' b1"
    using 2 rem ptrs so rel c [OF p] c r fr
    by (auto simp: cancel_post_def Let_def matcher_ok_def)
  then show ?thesis using eval by simp
qed

section \<open>Draining\<close>

text \<open>The orders at the head of each level, best level first.\<close>

definition heads :: "ladder \<Rightarrow> ptr list" where
  "heads pls = map (\<lambda>(k, ps). hd ps) pls"

lemma heads_simps [simp]: "heads [] = []" "heads ((k, ps) # pls) = hd ps # heads pls"
  by (simp_all add: heads_def)

abbreviation cancel_callback :: "ptr \<Rightarrow> pool \<Rightarrow> pool option" where
  "cancel_callback \<equiv> \<lambda>p pl. do {
     h \<leftarrow> modify_at (storage pl) p (\<lambda>y. y\<lparr>status := Cancelled\<rparr>);
     pool_release (pl\<lparr>storage := h\<rparr>) p
   }"

lemma level_ok_fst: "level_ok P h (k, l) f \<Longrightarrow> \<exists>ps. f = (k, ps)"
  by (cases f) (simp add: level_ok_def)

lemma heads_subset: "list_all2 (level_ok P h) ls pls \<Longrightarrow> set (heads pls) \<subseteq> set (queue pls)"
  by (induction rule: list_all2_induct) (auto simp: level_ok_def)

text \<open>
  One level: the body runs on the head only, because it clears the link the iterator follows.
\<close>

lemma drain_level:
  assumes po: "pool_ok pl" and p: "p < length (storage pl)" "p \<notin> set (free_list pl)"
  defines "h' \<equiv> (storage pl)[p := (storage pl ! p)\<lparr>level_prev := None, level_next := None, status := Cancelled\<rparr>]"
  obtains pl' where "level_for storage (\<lambda>p pl. do {
        st \<leftarrow> modify_at (storage pl) p (\<lambda>x. x\<lparr>level_prev := None, level_next := None\<rparr>);
        cancel_callback p (pl\<lparr>storage := st\<rparr>)
      }) (Some p) pl = Some pl'"
    and "pool_ok pl'" and "free_list pl' = free_list pl @ [p]" and "storage pl' = h'"
proof -
  obtain pl' where "pool_release (pl\<lparr>storage := h'\<rparr>) p = Some pl'" "pool_ok pl'"
      "free_list pl' = free_list pl @ [p]" "storage pl' = h'"
    using pool_release_some [of "pl\<lparr>storage := h'\<rparr>" p] p po by (auto simp: pool_ok_storage h'_def)
  then show ?thesis using that p by (simp add: level_for_Some h'_def)
qed

lemma drain_levels_heads:
  assumes "list_all2 (level_ok P (storage pl)) ls pls" and "pool_ok pl" and "distinct (queue pls)"
    and "set (free_list pl) \<inter> set (queue pls) = {}"
  shows "\<exists>pl'. drain_levels cancel_callback ls pl = Some pl' \<and> pool_ok pl' \<and>
    free_list pl' = free_list pl @ heads pls \<and>
    same_outside (set (heads pls)) (storage pl) (storage pl') \<and>
    (\<forall>p \<in> set (heads pls). status (storage pl' ! p) = Cancelled)"
  using assms
proof (induction ls arbitrary: pls pl)
  case Nil
  then show ?case by simp
next
  case (Cons e ls)
  obtain k l ps pls' where e: "e = (k, l)" and pls: "pls = (k, ps) # pls'"
      and lv: "level_ok P (storage pl) (k, l) (k, ps)" "list_all2 (level_ok P (storage pl)) ls pls'"
    using Cons.prems(1) level_ok_fst
    by (cases e) (fastforce simp: list_all2_Cons1)
  obtain p ps' where ps: "ps = p # ps'" using lv(1) by (cases ps) (auto simp: level_ok_def)
  have hd: "level_head l = Some p" "p < length (storage pl)"
    using lv(1) ps level_rep_range [of "storage pl" l ps] by (auto simp: level_ok_def level_rep_def)
  have pf: "p \<notin> set (free_list pl)" "p \<notin> set (queue pls')" using Cons.prems(3,4) pls ps by auto
  obtain pl1 where 1: "level_for storage (\<lambda>p pl. do {
        st \<leftarrow> modify_at (storage pl) p (\<lambda>x. x\<lparr>level_prev := None, level_next := None\<rparr>);
        cancel_callback p (pl\<lparr>storage := st\<rparr>)
      }) (Some p) pl = Some pl1"
      "pool_ok pl1" "free_list pl1 = free_list pl @ [p]"
      "storage pl1 = (storage pl)[p := (storage pl ! p)\<lparr>level_prev := None, level_next := None, status := Cancelled\<rparr>]"
    by (rule drain_level [OF Cons.prems(2) hd(2) pf(1)])
  have so1: "same_outside {p} (storage pl) (storage pl1)"
    unfolding 1(4) by (rule same_outside_update) simp
  have "book_eq_on (set (queue pls')) (storage pl) (storage pl1)"
    using same_outside_book_eq [OF so1, of "set (queue pls')"] pf(2) lv(2)
    by (auto dest: levels_ok_queue)
  then have lv1: "list_all2 (level_ok P (storage pl1)) ls pls'" by (rule levels_ok_cong [OF lv(2)])
  obtain pl' where 2: "drain_levels cancel_callback ls pl1 = Some pl'" "pool_ok pl'"
      "free_list pl' = free_list pl1 @ heads pls'"
      "same_outside (set (heads pls')) (storage pl1) (storage pl')"
      "\<forall>p \<in> set (heads pls'). status (storage pl' ! p) = Cancelled"
    using Cons.IH [OF lv1 1(2)] Cons.prems(3,4) pls ps 1(3) by auto
  have "p \<notin> set (heads pls')" using heads_subset [OF lv(2)] pf(2) by auto
  then have "status (storage pl' ! p) = Cancelled"
    using same_outside_nth [OF 2(4)] hd(2) 1(4) by simp
  moreover have "same_outside (set (heads pls)) (storage pl) (storage pl')"
    using same_outside_trans [OF so1 2(4)] pls ps by simp
  ultimately show ?case using 1 2 e hd(1) pls ps by auto
qed

text \<open>
  \<open>cancel_all\<close> empties the book, but of each level only the order at the head is cancelled and
  its slot released. Every other order that was resting keeps its status and its slot is in
  no book and not on the free stack.
\<close>

lemma cancel_all_heads:
  assumes ok: "matcher_ok pl (m_book m)"
  defines "hs \<equiv> heads (side_view (storage pl) (bids (m_book m))) @ heads (side_view (storage pl) (asks (m_book m)))"
  obtains pl' m' where "cancel_all pl m = Some (pl', m')"
    and "m_book m' = new_book (book_instrument (m_book m))" and "m_stats m' = m_stats m"
    and "pool_ok pl'" and "free_list pl' = free_list pl @ hs"
    and "set hs \<subseteq> book_ptrs (storage pl) (m_book m)"
    and "same_outside (set hs) (storage pl) (storage pl')"
    and "\<forall>p \<in> set hs. status (storage pl' ! p) = Cancelled"
proof -
  let ?b = "m_book m" and ?h = "storage pl"
  let ?bv = "side_view ?h (bids ?b)" and ?av = "side_view ?h (asks ?b)"
  have po: "pool_ok pl" and bo: "book_ok ?h ?b" and fr: "set (free_list pl) \<inter> book_ptrs ?h ?b = {}"
    using ok by (auto simp: matcher_ok_def)
  have lb: "list_all2 (level_ok (\<lambda>s. s = Buy) ?h) (bids ?b) ?bv"
      and la: "list_all2 (level_ok (\<lambda>s. s \<noteq> Buy) ?h) (asks ?b) ?av"
      and db: "distinct (queue ?bv)" and da: "distinct (queue ?av)"
    using book_ok_sides [OF bo] by (auto simp: side_rep_def)
  have dj: "set (queue ?bv) \<inter> set (queue ?av) = {}"
    using queues_disjoint [OF bo] by (simp add: bid_queue_def ask_queue_def)
  have q: "set (queue ?bv) \<union> set (queue ?av) = book_ptrs ?h ?b"
    by (simp add: book_ptrs_def bid_queue_def ask_queue_def)
  have sub: "set (heads ?bv) \<subseteq> set (queue ?bv)" "set (heads ?av) \<subseteq> set (queue ?av)"
    using heads_subset lb la by blast+
  have frb: "set (free_list pl) \<inter> set (queue ?bv) = {}" and fra: "set (free_list pl) \<inter> set (queue ?av) = {}"
    using fr q by auto
  obtain pl1 where 1: "drain_levels cancel_callback (bids ?b) pl = Some pl1" "pool_ok pl1"
      "free_list pl1 = free_list pl @ heads ?bv" "same_outside (set (heads ?bv)) ?h (storage pl1)"
      "\<forall>p \<in> set (heads ?bv). status (storage pl1 ! p) = Cancelled"
    using drain_levels_heads [OF lb po db frb] by blast
  have "book_eq_on (set (queue ?av)) ?h (storage pl1)"
    by (rule same_outside_book_eq [OF 1(4)]) (use sub dj q book_ptrs_range [OF bo] in auto)
  then have la1: "list_all2 (level_ok (\<lambda>s. s \<noteq> Buy) (storage pl1)) (asks ?b) ?av"
    by (rule levels_ok_cong [OF la])
  have fr1: "set (free_list pl1) \<inter> set (queue ?av) = {}" using 1(3) fra sub(1) dj by auto
  obtain pl2 where 2: "drain_levels cancel_callback (asks ?b) pl1 = Some pl2" "pool_ok pl2"
      "free_list pl2 = free_list pl1 @ heads ?av" "same_outside (set (heads ?av)) (storage pl1) (storage pl2)"
      "\<forall>p \<in> set (heads ?av). status (storage pl2 ! p) = Cancelled"
    using drain_levels_heads [OF la1 1(2) da fr1] by blast
  have st: "status (storage pl2 ! p) = Cancelled" if "p \<in> set hs" for p
  proof (cases "p \<in> set (heads ?av)")
    case False
    then have "p \<in> set (heads ?bv)" "p < length (storage pl1)"
      using that sub q book_ptrs_range [OF bo] same_outside_length [OF 1(4)] by (auto simp: hs_def)
    then show ?thesis using 1(5) same_outside_nth [OF 2(4) False] by simp
  qed (use 2(5) in blast)
  have "cancel_all pl m = Some (pl2, m\<lparr>m_book := new_book (book_instrument ?b)\<rparr>)"
    using 1(1) 2(1) by (simp add: cancel_all_def clear_and_drain_def new_book_def)
  moreover have "same_outside (set hs) ?h (storage pl2)"
    using same_outside_trans [OF 1(4) 2(4)] by (simp add: hs_def)
  moreover have "set hs \<subseteq> book_ptrs ?h ?b" using sub q by (auto simp: hs_def)
  moreover have "free_list pl2 = free_list pl @ hs" using 1(3) 2(3) by (simp add: hs_def)
  ultimately show ?thesis
    using that [of pl2 "m\<lparr>m_book := new_book (book_instrument ?b)\<rparr>"] 2(2) st by simp
qed

end
