(* ===== verification/Book_Invariants.thy ===== *)
theory Book_Invariants
  imports Cancelling
begin

text \<open>
  The invariants the property tests of the repository check after every operation
  (\<open>tests/property/invariants_test.cpp\<close>): the book is never crossed, the index counts the resting
  orders, sides are kept apart, and quantity is conserved. Here they are preserved by
  \<open>Matcher::submit\<close> and \<open>Matcher::cancel\<close> from every sound state.
\<close>

section \<open>The invariants\<close>

definition uncrossed :: "order_book \<Rightarrow> bool" where
  "uncrossed b \<longleftrightarrow>
     (case best_bid b of None \<Rightarrow> True
      | Some x \<Rightarrow> (case best_ask b of None \<Rightarrow> True | Some y \<Rightarrow> x < y))"

text \<open>Every resting order has something left to trade.\<close>

definition live :: "heap \<Rightarrow> order_book \<Rightarrow> bool" where
  "live h b \<longleftrightarrow> (\<forall>p \<in> book_ptrs h b. filled_qty (h ! p) < initial_qty (h ! p))"

text \<open>Every resting order is found under its id.\<close>

definition indexed :: "heap \<Rightarrow> order_book \<Rightarrow> bool" where
  "indexed h b \<longleftrightarrow> (\<forall>p \<in> book_ptrs h b. book_find b (order_id (h ! p)) = Some p)"

definition book_inv :: "pool \<Rightarrow> order_book \<Rightarrow> bool" where
  "book_inv pl b \<longleftrightarrow> matcher_ok pl b \<and> uncrossed b \<and> live (storage pl) b \<and> indexed (storage pl) b"

section \<open>Best prices\<close>

lemma best_of_ladder:
  assumes "side_rep lt P h ls pls"
  shows "(case ls of [] \<Rightarrow> None | (k, l) # _ \<Rightarrow> Some k) =
    map_option (\<lambda>p. limit_price (h ! p)) (opt_hd (queue pls) None)"
proof (cases ls)
  case Nil
  then show ?thesis using side_rep_empty_iff [OF assms] by simp
next
  case (Cons e ls')
  then obtain k l f pls' where e: "e = (k, l)" "pls = f # pls'" "level_ok P h (k, l) f"
    using assms by (cases e) (auto simp: side_rep_def list_all2_Cons1)
  then obtain ps where f: "f = (k, ps)" using level_ok_fst by blast
  then have "ps \<noteq> []" "\<forall>p \<in> set ps. limit_price (h ! p) = k" using e by (auto simp: level_ok_def)
  then show ?thesis using Cons e f by (cases ps) auto
qed

lemma best_prices:
  assumes "book_ok h b"
  shows "best_bid b = map_option (\<lambda>p. limit_price (h ! p)) (opt_hd (bid_queue h b) None)"
    and "best_ask b = map_option (\<lambda>p. limit_price (h ! p)) (opt_hd (ask_queue h b) None)"
  using best_of_ladder [OF book_ok_sides(1) [OF assms]] best_of_ladder [OF book_ok_sides(2) [OF assms]]
  by (simp_all add: best_bid_def best_ask_def bid_queue_def ask_queue_def)

lemma prices_sorted:
  assumes "book_ok h b"
  shows "sorted_wrt (\<lambda>p q. limit_price (h ! q) \<le> limit_price (h ! p)) (bid_queue h b)"
    and "sorted_wrt (\<lambda>p q. limit_price (h ! p) \<le> limit_price (h ! q)) (ask_queue h b)"
  using bid_side.queue_sorted [OF book_ok_sides(1) [OF assms]]
    ask_side.queue_sorted [OF book_ok_sides(2) [OF assms]]
  by (simp_all add: bid_queue_def ask_queue_def not_less)

text \<open>The view of a side, from best to worst.\<close>

lemma view_sorted:
  "book_ok h b \<Longrightarrow> sorted_wrt (\<lambda>x y. \<not> better s (limit_price y) (limit_price x)) (book_view h b s)"
  using prices_sorted [of h b]
  by (cases "s = Buy") (auto simp: book_view_def sorted_wrt_map better_def not_less)

lemma uncrossed_iff:
  assumes ok: "book_ok h b"
  shows "uncrossed b \<longleftrightarrow> (\<forall>x \<in> set (book_view h b s). \<forall>y \<in> set (book_view h b (opposite s)).
    better s (limit_price y) (limit_price x))"
proof -
  have "uncrossed b \<longleftrightarrow> (\<forall>p \<in> set (bid_queue h b). \<forall>q \<in> set (ask_queue h b).
      limit_price (h ! p) < limit_price (h ! q))"
    using prices_sorted [OF ok]
    by (cases "bid_queue h b"; cases "ask_queue h b")
      (force simp: uncrossed_def best_prices [OF ok])+
  then show ?thesis by (cases "s = Buy") (auto simp: book_view_def better_def)
qed

section \<open>What matching keeps of the makers\<close>

text \<open>Any attribute that filling does not touch is the same for the makers that stay.\<close>

lemma match_ref_keeps:
  assumes "match_ref t xs = (t', trs, xs')"
    and "\<And>q x. f ((fill_order q x)\<lparr>status := PartiallyFilled\<rparr>) = f x"
  shows "map f xs' = drop (length xs - length xs') (map f xs)"
proof -
  obtain n where n: "n \<le> length xs" and
    "xs' = drop n xs \<or> (\<exists>q. n < length xs \<and>
       xs' = (fill_order q (xs ! n))\<lparr>status := PartiallyFilled\<rparr> # drop (Suc n) xs)"
    using match_ref_priority [OF assms(1)] by blast
  then show ?thesis
  proof (elim disjE exE conjE)
    assume "xs' = drop n xs"
    then show ?thesis using n by (simp add: drop_map)
  next
    fix q assume "n < length xs" "xs' = (fill_order q (xs ! n))\<lparr>status := PartiallyFilled\<rparr> # drop (Suc n) xs"
    then show ?thesis using assms(2) by (simp add: drop_map Cons_nth_drop_Suc [symmetric])
  qed
qed

lemma match_ref_live:
  assumes "match_ref t xs = (t', trs, xs')" and "\<forall>x \<in> set xs. filled_qty x < initial_qty x"
  shows "\<forall>x \<in> set xs'. filled_qty x < initial_qty x"
proof -
  obtain n where n: "n \<le> length xs" and
    "xs' = drop n xs \<or> (\<exists>q. n < length xs \<and> q < remaining (xs ! n) \<and>
       xs' = (fill_order q (xs ! n))\<lparr>status := PartiallyFilled\<rparr> # drop (Suc n) xs)"
    using match_ref_priority [OF assms(1)] by blast
  then show ?thesis
  proof (elim disjE exE conjE)
    assume "xs' = drop n xs"
    then show ?thesis using assms(2) by (auto dest: in_set_dropD)
  next
    fix q assume q: "n < length xs" "q < remaining (xs ! n)"
      and xs': "xs' = (fill_order q (xs ! n))\<lparr>status := PartiallyFilled\<rparr> # drop (Suc n) xs"
    let ?x = "xs ! n"
    have "remaining ?x \<le> initial_qty ?x" using assms(2) q(1) by (simp add: filled_less_iff)
    moreover have "unat (remaining ?x - q) = left ?x - unat q" "unat q < left ?x"
      using q(2) by (simp_all add: unat_sub_le less_imp_le word_less_nat_alt [symmetric])
    ultimately have "remaining (fill_order q ?x) \<noteq> 0 \<and> remaining (fill_order q ?x) \<le> initial_qty ?x"
      using q(2) by (auto simp: word_le_nat_alt)
    then have "filled_qty (fill_order q ?x) < initial_qty (fill_order q ?x)"
      unfolding filled_less_iff by simp
    then show ?thesis using xs' assms(2) by (auto dest: in_set_dropD)
  qed
qed

lemma match_ref_taker_bound:
  assumes "match_ref t xs = (t', trs, xs')"
  shows "remaining t' \<le> remaining t" and "initial_qty t' = initial_qty t"
    and "order_id t' = order_id t" and "side t' = side t" and "limit_price t' = limit_price t"
    and "order_type t' = order_type t" and "tif t' = tif t"
  using match_ref_conserves [OF assms] match_ref_taker [OF assms] by (auto simp: word_le_nat_alt)

section \<open>Preservation on the abstract book\<close>

lemma set_insert_prio [simp]: "set (insert_prio x ys) = insert x (set ys)"
  by (induction ys) auto

lemma submit_spec_cases:
  assumes "submit_spec clk i t own opp = (t', trs, own', opp')"
  obtains (reject) "spec_rejects i t opp" "t' = t\<lparr>status := Rejected\<rparr>" "trs = []" "own' = own" "opp' = opp"
  | (accept) t1 where "\<not> spec_rejects i t opp" "match_ref t opp = (t1, trs, opp')"
      "t' = t1\<lparr>status := settle_status t1, match_complete_ns := sint (clk 1)\<rparr>"
      "own' = (if rests t1 then insert_prio t' own else own)"
  using assms by (auto simp: submit_spec_def Let_def split: if_splits prod.splits)

lemma submit_spec_id:
  "submit_spec clk i t own opp = (t', trs, own', opp') \<Longrightarrow> order_id t' = order_id t"
  by (erule submit_spec_cases) (simp_all add: match_ref_taker_bound(3))

lemma not_prices_cross: "\<not> prices_cross s a b \<longleftrightarrow> better s b a"
  by (auto simp: prices_cross_def better_def)

definition apart :: "side \<Rightarrow> order list \<Rightarrow> order list \<Rightarrow> bool" where
  "apart s own opp \<longleftrightarrow> (\<forall>x \<in> set own. \<forall>y \<in> set opp. better s (limit_price y) (limit_price x))"

lemma spec_apart:
  assumes spec: "submit_spec clk i t own opp = (t', trs, own', opp')"
    and ap: "apart (side t) own opp"
    and srt: "sorted_wrt (\<lambda>x y. \<not> better (opposite (side t)) (limit_price y) (limit_price x)) opp'"
  shows "apart (side t) own' opp'"
  using spec
proof (cases rule: submit_spec_cases)
  case reject
  then show ?thesis using ap by simp
next
  case (accept t1)
  note tb = match_ref_taker_bound [OF accept(2)]
  have "map limit_price opp' = drop (length opp - length opp') (map limit_price opp)"
    by (rule match_ref_keeps [OF accept(2)]) simp
  then have "limit_price ` set opp' \<subseteq> limit_price ` set opp"
    by (metis list.set_map set_drop_subset)
  then have old: "apart (side t) own opp'" using ap by (fastforce simp: apart_def)
  have "better (side t) (limit_price y) (limit_price t')" if "rests t1" "y \<in> set opp'" for y
  proof -
    have "\<not> crosses t (hd opp')"
      using match_ref_stops [OF accept(2)] that by (auto simp: rests_def remaining_0_iff)
    then have "better (side t) (limit_price (hd opp')) (limit_price t)"
      by (auto simp: crosses_def not_prices_cross)
    moreover have "y = hd opp' \<or> \<not> better (opposite (side t)) (limit_price y) (limit_price (hd opp'))"
      using srt that(2) by (cases opp') auto
    ultimately show ?thesis using accept(3) tb(5) by (auto simp: better_def split: if_splits)
  qed
  then show ?thesis using old accept(4) by (auto simp: apart_def)
qed

lemma spec_live:
  assumes spec: "submit_spec clk i t own opp = (t', trs, own', opp')"
    and lv: "\<forall>x \<in> set own \<union> set opp. filled_qty x < initial_qty x" and t: "filled_qty t \<le> initial_qty t"
  shows "\<forall>x \<in> set own' \<union> set opp'. filled_qty x < initial_qty x"
  using spec
proof (cases rule: submit_spec_cases)
  case reject
  then show ?thesis using lv by simp
next
  case (accept t1)
  note tb = match_ref_taker_bound [OF accept(2)]
  have "remaining t1 \<le> initial_qty t1" using tb(1,2) t by (metis filled_le_iff order_trans)
  then have "rests t1 \<Longrightarrow> filled_qty t1 < initial_qty t1"
    by (auto simp: filled_less_iff rests_def remaining_0_iff)
  moreover have "\<forall>x \<in> set opp'. filled_qty x < initial_qty x"
    using match_ref_live [OF accept(2)] lv by auto
  ultimately show ?thesis using lv accept(3,4) by auto
qed

section \<open>Preservation by the matcher\<close>

text \<open>The ids of the orders that stay on the book do not change.\<close>

lemma submit_ids:
  assumes pre: "match_pre pl b p" and post: "submit_post clk pl b p pl' b' trs n"
    and r: "r \<in> book_ptrs (storage pl) b - set (take n (opp_queue pl b p))"
  shows "order_id (storage pl' ! r) = order_id (storage pl ! r)"
proof -
  let ?h = "storage pl" and ?h' = "storage pl'" and ?q = "opp_queue pl b p" and ?s = "side (storage pl ! p)"
  note P = post [unfolded submit_post_def Let_def]
  have rl: "r < length ?h" "r \<noteq> p" using r pre book_ptrs_range by (auto simp: match_pre_def)
  show ?thesis
  proof (cases "r \<in> set ?q")
    case False
    then have "core (?h' ! r) = core (?h ! r)" using P rl by simp
    then show ?thesis by (rule core_fields)
  next
    case True
    have "set ?q = set (take n ?q) \<union> set (drop n ?q)" by (metis append_take_drop_id set_append)
    then have rd: "r \<in> set (drop n ?q)" using True r by blast
    obtain t' own' where spec: "submit_spec clk (book_instrument b) (core (?h ! p)) (book_view ?h b ?s)
        (book_view ?h b (opposite ?s)) = (t', trs, own', book_view ?h' b' (opposite ?s))"
      using P by simp
    have len: "length (book_view ?h' b' (opposite ?s)) = length ?q - n"
      using P by (simp add: book_view_def)
    have "map order_id (book_view ?h' b' (opposite ?s)) = drop n (map order_id (book_view ?h b (opposite ?s)))"
      using spec
    proof (cases rule: submit_spec_cases)
      case reject
      have "length ?q - n = length ?q"
        using len arg_cong [OF reject(5), of length] by (simp add: book_view_def)
      moreover have "n \<le> length ?q" using P by simp
      ultimately have "n = 0" by linarith
      then show ?thesis using reject by simp
    next
      case (accept t1)
      have "n \<le> length ?q" using P by simp
      then show ?thesis
        using match_ref_keeps [OF accept(2), of order_id] len by (simp add: book_view_def)
    qed
    then have "map (\<lambda>p. order_id (?h' ! p)) (drop n ?q) = map (\<lambda>p. order_id (?h ! p)) (drop n ?q)"
      using P by (simp add: book_view_def drop_map comp_def)
    then show ?thesis using rd by simp
  qed
qed

lemma submit_indexed:
  assumes pre: "match_pre pl b p" and post: "submit_post clk pl b p pl' b' trs n"
    and ix: "indexed (storage pl) b" and fresh: "book_find b (order_id (storage pl ! p)) = None"
  shows "indexed (storage pl') b'"
  unfolding indexed_def
proof
  let ?h = "storage pl" and ?h' = "storage pl'" and ?q = "opp_queue pl b p"
  let ?ids = "map (\<lambda>p. order_id (?h ! p)) (take n ?q)"
  note P = post [unfolded submit_post_def Let_def]
  fix r assume r: "r \<in> book_ptrs ?h' b'"
  have qp: "set (take n ?q) \<subseteq> book_ptrs ?h b"
    using book_ptrs_sides [of ?h b "side (?h ! p)"] by (auto dest: in_set_takeD)
  have fr: "um_find (order_map b) (order_id (?h ! p)) = None"
    using fresh by (simp add: book_find_def split: option.splits)
  have keep: "um_find (fold um_erase ?ids (order_map b)) (order_id (?h ! x)) = um_find (order_map b) (order_id (?h ! x))"
    if "x \<in> book_ptrs ?h b - set (take n ?q)" for x
  proof -
    have "order_id (?h ! x) \<notin> set ?ids"
    proof
      assume "order_id (?h ! x) \<in> set ?ids"
      then obtain y where y: "y \<in> set (take n ?q)" "order_id (?h ! x) = order_id (?h ! y)" by auto
      then have "Some x = Some y" using ix that qp unfolding indexed_def by (metis DiffD1 subsetD)
      then show False using y that by simp
    qed
    then show ?thesis by (simp add: um_find_erase_all)
  qed
  show "book_find b' (order_id (?h' ! r)) = Some r"
  proof (cases "r \<in> book_ptrs ?h b - set (take n ?q)")
    case True
    have "book_find b (order_id (?h ! r)) = Some r" using ix True by (simp add: indexed_def)
    then have f: "um_find (order_map b) (order_id (?h ! r)) \<noteq> None" and
        "map_option loc_order (um_find (order_map b) (order_id (?h ! r))) = Some r"
      by (auto simp: book_find_def split: option.splits)
    moreover have "order_id (?h ! r) \<noteq> order_id (?h ! p)" using f fr by metis
    ultimately show ?thesis
      using P submit_ids [OF pre post True] keep [OF True]
      by (auto simp: book_find_def um_find_emplace split: option.splits)
  next
    case False
    then have "r = p" and "rests (?h' ! p)" and acc: "\<not> spec_rejects (book_instrument b) (core (?h ! p)) (book_view ?h b (opposite (side (core (?h ! p)))))"
      using r P by (auto split: if_splits)
    moreover have "order_id (?h' ! p) = order_id (?h ! p)"
    proof -
      obtain own' opp' where "submit_spec clk (book_instrument b) (core (?h ! p)) (book_view ?h b (side (?h ! p)))
        (book_view ?h b (opposite (side (?h ! p)))) = (core (?h' ! p), trs, own', opp')"
        using P by simp
      then have "order_id (core (?h' ! p)) = order_id (core (?h ! p))" by (rule submit_spec_id)
      then show ?thesis by simp
    qed
    ultimately show ?thesis
      using P fr by (auto simp: book_find_def um_find_emplace um_find_erase_all)
  qed
qed

lemma live_views:
  "live h b \<longleftrightarrow> (\<forall>x \<in> set (book_view h b s) \<union> set (book_view h b (opposite s)). filled_qty x < initial_qty x)"
  unfolding live_def book_ptrs_sides [of h b s] by (simp add: book_view_def ball_Un)

lemma submit_post_spec:
  assumes "submit_post clk pl b p pl' b' trs n"
  shows "submit_spec clk (book_instrument b) (core (storage pl ! p)) (book_view (storage pl) b (side (storage pl ! p)))
      (book_view (storage pl) b (opposite (side (storage pl ! p)))) =
    (core (storage pl' ! p), trs, book_view (storage pl') b' (side (storage pl ! p)),
      book_view (storage pl') b' (opposite (side (storage pl ! p))))"
  using assms by (simp add: submit_post_def Let_def)

lemma submit_post_uncrossed:
  assumes pre: "match_pre pl b p" and un: "uncrossed b" and post: "submit_post clk pl b p pl' b' trs n"
  shows "uncrossed b'"
proof -
  let ?h = "storage pl" and ?h' = "storage pl'" and ?s = "side (storage pl ! p)"
  have ok: "book_ok ?h b" and ok': "book_ok ?h' b'"
    using pre post by (auto simp: match_pre_def submit_post_def Let_def)
  have "apart ?s (book_view ?h b ?s) (book_view ?h b (opposite ?s))"
    using un uncrossed_iff [OF ok, of ?s] by (simp add: apart_def)
  then have "apart ?s (book_view ?h' b' ?s) (book_view ?h' b' (opposite ?s))"
    using spec_apart [OF submit_post_spec [OF post]] view_sorted [OF ok', of "opposite ?s"] by simp
  then show ?thesis using uncrossed_iff [OF ok', of ?s] by (simp add: apart_def)
qed

lemma submit_post_inv:
  assumes pre: "match_pre pl b p" and inv: "book_inv pl b"
    and t: "filled_qty (storage pl ! p) \<le> initial_qty (storage pl ! p)"
    and fresh: "book_find b (order_id (storage pl ! p)) = None"
    and post: "submit_post clk pl b p pl' b' trs n"
  shows "book_inv pl' b'"
proof -
  let ?h = "storage pl" and ?h' = "storage pl'" and ?s = "side (storage pl ! p)"
  have "uncrossed b'" using submit_post_uncrossed [OF pre _ post] inv by (simp add: book_inv_def)
  moreover have "live ?h' b'"
    using spec_live [OF submit_post_spec [OF post]] live_views [of ?h b ?s] live_views [of ?h' b' ?s] inv t
    by (simp add: book_inv_def)
  moreover have "indexed ?h' b'"
    using submit_indexed [OF pre post] inv fresh by (simp add: book_inv_def)
  moreover have "matcher_ok pl' b'"
    using post submit_post_ok [OF pre post] by (simp add: matcher_ok_def submit_post_def Let_def)
  ultimately show ?thesis by (simp add: book_inv_def)
qed

text \<open>Cancelling only takes orders away.\<close>

lemma cancel_post_core:
  assumes ok: "book_ok (storage pl) b" and post: "cancel_post pl b i p pl' b'" and r: "r \<in> book_ptrs (storage pl) b" "r \<noteq> p"
  shows "core (storage pl' ! r) = core (storage pl ! r)"
  using post r book_ptrs_range [OF ok] by (auto simp: cancel_post_def Let_def)

lemma cancel_post_views:
  assumes ok: "book_ok (storage pl) b" and post: "cancel_post pl b i p pl' b'"
  shows "set (book_view (storage pl') b' s) \<subseteq> set (book_view (storage pl) b s)"
  using post cancel_post_core [OF assms] book_ptrs_sides [of "storage pl" b s]
  by (auto simp: book_view_def cancel_post_def Let_def)

lemma cancel_post_uncrossed:
  assumes ok: "book_ok (storage pl) b" and post: "cancel_post pl b i p pl' b'" and un: "uncrossed b"
  shows "uncrossed b'"
proof -
  have ok': "book_ok (storage pl') b'" using post by (simp add: cancel_post_def Let_def matcher_ok_def)
  show ?thesis
    using un uncrossed_iff [OF ok, of Buy] uncrossed_iff [OF ok', of Buy] cancel_post_views [OF ok post, of Buy]
      cancel_post_views [OF ok post, of "opposite Buy"]
    by (simp add: subset_iff)
qed

lemma cancel_post_inv:
  assumes ok: "book_ok (storage pl) b" and inv: "book_inv pl b" and post: "cancel_post pl b i p pl' b'"
  shows "book_inv pl' b'"
proof -
  let ?h = "storage pl" and ?h' = "storage pl'"
  note P = post [unfolded cancel_post_def Let_def]
  note c = cancel_post_core [OF ok post] and v = cancel_post_views [OF ok post]
  have mo: "matcher_ok pl' b'" using P by simp
  have "uncrossed b'" using cancel_post_uncrossed [OF ok post] inv by (simp add: book_inv_def)
  moreover have "live ?h' b'"
    using inv live_views [of ?h b Buy] live_views [of ?h' b' Buy] v [of Buy] v [of "opposite Buy"]
    by (auto simp: book_inv_def subset_iff ball_Un)
  moreover have "indexed ?h' b'"
    unfolding indexed_def
  proof
    fix r assume "r \<in> book_ptrs ?h' b'"
    then have r: "r \<in> book_ptrs ?h b" "r \<noteq> p" using P by auto
    have id: "order_id (?h' ! r) = order_id (?h ! r)" using c [OF r] by (rule core_fields)
    have f: "book_find b (order_id (?h ! r)) = Some r" "book_find b (order_id (?h ! p)) = Some p"
      using inv r P by (auto simp: book_inv_def indexed_def)
    then have "order_id (?h ! r) \<noteq> i" using r P by auto
    then show "book_find b' (order_id (?h' ! r)) = Some r"
      using f(1) id P by (simp add: book_find_def um_find_erase)
  qed
  ultimately show ?thesis using mo by (simp add: book_inv_def)
qed

section \<open>The index counts the resting orders\<close>

lemma index_count:
  assumes ok: "book_ok h b" and ix: "indexed h b"
  shows "order_count b = length (bid_queue h b) + length (ask_queue h b)"
proof -
  let ?m = "order_map b"
  have io: "um_ok ?m" "\<forall>(i, loc) \<in> set ?m. order_id (h ! loc_order loc) = i \<and> loc_order loc \<in> book_ptrs h b"
    using book_ok_sides(3) [OF ok] by (auto simp: index_ok_def book_ptrs_def split: if_splits)
  have inj: "inj_on (loc_order \<circ> snd) (set ?m)"
  proof (rule inj_onI)
    fix x y assume xy: "x \<in> set ?m" "y \<in> set ?m" "(loc_order \<circ> snd) x = (loc_order \<circ> snd) y"
    then have "fst x = fst y" using io(2) by (metis (mono_tags, lifting) case_prod_beta comp_apply)
    then show "x = y" using io(1) xy(1,2) by (metis eq_key_imp_eq_value prod.collapse um_ok_def)
  qed
  have "(loc_order \<circ> snd) ` set ?m = book_ptrs h b"
  proof
    show "(loc_order \<circ> snd) ` set ?m \<subseteq> book_ptrs h b" using io(2) by auto
    show "book_ptrs h b \<subseteq> (loc_order \<circ> snd) ` set ?m"
    proof
      fix p assume "p \<in> book_ptrs h b"
      then obtain loc where "um_find ?m (order_id (h ! p)) = Some loc" "loc_order loc = p"
        using ix by (auto simp: indexed_def book_find_def split: option.splits)
      then show "p \<in> (loc_order \<circ> snd) ` set ?m"
        using um_find_in_set [OF io(1)] by force
    qed
  qed
  then have "card (set ?m) = card (book_ptrs h b)" using card_image [OF inj] by simp
  moreover have "distinct ?m" using io(1) by (simp add: um_ok_def distinct_map)
  ultimately show ?thesis
    using queues_distinct [OF ok] queues_disjoint [OF ok]
    by (simp add: order_count_def book_ptrs_def distinct_card card_Un_disjoint)
qed

section \<open>Trades\<close>

text \<open>Against a live book no trade is empty.\<close>

lemma match_ref_positive:
  assumes "match_ref t xs = (t', trs, xs')" and "\<forall>x \<in> set xs. filled_qty x < initial_qty x"
    and "tr \<in> set trs"
  shows "0 < trade_quantity tr"
proof -
  obtain n where "trs = map (\<lambda>x. mk_trade t x (remaining x)) (take n xs) \<or>
      (\<exists>q > 0. trs = map (\<lambda>x. mk_trade t x (remaining x)) (take n xs) @ [mk_trade t (xs ! n) q])"
    using match_ref_priority [OF assms(1)] by blast
  then consider x where "x \<in> set (take n xs)" "tr = mk_trade t x (remaining x)"
    | q where "q > 0" "tr = mk_trade t (xs ! n) q"
    using assms(3) by auto
  then show ?thesis
  proof cases
    case 1
    then have "remaining x \<noteq> 0" using assms(2) by (auto simp: filled_less_iff dest: in_set_takeD)
    then show ?thesis using 1 by (simp add: word_pos_iff)
  qed simp
qed

end
