(* ===== verification/Matcher_Theorems.thy ===== *)
theory Matcher_Theorems
  imports Book_Invariants
begin

text \<open>
  The guarantees of \<open>Matcher::submit\<close>, \<open>cancel\<close> and \<open>cancel_all\<close> on a sound state, each
  read off the refinement lemmas of the two theories before.
\<close>

section \<open>A state for the witnesses\<close>

text \<open>
  Four slots: two sell orders resting at price 100 (5 and 7 units), a buy order of 8 units in
  slot 2 about to be submitted, and one free slot.
\<close>

definition demo_order :: "u64 \<Rightarrow> i64 \<Rightarrow> u64 \<Rightarrow> side \<Rightarrow> order" where
  "demo_order i price qty s = order_default\<lparr>order_id := i, limit_price := price,
     initial_qty := qty, order_instrument := 1, side := s\<rparr>"

definition demo_pool :: pool where
  "demo_pool = \<lparr>storage = [(demo_order 11 100 5 Sell)\<lparr>level_next := Some 1\<rparr>,
       (demo_order 12 100 7 Sell)\<lparr>level_prev := Some 0\<rparr>, demo_order 13 101 8 Buy, order_default],
     free_slots = [3, 1, 2, 3], stack_top = 1\<rparr>"

definition demo_matcher :: matcher where
  "demo_matcher = \<lparr>m_book = \<lparr>book_instrument = 1, bids = [],
       asks = [(100, \<lparr>level_head = Some 0, level_tail = Some 1\<rparr>)],
       order_map = [(11, \<lparr>loc_side = Sell, loc_price = 100, loc_order = 0\<rparr>),
                    (12, \<lparr>loc_side = Sell, loc_price = 100, loc_order = 1\<rparr>)]\<rparr>,
     m_stats = new_tracker\<rparr>"

lemma demo_pool_ok: "pool_ok demo_pool"
  by (simp add: pool_ok_def free_list_def demo_pool_def)

lemma demo_book_ok: "book_ok (storage demo_pool) (m_book demo_matcher)"
  by code_simp

lemma demo_ptrs: "book_ptrs (storage demo_pool) (m_book demo_matcher) = {0, 1}"
  by code_simp

lemma demo_pre: "match_pre demo_pool (m_book demo_matcher) 2"
  using demo_pool_ok demo_book_ok demo_ptrs
  by (simp add: match_pre_def free_list_def demo_pool_def)

lemma demo_ok: "matcher_ok demo_pool (m_book demo_matcher)"
  using demo_pre by (simp add: match_pre_matcher_ok)

lemma demo_inv: "book_inv demo_pool (m_book demo_matcher)"
proof -
  have "uncrossed (m_book demo_matcher)" "live (storage demo_pool) (m_book demo_matcher)"
      "indexed (storage demo_pool) (m_book demo_matcher)"
    by code_simp+
  then show ?thesis using demo_ok by (simp add: book_inv_def)
qed

lemma demo_nth:
  "storage demo_pool ! 2 = demo_order 13 101 8 Buy" "length (storage demo_pool) = 4"
  "free_list demo_pool = [3]"
  by (simp_all add: demo_pool_def free_list_def)

lemma demo_order_simps [simp]:
  "order_id (demo_order i k q s) = i" "limit_price (demo_order i k q s) = k"
  "initial_qty (demo_order i k q s) = q" "filled_qty (demo_order i k q s) = 0"
  "order_instrument (demo_order i k q s) = 1" "side (demo_order i k q s) = s"
  "order_type (demo_order i k q s) = Limit" "tif (demo_order i k q s) = GTC"
  by (simp_all add: demo_order_def order_default_def kZeroQty_def)

section \<open>Submitting\<close>

text \<open>
  C1. \<open>Matcher::submit\<close> refines the abstract book. On a sound book and pool, with the incoming
  order in a slot of its own, \<open>submit\<close> terminates without touching memory outside the slab, the
  new state is sound again, and the order, the trades and the two sides of the book are those of
  \<open>submit_spec\<close>, which works on plain lists of order values: rejection, fill-or-kill, matching
  from the front, final status, and resting behind all orders that are at least as good.
\<close>

theorem submit_refinement:
  assumes "match_pre pl (m_book m) p"
  shows "\<exists>pl' m' trs. matcher_submit clk pl m p = Some (pl', m', trs) \<and> matcher_ok pl' (m_book m') \<and>
    (let s = side (storage pl ! p) in
     submit_spec clk (book_instrument (m_book m)) (core (storage pl ! p))
       (book_view (storage pl) (m_book m) s) (book_view (storage pl) (m_book m) (opposite s)) =
     (core (storage pl' ! p), trs,
      book_view (storage pl') (m_book m') s, book_view (storage pl') (m_book m') (opposite s)))"
proof (rule submit_refines [OF assms])
  fix pl' m' trs n
  assume r: "matcher_submit clk pl m p = Some (pl', m', trs)"
    and post: "submit_post clk pl (m_book m) p pl' (m_book m') trs n"
  then have "matcher_ok pl' (m_book m')"
    using submit_post_ok [OF assms post] by (simp add: submit_post_def Let_def matcher_ok_def)
  with r post show ?thesis by (auto simp: submit_post_def Let_def)
qed

theorem submit_refinement_witness:
  "\<exists>pl' m' trs. matcher_submit (\<lambda>n. of_nat n) demo_pool demo_matcher 2 = Some (pl', m', trs) \<and>
     matcher_ok pl' (m_book m') \<and> map maker_id trs = [11, 12] \<and> map trade_quantity trs = [5, 3]"
proof -
  have "(\<lambda>(t, trs, own, opp). (map maker_id trs, map trade_quantity trs))
      (submit_spec (\<lambda>n. of_nat n) (book_instrument (m_book demo_matcher)) (core (storage demo_pool ! 2))
        (book_view (storage demo_pool) (m_book demo_matcher) (side (storage demo_pool ! 2)))
        (book_view (storage demo_pool) (m_book demo_matcher) (opposite (side (storage demo_pool ! 2))))) =
      ([11, 12], [5, 3])"
    by code_simp
  then show ?thesis
    using submit_refinement [OF demo_pre, of "\<lambda>n. of_nat n"] by (auto simp: Let_def)
qed

text \<open>The pieces of the refinement the properties below use.\<close>

lemma submit_unfolded:
  assumes "match_pre pl (m_book m) p"
  defines "own \<equiv> book_view (storage pl) (m_book m) (side (storage pl ! p))"
    and "opp \<equiv> book_view (storage pl) (m_book m) (opposite (side (storage pl ! p)))"
  obtains (reject) pl' m' trs where "matcher_submit clk pl m p = Some (pl', m', trs)"
      and "submit_post clk pl (m_book m) p pl' (m_book m') trs 0"
      and "spec_rejects (book_instrument (m_book m)) (core (storage pl ! p)) opp"
      and "trs = []" and "status (storage pl' ! p) = Rejected"
      and "remaining (storage pl' ! p) = remaining (storage pl ! p)"
      and "book_view (storage pl') (m_book m') (side (storage pl ! p)) = own"
      and "book_view (storage pl') (m_book m') (opposite (side (storage pl ! p))) = opp"
  | (accept) pl' m' trs n t1 where "matcher_submit clk pl m p = Some (pl', m', trs)"
      and "submit_post clk pl (m_book m) p pl' (m_book m') trs n"
      and "\<not> spec_rejects (book_instrument (m_book m)) (core (storage pl ! p)) opp"
      and "match_ref (core (storage pl ! p)) opp = (t1, trs, book_view (storage pl') (m_book m') (opposite (side (storage pl ! p))))"
      and "core (storage pl' ! p) = t1\<lparr>status := settle_status t1, match_complete_ns := sint (clk 1)\<rparr>"
proof (rule submit_refines [OF assms(1), of clk])
  fix pl' m' trs n
  assume r: "matcher_submit clk pl m p = Some (pl', m', trs)"
    and post: "submit_post clk pl (m_book m) p pl' (m_book m') trs n"
  have spec: "submit_spec clk (book_instrument (m_book m)) (core (storage pl ! p)) own opp =
      (core (storage pl' ! p), trs, book_view (storage pl') (m_book m') (side (storage pl ! p)),
       book_view (storage pl') (m_book m') (opposite (side (storage pl ! p))))"
    using post by (simp add: submit_post_def Let_def own_def opp_def)
  show thesis
    using spec
  proof (cases rule: submit_spec_cases)
    case reject
    have "length (opp_queue pl (m_book m) p) - n = length (opp_queue pl (m_book m) p)"
        "n \<le> length (opp_queue pl (m_book m) p)"
      using post arg_cong [OF reject(5), of length]
      by (simp_all add: submit_post_def Let_def opp_def book_view_def)
    then have n: "n = 0" by linarith
    have "status (core (storage pl' ! p)) = Rejected"
        "remaining (core (storage pl' ! p)) = remaining (core (storage pl ! p))"
      unfolding reject(2) by simp_all
    then have "status (storage pl' ! p) = Rejected" "remaining (storage pl' ! p) = remaining (storage pl ! p)"
      by simp_all
    then show ?thesis using that(1) [OF r post [unfolded n]] reject by simp
  next
    case (accept t1)
    then show ?thesis using that(2) [OF r post] by simp
  qed
qed

text \<open>
  C2. The invariants of the property tests survive \<open>submit\<close>. If the book is sound, uncrossed
  (best bid below best ask), has only live orders and finds each under its id, and the new order
  has an id that is not resting, then the same holds after \<open>submit\<close>; moreover the index counts
  exactly the resting orders, bids are buy orders and asks are not.
\<close>

theorem submit_keeps_invariants:
  assumes pre: "match_pre pl (m_book m) p" and inv: "book_inv pl (m_book m)"
    and t: "filled_qty (storage pl ! p) \<le> initial_qty (storage pl ! p)"
    and fresh: "book_find (m_book m) (order_id (storage pl ! p)) = None"
  shows "\<exists>pl' m' trs. matcher_submit clk pl m p = Some (pl', m', trs) \<and> book_inv pl' (m_book m') \<and>
    order_count (m_book m') =
      length (bid_queue (storage pl') (m_book m')) + length (ask_queue (storage pl') (m_book m')) \<and>
    list_all (\<lambda>q. side (storage pl' ! q) = Buy) (bid_queue (storage pl') (m_book m')) \<and>
    list_all (\<lambda>q. side (storage pl' ! q) \<noteq> Buy) (ask_queue (storage pl') (m_book m'))"
proof (rule submit_refines [OF pre])
  fix pl' m' trs n
  assume r: "matcher_submit clk pl m p = Some (pl', m', trs)"
    and post: "submit_post clk pl (m_book m) p pl' (m_book m') trs n"
  have inv': "book_inv pl' (m_book m')" by (rule submit_post_inv [OF pre inv t fresh post])
  then have ok: "book_ok (storage pl') (m_book m')" and "indexed (storage pl') (m_book m')"
    by (auto simp: book_inv_def matcher_ok_def)
  then show ?thesis
    using r inv' index_count bid_queue_facts(2) [OF ok] ask_queue_facts(2) [OF ok]
    by (auto simp: list_all_iff)
qed

theorem submit_keeps_invariants_witness:
  "\<exists>pl' m' trs. matcher_submit (\<lambda>n. of_nat n) demo_pool demo_matcher 2 = Some (pl', m', trs) \<and>
     book_inv pl' (m_book m')"
proof -
  have "book_find (m_book demo_matcher) 13 = None" by code_simp
  then show ?thesis
    using submit_keeps_invariants [OF demo_pre demo_inv, of "\<lambda>n. of_nat n"] demo_nth by auto
qed

text \<open>
  C3. Conservation of quantity. Whatever the order, the quantity in the trades of one \<open>submit\<close> is
  exactly what the incoming order loses, and exactly what the opposite side of the book loses.
\<close>

theorem submit_conserves_quantity:
  assumes pre: "match_pre pl (m_book m) p"
  shows "\<exists>pl' m' trs. matcher_submit clk pl m p = Some (pl', m', trs) \<and>
    left (storage pl ! p) = left (storage pl' ! p) + volume trs \<and>
    depth (book_view (storage pl) (m_book m) (opposite (side (storage pl ! p)))) =
      depth (book_view (storage pl') (m_book m') (opposite (side (storage pl ! p)))) + volume trs"
  using pre
proof (cases rule: submit_unfolded [of _ _ _ clk])
  case (accept pl' m' trs n t1)
  have "remaining (core (storage pl' ! p)) = remaining t1" unfolding accept(5) by (simp add: remaining_def)
  then show ?thesis using accept(1) match_ref_conserves [OF accept(4)] by simp
qed auto

theorem submit_conserves_quantity_witness:
  "\<exists>pl' m' trs. matcher_submit (\<lambda>n. of_nat n) demo_pool demo_matcher 2 = Some (pl', m', trs) \<and>
     8 = left (storage pl' ! 2) + volume trs"
  using submit_conserves_quantity [OF demo_pre, of "\<lambda>n. of_nat n"] demo_nth
  by (auto simp: remaining_def)

text \<open>
  C4. Price-time priority. The makers are served strictly from the front of the opposite queue,
  which goes from the best price to the worst: the trades name the first makers of the queue in
  order, each but the last is used up, and a last maker that is only partly filled means that
  the incoming order is filled. Each trade is at the maker's own price.
\<close>

theorem submit_price_time_priority:
  assumes pre: "match_pre pl (m_book m) p"
  shows "\<exists>pl' m' trs. matcher_submit clk pl m p = Some (pl', m', trs) \<and>
    (let t = core (storage pl ! p); s = opposite (side t); makers = book_view (storage pl) (m_book m) s in
     sorted_wrt (\<lambda>x y. \<not> better s (limit_price y) (limit_price x)) makers \<and>
     (\<exists>n \<le> length makers.
        trs = map (\<lambda>x. mk_trade t x (remaining x)) (take n makers) \<or>
        (\<exists>q. n < length makers \<and> 0 < q \<and> q < remaining (makers ! n) \<and>
           remaining (storage pl' ! p) = 0 \<and>
           trs = map (\<lambda>x. mk_trade t x (remaining x)) (take n makers) @ [mk_trade t (makers ! n) q])))"
proof -
  let ?t = "core (storage pl ! p)" and ?s = "opposite (side (storage pl ! p))"
  let ?mk = "book_view (storage pl) (m_book m) ?s"
  have srt: "sorted_wrt (\<lambda>x y. \<not> better ?s (limit_price y) (limit_price x)) ?mk"
    using pre view_sorted by (simp add: match_pre_def)
  show ?thesis
    using pre
  proof (cases rule: submit_unfolded [of _ _ _ clk])
    case (reject pl' m' trs)
    then show ?thesis using srt by (auto simp: Let_def intro!: exI [of _ 0])
  next
    case (accept pl' m' trs n t1)
    have "remaining (core (storage pl' ! p)) = remaining t1" unfolding accept(5) by (simp add: remaining_def)
    then have r: "remaining (storage pl' ! p) = remaining t1" by simp
    obtain k where "k \<le> length ?mk" "trs = map (\<lambda>x. mk_trade ?t x (remaining x)) (take k ?mk) \<or>
        (\<exists>q. k < length ?mk \<and> 0 < q \<and> q < remaining (?mk ! k) \<and> remaining t1 = 0 \<and>
           trs = map (\<lambda>x. mk_trade ?t x (remaining x)) (take k ?mk) @ [mk_trade ?t (?mk ! k) q])"
      using match_ref_priority [OF accept(4)] by blast
    then show ?thesis using srt accept(1) r by (auto simp: Let_def)
  qed
qed

theorem submit_price_time_priority_witness:
  "\<exists>pl' m' trs. matcher_submit (\<lambda>n. of_nat n) demo_pool demo_matcher 2 = Some (pl', m', trs)"
  using submit_price_time_priority [OF demo_pre, of "\<lambda>n. of_nat n"] by auto

lemma crosses_core_fun: "crosses (core x) = crosses x"
  by (simp add: fun_eq_iff)

text \<open>
  C5. Fill or kill. An FOK order is either filled completely, with trades adding up to its
  quantity, or rejected with no trade and no change to either side of the book; and it is filled
  exactly when it is well-formed and the crossing part of the opposite side is deep enough.
\<close>

theorem submit_fok_all_or_nothing:
  assumes pre: "match_pre pl (m_book m) p" and fok: "tif (storage pl ! p) = FOK"
  shows "\<exists>pl' m' trs. matcher_submit clk pl m p = Some (pl', m', trs) \<and>
    (let x = storage pl ! p; x' = storage pl' ! p;
         opp = book_view (storage pl) (m_book m) (opposite (side x)) in
     if \<not> submit_rejects (book_instrument (m_book m)) x \<and> left x \<le> available x opp
     then status x' = Filled \<and> remaining x' = 0 \<and> volume trs = left x
     else status x' = Rejected \<and> trs = [] \<and>
       list_all (\<lambda>s. book_view (storage pl') (m_book m') s = book_view (storage pl) (m_book m) s) [Buy, Sell])"
proof -
  let ?x = "storage pl ! p"
  let ?opp = "book_view (storage pl) (m_book m) (opposite (side ?x))"
  have av: "available (core ?x) = available ?x" by (simp add: available_def fun_eq_iff crosses_core_fun)
  have rej: "spec_rejects (book_instrument (m_book m)) (core ?x) ?opp \<longleftrightarrow>
      \<not> (\<not> submit_rejects (book_instrument (m_book m)) ?x \<and> left ?x \<le> available ?x ?opp)"
    using fok av by (auto simp: spec_rejects_def)
  show ?thesis
    using pre
  proof (cases rule: submit_unfolded [of _ _ _ clk])
    case (reject pl' m' trs)
    have "list_all (\<lambda>s. book_view (storage pl') (m_book m') s = book_view (storage pl) (m_book m) s) [Buy, Sell]"
      using reject(7,8) by (cases "side ?x = Buy") (auto simp: book_view_def)
    then show ?thesis using reject rej by (auto simp: Let_def)
  next
    case (accept pl' m' trs n t1)
    have r0: "remaining t1 = 0"
      using match_ref_fills_iff [OF accept(4)] accept(3) rej av by simp
    have "status (core (storage pl' ! p)) = Filled" "remaining (core (storage pl' ! p)) = remaining t1"
      unfolding accept(5) using r0 by (simp_all add: settle_status_def is_fully_filled_def remaining_def)
    moreover have "volume trs = left ?x" using match_ref_conserves [OF accept(4)] r0 by simp
    ultimately show ?thesis using accept(1,3) rej r0 by (auto simp: Let_def)
  qed
qed

definition demo_fok :: pool where
  "demo_fok = demo_pool\<lparr>storage := (storage demo_pool)[2 := (demo_order 13 101 20 Buy)\<lparr>tif := FOK\<rparr>]\<rparr>"

lemma demo_fok_pre: "match_pre demo_fok (m_book demo_matcher) 2"
proof -
  have "book_ok (storage demo_fok) (m_book demo_matcher)"
      "book_ptrs (storage demo_fok) (m_book demo_matcher) = {0, 1}"
    by code_simp+
  moreover have "pool_ok demo_fok" using demo_pool_ok by (simp add: demo_fok_def pool_ok_storage)
  ultimately show ?thesis using demo_nth by (simp add: match_pre_def demo_fok_def)
qed

theorem submit_fok_all_or_nothing_witness:
  "\<exists>pl' m' trs. matcher_submit (\<lambda>n. of_nat n) demo_fok demo_matcher 2 = Some (pl', m', trs) \<and>
     status (storage pl' ! 2) = Rejected \<and> trs = []"
proof -
  have "tif (storage demo_fok ! 2) = FOK" by code_simp
  moreover have "\<not> left (storage demo_fok ! 2) \<le> available (storage demo_fok ! 2)
      (book_view (storage demo_fok) (m_book demo_matcher) (opposite (side (storage demo_fok ! 2))))"
    by code_simp
  ultimately show ?thesis
    using submit_fok_all_or_nothing [OF demo_fok_pre, of "\<lambda>n. of_nat n"] by (auto simp: Let_def)
qed

text \<open>
  C6. No trade-through. Against a book whose orders are live, every trade of a limit order has a
  positive quantity and a price the order accepts: at most its limit for a buy order, at least
  its limit otherwise.
\<close>

theorem submit_no_trade_through:
  assumes pre: "match_pre pl (m_book m) p" and lv: "live (storage pl) (m_book m)"
    and lim: "order_type (storage pl ! p) = Limit"
  shows "\<exists>pl' m' trs. matcher_submit clk pl m p = Some (pl', m', trs) \<and>
    list_all (\<lambda>tr. 0 < trade_quantity tr \<and>
      (if side (storage pl ! p) = Buy then trade_price tr \<le> limit_price (storage pl ! p)
       else trade_price tr \<ge> limit_price (storage pl ! p))) trs"
  using pre
proof (cases rule: submit_unfolded [of _ _ _ clk])
  case (accept pl' m' trs n t1)
  have "\<forall>x \<in> set (book_view (storage pl) (m_book m) (opposite (side (storage pl ! p)))). filled_qty x < initial_qty x"
    using lv live_views [of "storage pl" "m_book m" "side (storage pl ! p)"] by blast
  then show ?thesis
    using accept(1) match_ref_positive [OF accept(4)] match_ref_prices [OF accept(4)] lim
    by (auto simp: list_all_iff prices_cross_def)
qed auto

theorem submit_no_trade_through_witness:
  "\<exists>pl' m' trs. matcher_submit (\<lambda>n. of_nat n) demo_pool demo_matcher 2 = Some (pl', m', trs) \<and>
    list_all (\<lambda>tr. 0 < trade_quantity tr \<and> trade_price tr \<le> 101) trs"
  using submit_no_trade_through [OF demo_pre, of "\<lambda>n. of_nat n"] demo_inv demo_nth
  by (auto simp: book_inv_def)

text \<open>
  C7. An immediate-or-cancel remainder is lost. A market or IOC order that trades a part of its
  quantity ends with status \<open>PartiallyFilled\<close>, which \<open>is_terminal\<close> does not count as final, although
  the order rests in no book and its slot is not on the free stack: the callers, which release
  the slot only of a terminal order, never release it.
\<close>

theorem ioc_remainder_not_released:
  assumes pre: "match_pre pl (m_book m) p"
    and ioc: "order_type (storage pl ! p) = Market \<or> tif (storage pl ! p) = IOC"
    and acc: "\<not> submit_rejects (book_instrument (m_book m)) (storage pl ! p)" "tif (storage pl ! p) \<noteq> FOK"
    and part: "0 < available (storage pl ! p) (book_view (storage pl) (m_book m) (opposite (side (storage pl ! p))))"
      "available (storage pl ! p) (book_view (storage pl) (m_book m) (opposite (side (storage pl ! p)))) < left (storage pl ! p)"
    and new: "filled_qty (storage pl ! p) = 0"
  shows "\<exists>pl' m' trs. matcher_submit clk pl m p = Some (pl', m', trs) \<and>
    status (storage pl' ! p) = PartiallyFilled \<and> \<not> is_terminal (storage pl' ! p) \<and>
    p \<notin> book_ptrs (storage pl') (m_book m') \<and> p \<notin> set (free_list pl')"
  using pre
proof (cases rule: submit_unfolded [of _ _ _ clk])
  case (reject pl' m' trs)
  then show ?thesis using acc by (simp add: spec_rejects_def)
next
  case (accept pl' m' trs n t1)
  let ?x = "storage pl ! p" and ?x' = "storage pl' ! p"
  let ?opp = "book_view (storage pl) (m_book m) (opposite (side ?x))"
  have av: "available (core ?x) ?opp = available ?x ?opp" by (simp add: available_def crosses_core_fun)
  note tb = match_ref_taker_bound [OF accept(4)]
  have r1: "remaining t1 \<noteq> 0" using match_ref_fills_iff [OF accept(4)] part(2) av by simp
  have "filled_qty t1 \<noteq> 0"
  proof
    assume "filled_qty t1 = 0"
    then have "left t1 = left ?x" using tb(2) new by (simp add: remaining_def)
    then have "volume trs = 0" using match_ref_conserves [OF accept(4)] by simp
    then show False using match_ref_volume [OF accept(4)] part av by simp
  qed
  then have st: "settle_status t1 = PartiallyFilled" and nr: "\<not> rests t1"
    using ioc tb(6,7) r1 by (auto simp: settle_status_def rests_def remaining_0_iff word_pos_iff)
  have "status (core ?x') = PartiallyFilled" "\<not> is_terminal (core ?x')" "\<not> rests (core ?x')"
    unfolding accept(5) using st nr by (simp_all add: is_terminal_def)
  then have "status ?x' = PartiallyFilled" "\<not> is_terminal ?x'" "\<not> rests ?x'" by simp_all
  moreover have "p \<notin> book_ptrs (storage pl') (m_book m')" "p \<notin> set (free_list pl')"
    using accept(2) pre \<open>\<not> rests ?x'\<close> book_ptrs_sides [of "storage pl" "m_book m" "side ?x"]
    by (auto simp: submit_post_def Let_def match_pre_def dest: in_set_takeD)
  ultimately show ?thesis using accept(1) by simp
qed

definition demo_ioc :: pool where
  "demo_ioc = demo_pool\<lparr>storage := (storage demo_pool)[2 := (demo_order 13 101 20 Buy)\<lparr>tif := IOC\<rparr>]\<rparr>"

lemma demo_ioc_pre: "match_pre demo_ioc (m_book demo_matcher) 2"
proof -
  have "book_ok (storage demo_ioc) (m_book demo_matcher)"
      "book_ptrs (storage demo_ioc) (m_book demo_matcher) = {0, 1}"
    by code_simp+
  moreover have "pool_ok demo_ioc" using demo_pool_ok by (simp add: demo_ioc_def pool_ok_storage)
  ultimately show ?thesis using demo_nth by (simp add: match_pre_def demo_ioc_def)
qed

theorem ioc_remainder_not_released_witness:
  "\<exists>pl' m' trs. matcher_submit (\<lambda>n. of_nat n) demo_ioc demo_matcher 2 = Some (pl', m', trs) \<and>
     2 \<notin> book_ptrs (storage pl') (m_book m') \<and> 2 \<notin> set (free_list pl')"
proof -
  let ?x = "storage demo_ioc ! 2"
  have 1: "order_type ?x = Market \<or> tif ?x = IOC"
    and 2: "\<not> submit_rejects (book_instrument (m_book demo_matcher)) ?x" and 3: "tif ?x \<noteq> FOK"
    and 4: "0 < available ?x (book_view (storage demo_ioc) (m_book demo_matcher) (opposite (side ?x)))"
    and 5: "available ?x (book_view (storage demo_ioc) (m_book demo_matcher) (opposite (side ?x))) < left ?x"
    and 6: "filled_qty ?x = 0"
    by code_simp+
  show ?thesis
    using ioc_remainder_not_released [OF demo_ioc_pre 1 2 3 4 5 6, of "\<lambda>n. of_nat n"] by blast
qed

section \<open>Cancelling\<close>

text \<open>
  C8. \<open>Matcher::cancel\<close> removes exactly one order. It returns true exactly when the id is in the
  index; then the order found there leaves its queue, all other orders keep their places and
  values, its slot goes on the free stack, and the invariants hold. Otherwise nothing changes.
\<close>

theorem cancel_removes_exactly:
  assumes inv: "book_inv pl (m_book m)"
  shows "\<exists>found pl' m'. matcher_cancel pl m i = Some (found, pl', m') \<and> book_inv pl' (m_book m') \<and>
    (case book_find (m_book m) i of
       None \<Rightarrow> \<not> found \<and> pl' = pl \<and> m' = m
     | Some p \<Rightarrow> found \<and> order_id (storage pl ! p) = i \<and> free_list pl' = free_list pl @ [p] \<and>
         status (storage pl' ! p) = Cancelled \<and> book_find (m_book m') i = None \<and>
         list_all (\<lambda>s. book_view (storage pl') (m_book m') s =
           map (\<lambda>q. core (storage pl ! q)) (removeAll p (side_queue (storage pl) (m_book m) s))) [Buy, Sell])"
proof (cases "book_find (m_book m) i")
  case None
  then show ?thesis using matcher_cancel_miss [OF None] inv by auto
next
  case (Some p)
  have ok: "matcher_ok pl (m_book m)" "book_ok (storage pl) (m_book m)"
    using inv by (auto simp: book_inv_def matcher_ok_def)
  obtain pl' m' where r: "matcher_cancel pl m i = Some (True, pl', m')"
      and post: "cancel_post pl (m_book m) i p pl' (m_book m')"
    using matcher_cancel_hit [OF ok(1) Some] by blast
  note P = post [unfolded cancel_post_def Let_def]
  have v: "book_view (storage pl') (m_book m') s =
      map (\<lambda>q. core (storage pl ! q)) (removeAll p (side_queue (storage pl) (m_book m) s))" for s
    using P book_ok_sideq(2) [OF ok(2), of s] by (auto simp: book_view_def)
  have "status (core (storage pl' ! p)) = Cancelled" using P by simp
  then have "status (storage pl' ! p) = Cancelled" by simp
  moreover have "book_find (m_book m') i = None" using P by (simp add: book_find_def um_find_erase)
  ultimately show ?thesis
    using r Some v P cancel_post_inv [OF ok(2) inv post] by auto
qed

theorem cancel_removes_exactly_witness:
  "\<exists>pl' m'. matcher_cancel demo_pool demo_matcher 11 = Some (True, pl', m') \<and>
     free_list pl' = [3, 0] \<and> book_inv pl' (m_book m')"
proof -
  have "book_find (m_book demo_matcher) 11 = Some 0" by code_simp
  then show ?thesis using cancel_removes_exactly [OF demo_inv, of 11] demo_nth by auto
qed

text \<open>
  C9. \<open>Matcher::cancel_all\<close> loses orders. The book is empty afterwards, but only the order at the
  head of each price level is cancelled and its slot released; every other resting order keeps
  its status, is in no book any more, and its slot is not on the free stack.
\<close>

theorem cancel_all_releases_heads_only:
  assumes ok: "matcher_ok pl (m_book m)"
  shows "\<exists>pl' m'. cancel_all pl m = Some (pl', m') \<and>
    m_book m' = new_book (book_instrument (m_book m)) \<and>
    (let hs = heads (side_view (storage pl) (bids (m_book m))) @
              heads (side_view (storage pl) (asks (m_book m))) in
     free_list pl' = free_list pl @ hs \<and>
     list_all (\<lambda>p. status (storage pl' ! p) = Cancelled) hs \<and>
     list_all (\<lambda>p. p \<in> set hs \<or> storage pl' ! p = storage pl ! p \<and> p \<notin> set (free_list pl'))
       (bid_queue (storage pl) (m_book m) @ ask_queue (storage pl) (m_book m)))"
proof (rule cancel_all_heads [OF ok])
  fix pl' m'
  let ?hs = "heads (side_view (storage pl) (bids (m_book m))) @ heads (side_view (storage pl) (asks (m_book m)))"
  assume a: "cancel_all pl m = Some (pl', m')" "m_book m' = new_book (book_instrument (m_book m))"
    "free_list pl' = free_list pl @ ?hs" "same_outside (set ?hs) (storage pl) (storage pl')"
    "\<forall>p \<in> set ?hs. status (storage pl' ! p) = Cancelled"
  have "storage pl' ! p = storage pl ! p \<and> p \<notin> set (free_list pl')"
    if "p \<in> book_ptrs (storage pl) (m_book m)" "p \<notin> set ?hs" for p
    using that a(3) same_outside_nth [OF a(4)] ok book_ptrs_range [of "storage pl" "m_book m"]
    by (auto simp: matcher_ok_def)
  then show ?thesis using a by (auto simp: Let_def list_all_iff book_ptrs_def)
qed

theorem cancel_all_releases_heads_only_witness:
  "\<exists>pl' m'. cancel_all demo_pool demo_matcher = Some (pl', m') \<and> free_list pl' = [3, 0] \<and>
     storage pl' ! 1 = storage demo_pool ! 1"
proof -
  have "heads (side_view (storage demo_pool) (bids (m_book demo_matcher))) @
      heads (side_view (storage demo_pool) (asks (m_book demo_matcher))) = [0]"
      "bid_queue (storage demo_pool) (m_book demo_matcher) @ ask_queue (storage demo_pool) (m_book demo_matcher) = [0, 1]"
    by code_simp+
  then show ?thesis
    using cancel_all_releases_heads_only [OF demo_ok] demo_nth by (auto simp: Let_def)
qed

end
