(* ===== verification/Engine.thy ===== *)
theory Engine
  imports Registry Matcher_Theorems
begin

text \<open>
  \<open>include/ordbk/matching/engine.hpp\<close> and \<open>src/matching/engine.cpp\<close>: one book and matcher per
  instrument, all on the shared pool, and the routing of orders to them. \<open>book_slots\<close> is the
  second map of the class, from ids to raw book pointers; a pointer is the key of the slot that
  owns the book.
\<close>

record engine =
  matchers :: "(u32 \<times> matcher) list"
  book_slots :: "(u32 \<times> u32) list"

datatype engine_error = RegistryNotFrozen

section \<open>Operations\<close>

type_synonym shard_filter = "(u32 \<Rightarrow> bool) option"

definition passes :: "shard_filter \<Rightarrow> u32 \<Rightarrow> bool" where
  "passes filt i = (case filt of None \<Rightarrow> True | Some f \<Rightarrow> f i)"

fun open_books :: "shard_filter \<Rightarrow> instrument_spec list \<Rightarrow> engine \<Rightarrow> engine" where
  "open_books filt [] e = e"
| "open_books filt (sp # sps) e =
     (if \<not> passes filt (spec_id sp) then open_books filt sps e
      else open_books filt sps (e\<lparr>book_slots := um_emplace (spec_id sp) (spec_id sp) (book_slots e),
        matchers := um_emplace (spec_id sp) (new_matcher (spec_id sp)) (matchers e)\<rparr>))"

definition engine_new :: "registry \<Rightarrow> shard_filter \<Rightarrow> engine_error + engine" where
  "engine_new r filt =
     (if \<not> frozen r then Inl RegistryNotFrozen
      else Inr (open_books filt (instruments r) \<lparr>matchers = [], book_slots = []\<rparr>))"

definition acquire_order :: "pool \<Rightarrow> (ptr option \<times> pool) option" where
  "acquire_order pl = pool_acquire pl"

definition release_order :: "pool \<Rightarrow> ptr \<Rightarrow> pool option" where
  "release_order pl p = pool_release pl p"

definition engine_submit ::
  "(nat \<Rightarrow> u64) \<Rightarrow> pool \<Rightarrow> engine \<Rightarrow> ptr \<Rightarrow> (pool \<times> engine \<times> trade list) option" where
  "engine_submit clk pl e p =
     do {
       x \<leftarrow> deref (storage pl) p;
       case um_find (matchers e) (order_instrument x) of
         None \<Rightarrow> do {
           h \<leftarrow> modify_at (storage pl) p (\<lambda>y. y\<lparr>status := Rejected\<rparr>);
           Some (pl\<lparr>storage := h\<rparr>, e, [])
         }
       | Some m \<Rightarrow> do {
           (pl', m', trades) \<leftarrow> matcher_submit clk pl m p;
           Some (pl', e\<lparr>matchers := um_assign (order_instrument x) m' (matchers e)\<rparr>, trades)
         }
     }"

definition engine_cancel :: "pool \<Rightarrow> engine \<Rightarrow> u32 \<Rightarrow> u64 \<Rightarrow> (bool \<times> pool \<times> engine) option" where
  "engine_cancel pl e instrument i =
     (case um_find (matchers e) instrument of
        None \<Rightarrow> Some (False, pl, e)
      | Some m \<Rightarrow> do {
          (found, pl', m') \<leftarrow> matcher_cancel pl m i;
          Some (found, pl', e\<lparr>matchers := um_assign instrument m' (matchers e)\<rparr>)
        })"

definition expire_instrument :: "pool \<Rightarrow> engine \<Rightarrow> u32 \<Rightarrow> (bool \<times> pool \<times> engine) option" where
  "expire_instrument pl e i =
     (case um_find (matchers e) i of
        None \<Rightarrow> Some (False, pl, e)
      | Some m \<Rightarrow> do {
          (pl', m') \<leftarrow> cancel_all pl m;
          Some (True, pl', e\<lparr>book_slots := um_erase i (book_slots e), matchers := um_erase i (matchers e)\<rparr>)
        })"

text \<open>\<open>None\<close> is a dangling book pointer, \<open>Some None\<close> the null pointer.\<close>

definition engine_book :: "engine \<Rightarrow> u32 \<Rightarrow> order_book option option" where
  "engine_book e i =
     (case um_find (book_slots e) i of
        None \<Rightarrow> Some None
      | Some j \<Rightarrow> (case um_find (matchers e) j of None \<Rightarrow> None | Some m \<Rightarrow> Some (Some (m_book m))))"

definition book_count :: "engine \<Rightarrow> nat" where
  "book_count e = length (book_slots e)"

fun combine_snapshots :: "matcher list \<Rightarrow> snapshot \<Rightarrow> snapshot" where
  "combine_snapshots [] acc = acc"
| "combine_snapshots (m # ms) acc =
     (let s = snapshot_of (m_stats m) in
      combine_snapshots ms (acc\<lparr>sn_count := sn_count acc + sn_count s,
        sn_max_ns := max (sn_max_ns acc) (sn_max_ns s),
        sn_hist := map2 (+) (sn_hist acc) (sn_hist s)\<rparr>))"

definition latency_snapshot :: "engine \<Rightarrow> snapshot" where
  "latency_snapshot e = combine_snapshots (map snd (matchers e)) empty_snapshot"

text \<open>The combined snapshot never has a mean: the sum of the latencies is not part of a snapshot.\<close>

lemma latency_snapshot_mean: "sn_mean_ns (latency_snapshot e) = 0"
proof -
  have "sn_mean_ns (combine_snapshots ms acc) = sn_mean_ns acc" for ms acc
    by (induction ms arbitrary: acc) (simp_all add: Let_def)
  then show ?thesis by (simp add: latency_snapshot_def empty_snapshot_def)
qed

section \<open>The invariant\<close>

text \<open>
  Every book is sound on the shared slab, no two books share an order, none rests on a slot of
  the free stack, and the two maps of the class agree.
\<close>

definition engine_ok :: "pool \<Rightarrow> engine \<Rightarrow> bool" where
  "engine_ok pl e \<longleftrightarrow> pool_ok pl \<and> um_ok (matchers e) \<and> um_ok (book_slots e) \<and>
     (\<forall>i m. um_find (matchers e) i = Some m \<longrightarrow>
        book_instrument (m_book m) = i \<and> matcher_ok pl (m_book m)) \<and>
     (\<forall>i j m m'. um_find (matchers e) i = Some m \<longrightarrow> um_find (matchers e) j = Some m' \<longrightarrow> i \<noteq> j \<longrightarrow>
        book_ptrs (storage pl) (m_book m) \<inter> book_ptrs (storage pl) (m_book m') = {}) \<and>
     (\<forall>i. um_find (book_slots e) i = (if um_find (matchers e) i = None then None else Some i))"

definition resting :: "pool \<Rightarrow> engine \<Rightarrow> ptr set" where
  "resting pl e = {p. \<exists>i m. um_find (matchers e) i = Some m \<and> p \<in> book_ptrs (storage pl) (m_book m)}"

lemma resting_code [code]:
  "resting pl e = (\<Union>i \<in> set (map fst (matchers e)).
     case um_find (matchers e) i of None \<Rightarrow> {} | Some m \<Rightarrow> book_ptrs (storage pl) (m_book m))"
proof -
  have "i \<in> set (map fst (matchers e))" if "um_find (matchers e) i = Some m" for i m
    using that by (force simp: um_find_def dest: map_of_SomeD)
  then show ?thesis by (fastforce simp: resting_def split: option.splits)
qed

lemma engine_ok_matcher:
  assumes "engine_ok pl e" and "um_find (matchers e) i = Some m"
  shows "matcher_ok pl (m_book m)" and "book_instrument (m_book m) = i"
    and "book_ptrs (storage pl) (m_book m) \<subseteq> resting pl e" and "pool_ok pl"
  using assms by (auto simp: engine_ok_def resting_def)

lemma engine_book_ok: "engine_ok pl e \<Longrightarrow> engine_book e i = Some (map_option m_book (um_find (matchers e) i))"
  by (auto simp: engine_book_def engine_ok_def split: option.splits)

text \<open>A change of the slab outside the orders of a book leaves the book alone.\<close>

lemma matcher_frame:
  assumes ok: "matcher_ok pl b" and so: "same_outside S (storage pl) (storage pl')"
    and dj: "book_ptrs (storage pl) b \<inter> S = {}" and po: "pool_ok pl'"
    and fr: "set (free_list pl') \<subseteq> set (free_list pl) \<union> S"
  shows "matcher_ok pl' b" and "book_ptrs (storage pl') b = book_ptrs (storage pl) b"
    and "book_view (storage pl') b s = book_view (storage pl) b s"
proof -
  have bo: "book_ok (storage pl) b" using ok by (simp add: matcher_ok_def)
  note out = book_ok_outside [OF bo so dj]
  then show bp: "book_ptrs (storage pl') b = book_ptrs (storage pl) b" by (simp add: book_ptrs_def)
  show "matcher_ok pl' b" using out(1) bp po fr ok dj by (auto simp: matcher_ok_def)
  have "side_queue (storage pl') b s = side_queue (storage pl) b s" using out by (simp add: side_queue_def)
  moreover have "storage pl' ! q = storage pl ! q" if "q \<in> set (side_queue (storage pl) b s)" for q
    using same_outside_nth [OF so] that dj book_ptrs_range [OF bo] book_ptrs_sides [of "storage pl" b s] by auto
  ultimately show "book_view (storage pl') b s = book_view (storage pl) b s"
    by (intro book_view_cong) auto
qed

lemma resting_others:
  assumes ok: "engine_ok pl e" and m: "um_find (matchers e) i = Some m"
  shows "p \<in> resting pl e - book_ptrs (storage pl) (m_book m) \<longleftrightarrow>
    (\<exists>j mj. j \<noteq> i \<and> um_find (matchers e) j = Some mj \<and> p \<in> book_ptrs (storage pl) (m_book mj))"
proof -
  have "book_ptrs (storage pl) (m_book mj) \<inter> book_ptrs (storage pl) (m_book m) = {}"
    if "um_find (matchers e) j = Some mj" "j \<noteq> i" for j mj
    using ok that m by (auto simp: engine_ok_def)
  then show ?thesis unfolding resting_def using m by (auto, metis option.inject)
qed

text \<open>
  One book changes, within a set \<open>S\<close> of slots that meets no other book: the engine stays sound
  and all other books keep their contents.
\<close>

lemma engine_update:
  assumes ok: "engine_ok pl e" and m: "um_find (matchers e) i = Some m"
    and so: "same_outside S (storage pl) (storage pl')" and po: "pool_ok pl'"
    and fr: "set (free_list pl') \<subseteq> set (free_list pl) \<union> S"
    and S: "\<forall>j mj. um_find (matchers e) j = Some mj \<longrightarrow> j \<noteq> i \<longrightarrow> book_ptrs (storage pl) (m_book mj) \<inter> S = {}"
    and m': "matcher_ok pl' (m_book m')" "book_instrument (m_book m') = i" "book_ptrs (storage pl') (m_book m') \<subseteq> S"
  shows "engine_ok pl' (e\<lparr>matchers := um_assign i m' (matchers e)\<rparr>)"
    and "resting pl' (e\<lparr>matchers := um_assign i m' (matchers e)\<rparr>) =
      (resting pl e - book_ptrs (storage pl) (m_book m)) \<union> book_ptrs (storage pl') (m_book m')"
proof -
  let ?e = "e\<lparr>matchers := um_assign i m' (matchers e)\<rparr>"
  have f: "um_find (um_assign i m' (matchers e)) j = (if j = i then Some m' else um_find (matchers e) j)" for j
    using m by (simp add: um_find_assign)
  have oth: "matcher_ok pl' (m_book mj)" "book_ptrs (storage pl') (m_book mj) = book_ptrs (storage pl) (m_book mj)"
    if "um_find (matchers e) j = Some mj" "j \<noteq> i" for j mj
    using matcher_frame [OF engine_ok_matcher(1) [OF ok that(1)] so S [rule_format, OF that] po fr] by auto
  have dj: "book_ptrs (storage pl) (m_book mj) \<inter> book_ptrs (storage pl) (m_book mk) = {}"
    if "um_find (matchers e) j = Some mj" "um_find (matchers e) k = Some mk" "j \<noteq> k" for j k mj mk
    using ok that by (auto simp: engine_ok_def)
  have new: "book_ptrs (storage pl') (m_book m') \<inter> book_ptrs (storage pl') (m_book mj) = {}"
    if "um_find (matchers e) j = Some mj" "j \<noteq> i" for j mj
    using S [rule_format, OF that] oth(2) [OF that] m'(3) by blast
  have "book_ptrs (storage pl') (m_book mj) \<inter> book_ptrs (storage pl') (m_book mk) = {}"
    if "um_find (matchers ?e) j = Some mj" "um_find (matchers ?e) k = Some mk" "j \<noteq> k" for j k mj mk
  proof (cases "j = i \<or> k = i")
    case True
    then show ?thesis using that new [of j mj] new [of k mk] by (auto simp: f)
  next
    case False
    then show ?thesis using that dj [of j mj k mk] oth(2) [of j mj] oth(2) [of k mk] by (simp add: f)
  qed
  moreover have "book_instrument (m_book mj) = j \<and> matcher_ok pl' (m_book mj)" if "um_find (matchers ?e) j = Some mj" for j mj
    using that m'(1,2) oth(1) engine_ok_matcher(2) [OF ok] by (auto simp: f split: if_splits)
  moreover have "um_find (book_slots ?e) j = (if um_find (matchers ?e) j = None then None else Some j)" for j
    using ok m by (auto simp: engine_ok_def f)
  ultimately show "engine_ok pl' ?e" using ok po unfolding engine_ok_def by simp
  have "p \<in> resting pl' ?e \<longleftrightarrow> p \<in> book_ptrs (storage pl') (m_book m') \<or>
      (\<exists>j mj. j \<noteq> i \<and> um_find (matchers e) j = Some mj \<and> p \<in> book_ptrs (storage pl) (m_book mj))" for p
    unfolding resting_def using oth(2) by (auto simp: f)
  moreover have "p \<in> resting pl e - book_ptrs (storage pl) (m_book m) \<longleftrightarrow>
      (\<exists>j mj. j \<noteq> i \<and> um_find (matchers e) j = Some mj \<and> p \<in> book_ptrs (storage pl) (m_book mj))" for p
    by (rule resting_others [OF ok m])
  ultimately show "resting pl' ?e = (resting pl e - book_ptrs (storage pl) (m_book m)) \<union> book_ptrs (storage pl') (m_book m')"
    by blast
qed

text \<open>The same for a book that is closed.\<close>

lemma engine_close:
  assumes ok: "engine_ok pl e" and m: "um_find (matchers e) i = Some m"
    and so: "same_outside S (storage pl) (storage pl')" and po: "pool_ok pl'"
    and fr: "set (free_list pl') \<subseteq> set (free_list pl) \<union> S"
    and S: "S \<subseteq> book_ptrs (storage pl) (m_book m)"
  defines "e' \<equiv> e\<lparr>book_slots := um_erase i (book_slots e), matchers := um_erase i (matchers e)\<rparr>"
  shows "engine_ok pl' e'" and "resting pl' e' = resting pl e - book_ptrs (storage pl) (m_book m)"
proof -
  have f: "um_find (matchers e') j = (if j = i then None else um_find (matchers e) j)" for j
    by (simp add: e'_def um_find_erase)
  have dj: "book_ptrs (storage pl) (m_book mj) \<inter> book_ptrs (storage pl) (m_book mk) = {}"
    if "um_find (matchers e) j = Some mj" "um_find (matchers e) k = Some mk" "j \<noteq> k" for j k mj mk
    using ok that by (auto simp: engine_ok_def)
  have oth: "matcher_ok pl' (m_book mj)" "book_ptrs (storage pl') (m_book mj) = book_ptrs (storage pl) (m_book mj)"
    if "um_find (matchers e) j = Some mj" "j \<noteq> i" for j mj
  proof -
    have "book_ptrs (storage pl) (m_book mj) \<inter> S = {}" using dj [OF that(1) m that(2)] S by blast
    from matcher_frame [OF engine_ok_matcher(1) [OF ok that(1)] so this po fr]
    show "matcher_ok pl' (m_book mj)" "book_ptrs (storage pl') (m_book mj) = book_ptrs (storage pl) (m_book mj)"
      by auto
  qed
  have "book_ptrs (storage pl') (m_book mj) \<inter> book_ptrs (storage pl') (m_book mk) = {}"
    if "um_find (matchers e') j = Some mj" "um_find (matchers e') k = Some mk" "j \<noteq> k" for j k mj mk
    using that dj [of j mj k mk] oth(2) [of j mj] oth(2) [of k mk] by (auto simp: f split: if_splits)
  moreover have "book_instrument (m_book mj) = j \<and> matcher_ok pl' (m_book mj)" if "um_find (matchers e') j = Some mj" for j mj
    using that oth(1) engine_ok_matcher(2) [OF ok] by (auto simp: f split: if_splits)
  moreover have "um_find (book_slots e') j = (if um_find (matchers e') j = None then None else Some j)" for j
    using ok unfolding f by (simp add: engine_ok_def e'_def um_find_erase)
  moreover have "um_ok (matchers e')" "um_ok (book_slots e')" using ok by (simp_all add: e'_def engine_ok_def)
  ultimately show "engine_ok pl' e'" using po unfolding engine_ok_def by blast
  have "p \<in> resting pl' e' \<longleftrightarrow> (\<exists>j mj. j \<noteq> i \<and> um_find (matchers e) j = Some mj \<and> p \<in> book_ptrs (storage pl) (m_book mj))" for p
    unfolding resting_def using oth(2) by (auto simp: f split: if_splits)
  then show "resting pl' e' = resting pl e - book_ptrs (storage pl) (m_book m)"
    using resting_others [OF ok m] by blast
qed

text \<open>Nothing but a slot outside every book changes.\<close>

lemma engine_frame:
  assumes ok: "engine_ok pl e" and so: "same_outside S (storage pl) (storage pl')" and po: "pool_ok pl'"
    and fr: "set (free_list pl') \<subseteq> set (free_list pl) \<union> S" and S: "resting pl e \<inter> S = {}"
  shows "engine_ok pl' e" and "resting pl' e = resting pl e"
proof -
  have oth: "matcher_ok pl' (m_book mj)" "book_ptrs (storage pl') (m_book mj) = book_ptrs (storage pl) (m_book mj)"
    if "um_find (matchers e) j = Some mj" for j mj
  proof -
    have "book_ptrs (storage pl) (m_book mj) \<inter> S = {}" using engine_ok_matcher(3) [OF ok that] S by blast
    from matcher_frame [OF engine_ok_matcher(1) [OF ok that] so this po fr]
    show "matcher_ok pl' (m_book mj)" "book_ptrs (storage pl') (m_book mj) = book_ptrs (storage pl) (m_book mj)"
      by auto
  qed
  then show "engine_ok pl' e" using ok po by (simp add: engine_ok_def)
  show "resting pl' e = resting pl e" unfolding resting_def using oth(2) by (intro Collect_cong) metis
qed

lemma resting_free: "engine_ok pl e \<Longrightarrow> resting pl e \<inter> set (free_list pl) = {}"
  by (auto simp: engine_ok_def resting_def matcher_ok_def)

lemma resting_range: "engine_ok pl e \<Longrightarrow> resting pl e \<subseteq> {..<length (storage pl)}"
  using book_ptrs_range by (fastforce simp: engine_ok_def resting_def matcher_ok_def)

section \<open>Construction\<close>

lemma open_books_find:
  "um_find (matchers (open_books filt sps e)) k =
     (case um_find (matchers e) k of Some m \<Rightarrow> Some m
      | None \<Rightarrow> if passes filt k \<and> k \<in> spec_id ` set sps then Some (new_matcher k) else None)"
  "um_find (book_slots (open_books filt sps e)) k =
     (case um_find (book_slots e) k of Some i \<Rightarrow> Some i
      | None \<Rightarrow> if passes filt k \<and> k \<in> spec_id ` set sps then Some k else None)"
  by (induction filt sps e rule: open_books.induct) (auto simp: um_find_emplace split: option.splits)

lemma open_books_ok:
  assumes "pool_ok pl" and "engine_ok pl e" and "resting pl e = {}"
  shows "engine_ok pl (open_books filt sps e) \<and> resting pl (open_books filt sps e) = {}"
  using assms
proof (induction filt sps e rule: open_books.induct)
  case (2 filt sp sps e)
  let ?e = "e\<lparr>book_slots := um_emplace (spec_id sp) (spec_id sp) (book_slots e),
    matchers := um_emplace (spec_id sp) (new_matcher (spec_id sp)) (matchers e)\<rparr>"
  have z: "book_ptrs (storage pl) (m_book m) = {}" if "um_find (matchers e) i = Some m" for i m
    using that "2.prems"(3) by (auto simp: resting_def)
  have z': "book_instrument (m_book m) = i \<and> matcher_ok pl (m_book m)" "book_ptrs (storage pl) (m_book m) = {}"
    if "um_find (matchers ?e) i = Some m" for i m
  proof -
    have "um_find (matchers e) i = Some m \<or> m = new_matcher i"
      using that by (auto simp: um_find_emplace split: if_splits)
    moreover have "matcher_ok pl (new_book i)" "book_ptrs (storage pl) (new_book i) = {}"
      using "2.prems"(1) by (simp_all add: matcher_ok_def book_ptrs_def)
    ultimately show "book_instrument (m_book m) = i \<and> matcher_ok pl (m_book m)" "book_ptrs (storage pl) (m_book m) = {}"
      using z engine_ok_matcher(1,2) [OF "2.prems"(2)] by (auto simp: new_matcher_def new_book_def)
  qed
  have "um_find (book_slots ?e) i = (if um_find (matchers ?e) i = None then None else Some i)" for i
    using "2.prems"(2) by (auto simp: engine_ok_def um_find_emplace)
  moreover have "um_ok (matchers ?e)" "um_ok (book_slots ?e)" using "2.prems"(2) by (auto simp: engine_ok_def)
  ultimately have "engine_ok pl ?e"
    unfolding engine_ok_def using z' "2.prems"(1) by blast
  moreover have "resting pl ?e = {}" using z'(2) unfolding resting_def by blast
  ultimately show ?case using 2 by simp
qed simp

end
