(* ===== verification/Engine_Safety.thy ===== *)
theory Engine_Safety
  imports Engine
begin

text \<open>
  The engine and the pool as one system with its callers. A caller takes a slot, writes the
  order into it, submits it, and releases it; the engine moves slots between the books and the
  free stack. The theorems say that no sequence of these steps touches a slot that is not the
  actor's: no double release, no use after release, no slot in two places.
\<close>

section \<open>The operations on a sound engine\<close>

lemma submit_post_terminal:
  assumes "submit_post clk pl b p pl' b' trs n" and "is_terminal (storage pl' ! p)" and "p \<notin> book_ptrs (storage pl) b"
  shows "p \<notin> book_ptrs (storage pl') b'"
proof
  assume "p \<in> book_ptrs (storage pl') b'"
  note P = assms(1) [unfolded submit_post_def Let_def]
  let ?t = "core (storage pl ! p)"
  have nr: "\<not> spec_rejects (book_instrument b) ?t (book_view (storage pl) b (opposite (side ?t)))" and rs: "rests (storage pl' ! p)"
    using P \<open>p \<in> book_ptrs (storage pl') b'\<close> assms(3) by (auto split: if_splits)
  obtain t1 where "core (storage pl' ! p) = t1\<lparr>status := settle_status t1, match_complete_ns := sint (clk 1)\<rparr>"
    using P nr by (auto elim: submit_spec_cases)
  then have "status (core (storage pl' ! p)) = settle_status t1" "rests (core (storage pl' ! p)) = rests t1"
    by simp_all
  then show False
    using rs assms(2) by (auto simp: is_terminal_def settle_status_def rests_def split: if_splits)
qed

text \<open>The two ways through \<open>submit\<close> and the two ways through \<open>cancel\<close>.\<close>

lemma engine_submit_cases:
  assumes ok: "engine_ok pl e" and p: "p < length (storage pl)" "p \<notin> resting pl e" "p \<notin> set (free_list pl)"
  obtains (unknown) "um_find (matchers e) (order_instrument (storage pl ! p)) = None"
      and "engine_submit clk pl e p =
        Some (pl\<lparr>storage := (storage pl)[p := (storage pl ! p)\<lparr>status := Rejected\<rparr>]\<rparr>, e, [])"
  | (known) m pl' m' trs n where "um_find (matchers e) (order_instrument (storage pl ! p)) = Some m"
      and "match_pre pl (m_book m) p" and "submit_post clk pl (m_book m) p pl' (m_book m') trs n"
      and "engine_submit clk pl e p =
        Some (pl', e\<lparr>matchers := um_assign (order_instrument (storage pl ! p)) m' (matchers e)\<rparr>, trs)"
      and "same_outside (insert p (book_ptrs (storage pl) (m_book m))) (storage pl) (storage pl')" and "pool_ok pl'"
      and "set (free_list pl') \<subseteq> set (free_list pl) \<union> insert p (book_ptrs (storage pl) (m_book m))"
      and "\<forall>j mj. um_find (matchers e) j = Some mj \<longrightarrow> j \<noteq> order_instrument (storage pl ! p) \<longrightarrow>
        book_ptrs (storage pl) (m_book mj) \<inter> insert p (book_ptrs (storage pl) (m_book m)) = {}"
proof (cases "um_find (matchers e) (order_instrument (storage pl ! p))")
  case None
  then show ?thesis using unknown p by (simp add: engine_submit_def)
next
  case (Some m)
  have pre: "match_pre pl (m_book m) p"
    using engine_ok_matcher [OF ok Some] p by (auto simp: match_pre_matcher_ok)
  obtain pl' m' trs n where s: "matcher_submit clk pl m p = Some (pl', m', trs)"
      "submit_post clk pl (m_book m) p pl' (m_book m') trs n"
    using submit_refines [OF pre] by metis
  note P = s(2) [unfolded submit_post_def Let_def]
  have "set (free_list pl') \<subseteq> set (free_list pl) \<union> insert p (book_ptrs (storage pl) (m_book m))"
    using P book_ptrs_sides [of "storage pl" "m_book m" "side (storage pl ! p)"] by (auto dest: in_set_takeD)
  moreover have "\<forall>j mj. um_find (matchers e) j = Some mj \<longrightarrow> j \<noteq> order_instrument (storage pl ! p) \<longrightarrow>
      book_ptrs (storage pl) (m_book mj) \<inter> insert p (book_ptrs (storage pl) (m_book m)) = {}"
    using ok Some p(2) engine_ok_matcher(3) [OF ok] by (fastforce simp: engine_ok_def)
  ultimately show ?thesis using known [OF Some pre s(2)] Some p s(1) P by (simp add: engine_submit_def)
qed

lemma engine_cancel_cases:
  assumes ok: "engine_ok pl e"
  obtains (miss) "engine_cancel pl e j i = Some (False, pl, e)"
  | (hit) m p pl' m' where "um_find (matchers e) j = Some m" and "cancel_post pl (m_book m) i p pl' (m_book m')"
      and "engine_cancel pl e j i = Some (True, pl', e\<lparr>matchers := um_assign j m' (matchers e)\<rparr>)"
      and "same_outside (book_ptrs (storage pl) (m_book m)) (storage pl) (storage pl')" and "pool_ok pl'"
      and "set (free_list pl') \<subseteq> set (free_list pl) \<union> book_ptrs (storage pl) (m_book m)"
      and "\<forall>k mk. um_find (matchers e) k = Some mk \<longrightarrow> k \<noteq> j \<longrightarrow>
        book_ptrs (storage pl) (m_book mk) \<inter> book_ptrs (storage pl) (m_book m) = {}"
proof (cases "um_find (matchers e) j")
  case None
  then show ?thesis using miss by (simp add: engine_cancel_def)
next
  case (Some m)
  note mk = engine_ok_matcher [OF ok Some]
  show ?thesis
  proof (cases "book_find (m_book m) i")
    case None
    have "um_assign j m (matchers e) = matchers e"
      using Some ok by (intro um_assign_same) (auto simp: engine_ok_def)
    then show ?thesis using miss Some matcher_cancel_miss [OF None] by (simp add: engine_cancel_def)
  next
    case f: (Some p)
    obtain pl' m' where c: "matcher_cancel pl m i = Some (True, pl', m')" "cancel_post pl (m_book m) i p pl' (m_book m')"
      using matcher_cancel_hit [OF mk(1) f] by blast
    note P = c(2) [unfolded cancel_post_def Let_def]
    have "\<forall>k mk. um_find (matchers e) k = Some mk \<longrightarrow> k \<noteq> j \<longrightarrow>
        book_ptrs (storage pl) (m_book mk) \<inter> book_ptrs (storage pl) (m_book m) = {}"
      using ok Some by (auto simp: engine_ok_def)
    then show ?thesis using hit [OF Some c(2)] c(1) Some P by (auto simp: engine_cancel_def matcher_ok_def)
  qed
qed

lemma engine_submit_full:
  assumes ok: "engine_ok pl e" and p: "p < length (storage pl)" "p \<notin> resting pl e" "p \<notin> set (free_list pl)"
  obtains pl' e' trs where "engine_submit clk pl e p = Some (pl', e', trs)" and "engine_ok pl' e'"
    and "p \<notin> set (free_list pl')" and "length (storage pl') = length (storage pl)"
    and "resting pl' e' \<subseteq> insert p (resting pl e)"
    and "insert p (resting pl' e' \<union> set (free_list pl')) = insert p (resting pl e \<union> set (free_list pl))"
    and "is_terminal (storage pl' ! p) \<longrightarrow> p \<notin> resting pl' e'"
    and "\<forall>k. um_find (matchers e') k = None \<longleftrightarrow> um_find (matchers e) k = None"
    and "case um_find (matchers e) (order_instrument (storage pl ! p)) of
        None \<Rightarrow> trs = [] \<and> status (storage pl' ! p) = Rejected
      | Some m \<Rightarrow> \<exists>m' n. um_find (matchers e') (order_instrument (storage pl ! p)) = Some m' \<and>
          submit_post clk pl (m_book m) p pl' (m_book m') trs n"
  using ok p
proof (cases rule: engine_submit_cases [of _ _ _ clk])
  case unknown
  let ?h = "(storage pl)[p := (storage pl ! p)\<lparr>status := Rejected\<rparr>]"
  have so: "same_outside {p} (storage pl) ?h" by (rule same_outside_update) simp
  have po: "pool_ok (pl\<lparr>storage := ?h\<rparr>)" using ok by (simp add: engine_ok_def pool_ok_storage)
  have "engine_ok (pl\<lparr>storage := ?h\<rparr>) e" "resting (pl\<lparr>storage := ?h\<rparr>) e = resting pl e"
    using engine_frame [OF ok, of "{p}" "pl\<lparr>storage := ?h\<rparr>"] so po p(2) by auto
  then show ?thesis using that [OF unknown(2)] p unknown(1) by auto
next
  case (known m pl' m' trs n)
  let ?b = "m_book m" and ?i = "order_instrument (storage pl ! p)"
  let ?S = "insert p (book_ptrs (storage pl) ?b)"
  let ?e = "e\<lparr>matchers := um_assign ?i m' (matchers e)\<rparr>" and ?q = "opp_queue pl ?b p"
  note mk = engine_ok_matcher [OF ok known(1)] and P = known(3) [unfolded submit_post_def Let_def]
  have qb: "set (take n ?q) \<subseteq> book_ptrs (storage pl) ?b"
    using book_ptrs_sides [of "storage pl" ?b "side (storage pl ! p)"] by (auto dest: in_set_takeD)
  have bp: "book_ptrs (storage pl') (m_book m') \<subseteq> ?S"
      "insert p (book_ptrs (storage pl') (m_book m') \<union> set (take n ?q)) = ?S" and fr: "free_list pl' = free_list pl @ take n ?q"
    using P qb by (auto split: if_splits)
  have mo: "matcher_ok pl' (m_book m')" and bi: "book_instrument (m_book m') = ?i"
    using P submit_post_ok [OF known(2,3)] mk(2) by (auto simp: matcher_ok_def)
  note upd = engine_update [OF ok known(1,5-8) mo bi bp(1)]
  have "insert p (resting pl' ?e \<union> set (free_list pl')) = insert p (resting pl e \<union> set (free_list pl))"
    unfolding upd(2) fr using bp(2) mk(3) by auto
  moreover have "resting pl' ?e \<subseteq> insert p (resting pl e)" unfolding upd(2) using bp(1) mk(3) by auto
  moreover have "p \<notin> set (free_list pl')" using fr qb p(2,3) mk(3) by auto
  moreover have "is_terminal (storage pl' ! p) \<longrightarrow> p \<notin> resting pl' ?e"
    unfolding upd(2) using submit_post_terminal [OF known(3)] p(2) mk(3) by auto
  moreover have "\<forall>k. um_find (matchers ?e) k = None \<longleftrightarrow> um_find (matchers e) k = None" "um_find (matchers ?e) ?i = Some m'"
    using known(1) by (simp_all add: um_find_assign)
  ultimately show ?thesis using that [OF known(4) upd(1)] same_outside_length [OF known(5)] known(1,3) by auto
qed

lemma engine_submit_safe:
  assumes ok: "engine_ok pl e" and p: "p < length (storage pl)" "p \<notin> resting pl e" "p \<notin> set (free_list pl)"
  obtains pl' e' trs where "engine_submit clk pl e p = Some (pl', e', trs)" and "engine_ok pl' e'"
    and "p \<notin> set (free_list pl')" and "length (storage pl') = length (storage pl)"
    and "resting pl' e' \<subseteq> insert p (resting pl e)"
    and "insert p (resting pl' e' \<union> set (free_list pl')) = insert p (resting pl e \<union> set (free_list pl))"
  by (rule engine_submit_full [OF ok p]) (rule that)

lemma engine_submit_frame:
  assumes ok: "engine_ok pl e" and p: "p < length (storage pl)" "p \<notin> resting pl e" "p \<notin> set (free_list pl)"
    and j: "j \<noteq> order_instrument (storage pl ! p)"
  obtains pl' e' trs S where "engine_submit clk pl e p = Some (pl', e', trs)" and "um_find (matchers e') j = um_find (matchers e) j"
    and "same_outside S (storage pl) (storage pl')" and "pool_ok pl'" and "set (free_list pl') \<subseteq> set (free_list pl) \<union> S"
    and "\<forall>m. um_find (matchers e) j = Some m \<longrightarrow> book_ptrs (storage pl) (m_book m) \<inter> S = {}"
    and "um_find (matchers e) (order_instrument (storage pl ! p)) = None \<longrightarrow> trs = [] \<and> status (storage pl' ! p) = Rejected"
  using ok p
proof (cases rule: engine_submit_cases [of _ _ _ clk])
  case unknown
  let ?pl = "pl\<lparr>storage := (storage pl)[p := (storage pl ! p)\<lparr>status := Rejected\<rparr>]\<rparr>"
  have "same_outside {p} (storage pl) (storage ?pl)" by (simp add: same_outside_update)
  moreover have "pool_ok ?pl" using ok by (simp add: engine_ok_def pool_ok_storage)
  moreover have "\<forall>m. um_find (matchers e) j = Some m \<longrightarrow> book_ptrs (storage pl) (m_book m) \<inter> {p} = {}"
    using p(2) engine_ok_matcher(3) [OF ok] by blast
  ultimately show ?thesis using that [OF unknown(2), of "{p}"] p(1) by auto
next
  case (known m pl' m' trs n)
  then show ?thesis
    using that [OF known(4) _ known(5-7)] j by (simp add: um_find_assign)
qed

lemma engine_cancel_safe:
  assumes ok: "engine_ok pl e"
  obtains found pl' e' where "engine_cancel pl e j i = Some (found, pl', e')" and "engine_ok pl' e'"
    and "length (storage pl') = length (storage pl)" and "resting pl' e' \<subseteq> resting pl e"
    and "resting pl' e' \<union> set (free_list pl') = resting pl e \<union> set (free_list pl)"
  using ok
proof (cases rule: engine_cancel_cases [of _ _ j i])
  case miss
  then show ?thesis using that [of False pl e] ok by simp
next
  case (hit m p pl' m')
  let ?e = "e\<lparr>matchers := um_assign j m' (matchers e)\<rparr>" and ?S = "book_ptrs (storage pl) (m_book m)"
  note mk = engine_ok_matcher [OF ok hit(1)] and P = hit(2) [unfolded cancel_post_def Let_def]
  have mo: "matcher_ok pl' (m_book m')" and bi: "book_instrument (m_book m') = j" and bp: "book_ptrs (storage pl') (m_book m') \<subseteq> ?S"
    using P mk(2) by auto
  note upd = engine_update [OF ok hit(1,4-7) mo bi bp]
  have "free_list pl' = free_list pl @ [p]" "book_ptrs (storage pl') (m_book m') = ?S - {p}" "p \<in> ?S"
    using P by auto
  then have "resting pl' ?e \<union> set (free_list pl') = resting pl e \<union> set (free_list pl)"
    using upd(2) mk(3) by auto
  moreover have "resting pl' ?e \<subseteq> resting pl e" unfolding upd(2) using bp mk(3) by auto
  ultimately show ?thesis using that [OF hit(3) upd(1)] same_outside_length [OF hit(4)] by simp
qed

lemma engine_expire_cases:
  assumes ok: "engine_ok pl e"
  obtains (none) "um_find (matchers e) i = None" and "expire_instrument pl e i = Some (False, pl, e)"
  | (close) m pl' hs where "um_find (matchers e) i = Some m"
      and "expire_instrument pl e i = Some (True, pl', e\<lparr>book_slots := um_erase i (book_slots e), matchers := um_erase i (matchers e)\<rparr>)"
      and "pool_ok pl'" and "free_list pl' = free_list pl @ hs" and "set hs \<subseteq> book_ptrs (storage pl) (m_book m)"
      and "same_outside (set hs) (storage pl) (storage pl')"
proof (cases "um_find (matchers e) i")
  case None
  then show ?thesis using none by (simp add: expire_instrument_def)
next
  case (Some m)
  obtain pl' m' hs where c: "cancel_all pl m = Some (pl', m')" "pool_ok pl'" "free_list pl' = free_list pl @ hs"
      "set hs \<subseteq> book_ptrs (storage pl) (m_book m)" "same_outside (set hs) (storage pl) (storage pl')"
    using cancel_all_heads [OF engine_ok_matcher(1) [OF ok Some]] by metis
  then show ?thesis using close [OF Some] Some by (simp add: expire_instrument_def)
qed

lemma engine_expire_safe:
  assumes ok: "engine_ok pl e"
  obtains found pl' e' where "expire_instrument pl e i = Some (found, pl', e')" and "engine_ok pl' e'"
    and "length (storage pl') = length (storage pl)" and "resting pl' e' \<subseteq> resting pl e"
    and "resting pl' e' \<union> set (free_list pl') \<subseteq> resting pl e \<union> set (free_list pl)"
  using ok
proof (cases rule: engine_expire_cases [of _ _ i])
  case none
  then show ?thesis using that [of False pl e] ok by simp
next
  case (close m pl' hs)
  let ?e = "e\<lparr>book_slots := um_erase i (book_slots e), matchers := um_erase i (matchers e)\<rparr>"
  have "set (free_list pl') \<subseteq> set (free_list pl) \<union> set hs" using close(4) by simp
  note cl = engine_close [OF ok close(1,6,3) this close(5)]
  have "resting pl' ?e \<union> set (free_list pl') \<subseteq> resting pl e \<union> set (free_list pl)"
    unfolding cl(2) using close(4,5) engine_ok_matcher(3) [OF ok close(1)] by auto
  then show ?thesis using that [OF close(2) cl(1)] same_outside_length [OF close(6)] cl(2) by simp
qed

section \<open>The system of engine, pool and callers\<close>

text \<open>\<open>s_held\<close> is the set of slots the callers own: acquired, and neither released nor resting.\<close>

record sys =
  s_pool :: pool
  s_engine :: engine
  s_held :: "ptr set"

datatype sys_op =
    Acquire
  | Write ptr order
  | Submit "nat \<Rightarrow> u64" ptr
  | Cancel u32 u64
  | Expire u32
  | Release ptr

fun sys_exec :: "sys_op \<Rightarrow> sys \<Rightarrow> sys option" where
  "sys_exec Acquire s =
     do {
       (slot, pl) \<leftarrow> acquire_order (s_pool s);
       Some (s\<lparr>s_pool := pl, s_held := s_held s \<union> set_option slot\<rparr>)
     }"
| "sys_exec (Write p x) s =
     do {
       h \<leftarrow> modify_at (storage (s_pool s)) p (\<lambda>_. x);
       Some (s\<lparr>s_pool := (s_pool s)\<lparr>storage := h\<rparr>\<rparr>)
     }"
| "sys_exec (Submit clk p) s =
     do {
       (pl, e, trades) \<leftarrow> engine_submit clk (s_pool s) (s_engine s) p;
       Some (s\<lparr>s_pool := pl, s_engine := e, s_held := s_held s - resting pl e\<rparr>)
     }"
| "sys_exec (Cancel j i) s =
     do {
       (found, pl, e) \<leftarrow> engine_cancel (s_pool s) (s_engine s) j i;
       Some (s\<lparr>s_pool := pl, s_engine := e\<rparr>)
     }"
| "sys_exec (Expire i) s =
     do {
       (found, pl, e) \<leftarrow> expire_instrument (s_pool s) (s_engine s) i;
       Some (s\<lparr>s_pool := pl, s_engine := e\<rparr>)
     }"
| "sys_exec (Release p) s =
     do {
       pl \<leftarrow> release_order (s_pool s) p;
       Some (s\<lparr>s_pool := pl, s_held := s_held s - {p}\<rparr>)
     }"

text \<open>The contract of the callers: they write, submit and release only slots they hold.\<close>

fun sys_allowed :: "sys_op \<Rightarrow> sys \<Rightarrow> bool" where
  "sys_allowed (Write p x) s = (p \<in> s_held s)"
| "sys_allowed (Submit clk p) s = (p \<in> s_held s)"
| "sys_allowed (Release p) s = (p \<in> s_held s)"
| "sys_allowed _ s = True"

definition sys_resting :: "sys \<Rightarrow> ptr set" where
  "sys_resting s = resting (s_pool s) (s_engine s)"

definition sys_free :: "sys \<Rightarrow> ptr set" where
  "sys_free s = set (free_list (s_pool s))"

definition sys_ok :: "sys \<Rightarrow> bool" where
  "sys_ok s \<longleftrightarrow> engine_ok (s_pool s) (s_engine s) \<and>
     s_held s \<subseteq> {..<length (storage (s_pool s))} \<and>
     s_held s \<inter> sys_free s = {} \<and> s_held s \<inter> sys_resting s = {}"

lemmas sys_defs = sys_ok_def sys_resting_def sys_free_def

lemma sys_acquire:
  assumes ok: "sys_ok s"
  obtains s' where "sys_exec Acquire s = Some s'" and "sys_ok s'" and "sys_resting s' = sys_resting s"
    and "sys_free s' \<union> s_held s' = sys_free s \<union> s_held s" and "length (storage (s_pool s')) = length (storage (s_pool s))"
proof (cases "free_list (s_pool s) = []")
  case True
  then have "pool_acquire (s_pool s) = Some (None, s_pool s)"
    using ok pool_acquire_none by (simp add: sys_ok_def engine_ok_def)
  then show ?thesis using that [of s] ok by (simp add: acquire_order_def)
next
  case False
  let ?pl = "s_pool s" and ?p = "last (free_list (s_pool s))"
  have eo: "engine_ok ?pl (s_engine s)" using ok by (simp add: sys_ok_def)
  have po: "pool_ok ?pl" using eo by (simp add: engine_ok_def)
  obtain pl' where a: "pool_acquire ?pl = Some (Some ?p, pl')" "pool_ok pl'" "free_list pl' = butlast (free_list ?pl)"
      "storage pl' = (storage ?pl)[?p := order_default]"
    by (rule pool_acquire_some [OF po False])
  have set: "set (free_list ?pl) = insert ?p (set (free_list pl'))" "?p \<notin> set (free_list pl')" "?p < length (storage ?pl)"
    using slab.acq_fresh [OF po a(1)] by (auto simp: pool_capacity_def)
  have so: "same_outside {?p} (storage ?pl) (storage pl')" unfolding a(4) by (rule same_outside_update) simp
  have nr: "resting ?pl (s_engine s) \<inter> {?p} = {}" using resting_free [OF eo] set(1) by auto
  have eo': "engine_ok pl' (s_engine s)" "resting pl' (s_engine s) = resting ?pl (s_engine s)"
    using engine_frame [OF eo so a(2) _ nr] set(1) by auto
  let ?s' = "s\<lparr>s_pool := pl', s_held := insert ?p (s_held s)\<rparr>"
  have "sys_ok ?s'" using ok eo' set nr a(4) by (auto simp: sys_defs)
  moreover have "sys_exec Acquire s = Some ?s'" using a(1) by (simp add: acquire_order_def)
  ultimately show ?thesis using that set eo'(2) a(4) by (auto simp: sys_resting_def sys_free_def)
qed

lemma sys_write:
  assumes ok: "sys_ok s" and p: "p \<in> s_held s"
  obtains s' where "sys_exec (Write p x) s = Some s'" and "sys_ok s'" and "sys_resting s' = sys_resting s"
    and "sys_free s' \<union> s_held s' = sys_free s \<union> s_held s" and "length (storage (s_pool s')) = length (storage (s_pool s))"
proof -
  let ?pl = "s_pool s"
  let ?pl' = "?pl\<lparr>storage := (storage ?pl)[p := x]\<rparr>"
  have eo: "engine_ok ?pl (s_engine s)" and pl: "p < length (storage ?pl)" using ok p by (auto simp: sys_ok_def)
  have so: "same_outside {p} (storage ?pl) (storage ?pl')" by (simp add: same_outside_update)
  have po: "pool_ok ?pl'" using eo by (simp add: engine_ok_def pool_ok_storage)
  have eo': "engine_ok ?pl' (s_engine s)" "resting ?pl' (s_engine s) = resting ?pl (s_engine s)"
    using engine_frame [OF eo so po] ok p by (auto simp: sys_defs)
  show ?thesis using that [of "s\<lparr>s_pool := ?pl'\<rparr>"] ok eo' pl by (simp add: sys_defs)
qed

lemma sys_release:
  assumes ok: "sys_ok s" and p: "p \<in> s_held s"
  obtains s' where "sys_exec (Release p) s = Some s'" and "sys_ok s'" and "sys_resting s' = sys_resting s"
    and "sys_free s' \<union> s_held s' = sys_free s \<union> s_held s" and "length (storage (s_pool s')) = length (storage (s_pool s))"
proof -
  let ?pl = "s_pool s"
  have eo: "engine_ok ?pl (s_engine s)" and pl: "p < length (storage ?pl)" "p \<notin> set (free_list ?pl)"
    using ok p by (auto simp: sys_defs)
  obtain pl' where r: "pool_release ?pl p = Some pl'" "pool_ok pl'" "free_list pl' = free_list ?pl @ [p]"
      "storage pl' = storage ?pl"
    using pool_release_some [of ?pl p] eo pl by (auto simp: engine_ok_def)
  have eo': "engine_ok pl' (s_engine s)" "resting pl' (s_engine s) = resting ?pl (s_engine s)"
    using engine_frame [OF eo, of "{p}" pl'] r ok p by (auto simp: sys_defs)
  show ?thesis
    using that [of "s\<lparr>s_pool := pl', s_held := s_held s - {p}\<rparr>"] ok eo' r p
    by (auto simp: sys_defs release_order_def)
qed

lemma sys_submit:
  assumes ok: "sys_ok s" and p: "p \<in> s_held s"
  obtains s' where "sys_exec (Submit clk p) s = Some s'" and "sys_ok s'"
    and "sys_free s' \<union> s_held s' \<union> sys_resting s' = sys_free s \<union> s_held s \<union> sys_resting s"
    and "length (storage (s_pool s')) = length (storage (s_pool s))"
proof -
  have eo: "engine_ok (s_pool s) (s_engine s)" and q: "p < length (storage (s_pool s))"
      "p \<notin> resting (s_pool s) (s_engine s)" "p \<notin> set (free_list (s_pool s))"
    using ok p by (auto simp: sys_defs)
  obtain pl e trs where r: "engine_submit clk (s_pool s) (s_engine s) p = Some (pl, e, trs)" "engine_ok pl e"
      "p \<notin> set (free_list pl)" "length (storage pl) = length (storage (s_pool s))"
      "resting pl e \<subseteq> insert p (resting (s_pool s) (s_engine s))"
      "insert p (resting pl e \<union> set (free_list pl)) = insert p (resting (s_pool s) (s_engine s) \<union> set (free_list (s_pool s)))"
    by (rule engine_submit_safe [OF eo q])
  let ?s' = "s\<lparr>s_pool := pl, s_engine := e, s_held := s_held s - resting pl e\<rparr>"
  have "set (free_list pl) \<subseteq> insert p (resting (s_pool s) (s_engine s) \<union> set (free_list (s_pool s)))"
    using r(6) by blast
  then have "sys_ok ?s'" using ok r(2-4) by (auto simp: sys_defs)
  moreover have "sys_free ?s' \<union> s_held ?s' \<union> sys_resting ?s' = sys_free s \<union> s_held s \<union> sys_resting s"
  proof -
    have "sys_free ?s' \<union> s_held ?s' \<union> sys_resting ?s' = s_held s \<union> insert p (resting pl e \<union> set (free_list pl))"
      using p by (auto simp: sys_resting_def sys_free_def)
    also have "\<dots> = sys_free s \<union> s_held s \<union> sys_resting s"
      unfolding r(6) using p by (auto simp: sys_resting_def sys_free_def)
    finally show ?thesis .
  qed
  ultimately show ?thesis using that [of ?s'] r(1,4) by simp
qed

lemma sys_cancel:
  assumes ok: "sys_ok s"
  obtains s' where "sys_exec (Cancel j i) s = Some s'" and "sys_ok s'"
    and "sys_free s' \<union> s_held s' \<union> sys_resting s' = sys_free s \<union> s_held s \<union> sys_resting s"
    and "length (storage (s_pool s')) = length (storage (s_pool s))"
proof -
  have eo: "engine_ok (s_pool s) (s_engine s)" using ok by (simp add: sys_ok_def)
  obtain f pl e where r: "engine_cancel (s_pool s) (s_engine s) j i = Some (f, pl, e)" "engine_ok pl e"
      "length (storage pl) = length (storage (s_pool s))" "resting pl e \<subseteq> resting (s_pool s) (s_engine s)"
      "resting pl e \<union> set (free_list pl) = resting (s_pool s) (s_engine s) \<union> set (free_list (s_pool s))"
    by (rule engine_cancel_safe [OF eo])
  have "s_held s \<inter> (resting pl e \<union> set (free_list pl)) = {}" unfolding r(5) using ok by (auto simp: sys_defs)
  then have "sys_ok (s\<lparr>s_pool := pl, s_engine := e\<rparr>)" using r(2,3) ok by (auto simp: sys_defs)
  moreover have "sys_free s \<union> s_held s \<union> sys_resting s = set (free_list pl) \<union> s_held s \<union> resting pl e"
    using r(5) by (auto simp: sys_resting_def sys_free_def)
  ultimately show ?thesis
    using that [of "s\<lparr>s_pool := pl, s_engine := e\<rparr>"] r(1,3) by (simp add: sys_resting_def sys_free_def)
qed

lemma sys_expire:
  assumes ok: "sys_ok s"
  obtains s' where "sys_exec (Expire i) s = Some s'" and "sys_ok s'"
    and "length (storage (s_pool s')) = length (storage (s_pool s))"
proof -
  have eo: "engine_ok (s_pool s) (s_engine s)" using ok by (simp add: sys_ok_def)
  obtain f pl e where r: "expire_instrument (s_pool s) (s_engine s) i = Some (f, pl, e)" "engine_ok pl e"
      "length (storage pl) = length (storage (s_pool s))" "resting pl e \<subseteq> resting (s_pool s) (s_engine s)"
      "resting pl e \<union> set (free_list pl) \<subseteq> resting (s_pool s) (s_engine s) \<union> set (free_list (s_pool s))"
    by (rule engine_expire_safe [OF eo])
  have "s_held s \<inter> (resting pl e \<union> set (free_list pl)) = {}" using r(5) ok by (fastforce simp: sys_defs)
  then have "sys_ok (s\<lparr>s_pool := pl, s_engine := e\<rparr>)" using r(2,3) ok by (auto simp: sys_defs)
  then show ?thesis using that [of "s\<lparr>s_pool := pl, s_engine := e\<rparr>"] r(1,3) by simp
qed

text \<open>Every operation, in one statement, as the interface of operation sequences asks for it.\<close>

lemma sys_exec_ok: "sys_ok s \<Longrightarrow> sys_allowed a s \<Longrightarrow> \<exists>s'. sys_exec a s = Some s' \<and> sys_ok s'"
proof (cases a)
  case Acquire
  then show "sys_ok s \<Longrightarrow> ?thesis" using sys_acquire by metis
next
  case (Write p x)
  then show "sys_ok s \<Longrightarrow> sys_allowed a s \<Longrightarrow> ?thesis" using sys_write by (metis sys_allowed.simps(1))
next
  case (Submit clk p)
  then show "sys_ok s \<Longrightarrow> sys_allowed a s \<Longrightarrow> ?thesis" using sys_submit by (metis sys_allowed.simps(2))
next
  case (Cancel j i)
  then show "sys_ok s \<Longrightarrow> ?thesis" using sys_cancel by metis
next
  case (Expire i)
  then show "sys_ok s \<Longrightarrow> ?thesis" using sys_expire by metis
next
  case (Release p)
  then show "sys_ok s \<Longrightarrow> sys_allowed a s \<Longrightarrow> ?thesis" using sys_release by (metis sys_allowed.simps(3))
qed

interpretation slots: op_system sys_exec sys_allowed sys_ok
  by unfold_locales (rule sys_exec_ok)

text \<open>Without expiries the three kinds of slots always make up the whole pool.\<close>

definition sys_complete :: "nat \<Rightarrow> sys \<Rightarrow> bool" where
  "sys_complete n s \<longleftrightarrow> sys_ok s \<and> length (storage (s_pool s)) = n \<and>
     sys_free s \<union> s_held s \<union> sys_resting s = {..<n}"

definition no_expiry :: "sys_op \<Rightarrow> bool" where
  "no_expiry a = (case a of Expire i \<Rightarrow> False | _ \<Rightarrow> True)"

lemma sys_exec_complete:
  assumes "sys_complete n s" and "sys_allowed a s \<and> no_expiry a"
  shows "\<exists>s'. sys_exec a s = Some s' \<and> sys_complete n s'"
proof -
  have ok: "sys_ok s" and al: "sys_allowed a s" using assms by (auto simp: sys_complete_def)
  have "\<exists>s'. sys_exec a s = Some s' \<and> sys_ok s' \<and>
    sys_free s' \<union> s_held s' \<union> sys_resting s' = sys_free s \<union> s_held s \<union> sys_resting s \<and>
    length (storage (s_pool s')) = length (storage (s_pool s))"
  proof (cases a)
    case Acquire
    then show ?thesis using sys_acquire [OF ok] by metis
  next
    case (Write p x)
    then show ?thesis using sys_write [OF ok] al by (metis sys_allowed.simps(1))
  next
    case (Submit clk p)
    then show ?thesis using sys_submit [OF ok] al by (metis sys_allowed.simps(2))
  next
    case (Cancel j i)
    then show ?thesis using sys_cancel [OF ok] by metis
  next
    case (Expire i)
    then show ?thesis using assms(2) by (simp add: no_expiry_def)
  next
    case (Release p)
    then show ?thesis using sys_release [OF ok] al by (metis sys_allowed.simps(3))
  qed
  then show ?thesis using assms(1) by (auto simp: sys_complete_def)
qed

interpretation no_leak: op_system sys_exec "\<lambda>a s. sys_allowed a s \<and> no_expiry a" "sys_complete n" for n
  by unfold_locales (rule sys_exec_complete)

section \<open>The whole system\<close>

text \<open>The initial state: a new pool, a new engine, nothing held.\<close>

definition sys_init :: "nat \<Rightarrow> registry \<Rightarrow> shard_filter \<Rightarrow> sys option" where
  "sys_init n r filt =
     do {
       pl \<leftarrow> pool_init n;
       case engine_new r filt of Inl _ \<Rightarrow> None
       | Inr e \<Rightarrow> Some \<lparr>s_pool = pl, s_engine = e, s_held = {}\<rparr>
     }"

lemma sys_init_ok:
  assumes "sys_init n r filt = Some s"
  shows "sys_ok s" and "sys_complete n s"
proof -
  obtain pl e where i: "pool_init n = Some pl" "engine_new r filt = Inr e"
      and s: "s = \<lparr>s_pool = pl, s_engine = e, s_held = {}\<rparr>"
    using assms by (cases "engine_new r filt") (auto simp: sys_init_def exec_simps)
  note p = pool_init_ok [OF i(1)]
  let ?e0 = "\<lparr>matchers = [], book_slots = []\<rparr>"
  have "engine_ok pl ?e0" "resting pl ?e0 = {}" using p(1) by (auto simp: engine_ok_def resting_def)
  then have e: "engine_ok pl e" "resting pl e = {}"
    using open_books_ok [OF p(1)] i(2) by (auto simp: engine_new_def split: if_splits)
  then show "sys_ok s" "sys_complete n s"
    using p by (auto simp: s sys_complete_def sys_defs lessThan_atLeast0)
qed

text \<open>
  C17. Memory safety of engine and pool. Start from a new pool and a new engine and let the callers
  run any sequence of acquire, write, submit, cancel, expire and release, in which they write,
  submit and release only slots they hold. Then every operation is defined (no access outside the
  slab, no empty stack or full stack), and afterwards the free stack has no slot twice and no
  slot is in two of: the free stack, a book, a caller's hands.
\<close>

theorem engine_memory_safe:
  assumes "sys_init n r filt = Some s" and "admissible sys_exec sys_allowed ops s"
  shows "\<exists>s'. run sys_exec ops s = Some s' \<and> distinct (free_list (s_pool s')) \<and>
    s_held s' \<inter> sys_free s' = {} \<and> s_held s' \<inter> sys_resting s' = {} \<and> sys_free s' \<inter> sys_resting s' = {} \<and>
    sys_free s' \<union> s_held s' \<union> sys_resting s' \<subseteq> {..<length (storage (s_pool s'))}"
proof -
  obtain s' where r: "run sys_exec ops s = Some s'" and ok: "sys_ok s'"
    using slots.run_inv [OF sys_init_ok(1) [OF assms(1)] assms(2)] by blast
  have eo: "engine_ok (s_pool s') (s_engine s')" using ok by (simp add: sys_ok_def)
  have "distinct (free_list (s_pool s'))" "sys_free s' \<subseteq> {..<length (storage (s_pool s'))}"
    using eo by (auto simp: engine_ok_def pool_ok_def sys_free_def)
  then show ?thesis
    using r ok resting_free [OF eo] resting_range [OF eo] by (auto simp: sys_defs)
qed

definition demo_registry :: registry where
  "demo_registry = \<lparr>instruments = [demo_spec], id_map = [(1, 0)], sym_map = [(''AAPL'', 0)], chains = [], frozen = True\<rparr>"

definition demo_ops :: "sys_op list" where
  "demo_ops = [Acquire, Write 1 (demo_order 5 100 10 Sell), Submit (\<lambda>n. of_nat n) 1,
     Acquire, Write 0 (demo_order 6 100 4 Buy), Submit (\<lambda>n. of_nat n) 0, Release 0, Cancel 1 5]"

definition demo_sys :: sys where
  "demo_sys = \<lparr>s_pool = \<lparr>storage = [order_default, order_default], free_slots = [0, 1], stack_top = 2\<rparr>,
     s_engine = \<lparr>matchers = [(1, new_matcher 1)], book_slots = [(1, 1)]\<rparr>, s_held = {}\<rparr>"

lemma demo_init: "sys_init 2 demo_registry None = Some demo_sys"
  by (simp add: sys_init_def pool_init_def engine_new_def demo_registry_def demo_spec_def demo_sys_def
      passes_def um_emplace_def um_find_def numeral_2_eq_2)

lemma demo_admissible:
  "admissible sys_exec (\<lambda>a s. sys_allowed a s \<and> no_expiry a) demo_ops demo_sys"
  "admissible sys_exec sys_allowed demo_ops demo_sys"
  by code_simp+

theorem engine_memory_safe_witness:
  "\<exists>s'. run sys_exec demo_ops demo_sys = Some s' \<and> s_held s' \<inter> sys_free s' = {}"
  using engine_memory_safe [OF demo_init demo_admissible(2)] by blast

text \<open>
  C18. No slot is lost as long as nothing expires. In the same setting, if no instrument expires,
  every slot of the pool is on the free stack, in a book, or in the hands of a caller; matching
  and cancelling leak nothing by themselves.
\<close>

theorem engine_slots_accounted:
  assumes "sys_init n r filt = Some s"
    and "admissible sys_exec (\<lambda>a s. sys_allowed a s \<and> no_expiry a) ops s"
  shows "\<exists>s'. run sys_exec ops s = Some s' \<and> length (storage (s_pool s')) = n \<and>
    sys_free s' \<union> s_held s' \<union> sys_resting s' = {..<n}"
proof -
  obtain s' where "run sys_exec ops s = Some s'" and "sys_complete n s'"
    using no_leak.run_inv [OF sys_init_ok(2) [OF assms(1)] assms(2)] by blast
  then show ?thesis by (auto simp: sys_complete_def)
qed

theorem engine_slots_accounted_witness:
  "\<exists>s'. run sys_exec demo_ops demo_sys = Some s' \<and> sys_free s' \<union> s_held s' \<union> sys_resting s' = {..<2}"
  using engine_slots_accounted [OF demo_init demo_admissible(1)] by blast

text \<open>
  C19. Instruments are independent. Submitting an order changes at most the book of its own
  instrument: on a sound engine every other book shows the same orders, in the same sequence and
  with the same values, as before; and an order for an instrument the engine does not have is
  rejected without a trade.
\<close>

theorem engine_submit_isolated:
  assumes ok: "engine_ok pl e" and p: "p < length (storage pl)" "p \<notin> resting pl e" "p \<notin> set (free_list pl)"
    and j: "j \<noteq> order_instrument (storage pl ! p)"
  shows "\<exists>pl' e' trs. engine_submit clk pl e p = Some (pl', e', trs) \<and>
    um_find (matchers e') j = um_find (matchers e) j \<and>
    (case um_find (matchers e) j of None \<Rightarrow> True
     | Some m \<Rightarrow> list_all (\<lambda>s. book_view (storage pl') (m_book m) s = book_view (storage pl) (m_book m) s) [Buy, Sell]) \<and>
    (um_find (matchers e) (order_instrument (storage pl ! p)) = None \<longrightarrow>
       trs = [] \<and> status (storage pl' ! p) = Rejected)"
proof -
  let ?i = "order_instrument (storage pl ! p)"
  obtain pl' e' trs S where r: "engine_submit clk pl e p = Some (pl', e', trs)" "um_find (matchers e') j = um_find (matchers e) j"
      "same_outside S (storage pl) (storage pl')" "pool_ok pl'" "set (free_list pl') \<subseteq> set (free_list pl) \<union> S"
      "\<forall>m. um_find (matchers e) j = Some m \<longrightarrow> book_ptrs (storage pl) (m_book m) \<inter> S = {}"
      "um_find (matchers e) ?i = None \<longrightarrow> trs = [] \<and> status (storage pl' ! p) = Rejected"
    by (rule engine_submit_frame [OF ok p j])
  have "book_view (storage pl') (m_book m) s = book_view (storage pl) (m_book m) s" if "um_find (matchers e) j = Some m" for m s
    using matcher_frame(3) [OF engine_ok_matcher(1) [OF ok that] r(3) _ r(4,5)] r(6) that by blast
  then have "case um_find (matchers e) j of None \<Rightarrow> True
      | Some m \<Rightarrow> list_all (\<lambda>s. book_view (storage pl') (m_book m) s = book_view (storage pl) (m_book m) s) [Buy, Sell]"
    by (simp split: option.splits)
  with r(1,2,7) show ?thesis by (intro exI conjI)
qed

definition demo_engine :: engine where
  "demo_engine = \<lparr>matchers = [(2, new_matcher 2), (1, new_matcher 1)], book_slots = [(2, 2), (1, 1)]\<rparr>"

definition demo_slab :: pool where
  "demo_slab = \<lparr>storage = [order_default, demo_order 5 100 10 Sell], free_slots = [0, 1], stack_top = 1\<rparr>"

lemma demo_engine_ok: "engine_ok demo_slab demo_engine" "resting demo_slab demo_engine = {}"
proof -
  have p: "pool_ok demo_slab" by (simp add: pool_ok_def free_list_def demo_slab_def)
  have e: "demo_engine = open_books None [demo_spec, demo_spec\<lparr>spec_id := 2\<rparr>] \<lparr>matchers = [], book_slots = []\<rparr>"
    by (simp add: demo_engine_def demo_spec_def passes_def um_emplace_def um_find_def)
  have "engine_ok demo_slab \<lparr>matchers = [], book_slots = []\<rparr>" "resting demo_slab \<lparr>matchers = [], book_slots = []\<rparr> = {}"
    using p by (auto simp: engine_ok_def resting_def)
  from open_books_ok [OF p this] show "engine_ok demo_slab demo_engine" "resting demo_slab demo_engine = {}"
    unfolding e by blast+
qed

theorem engine_submit_isolated_witness:
  "\<exists>pl' e' trs. engine_submit (\<lambda>n. of_nat n) demo_slab demo_engine 1 = Some (pl', e', trs) \<and>
     um_find (matchers e') 2 = um_find (matchers demo_engine) 2"
proof -
  have "1 < length (storage demo_slab)" "1 \<notin> resting demo_slab demo_engine" "1 \<notin> set (free_list demo_slab)"
      "2 \<noteq> order_instrument (storage demo_slab ! 1)"
    using demo_engine_ok(2) by (simp_all add: demo_slab_def free_list_def)
  from engine_submit_isolated [OF demo_engine_ok(1) this] show ?thesis by blast
qed

end
