(* ===== verification/Dispatcher.thy ===== *)
theory Dispatcher
  imports Session Engine_Safety
begin

text \<open>
  \<open>include/ordbk/gateway/dispatcher.hpp\<close> and \<open>src/gateway/dispatcher.cpp\<close>: the dispatcher turns the
  messages of a session into calls of the engine and emits the replies. It keeps no state of its
  own that the code uses (\<open>next_server_order_id_\<close> is never read or written). A message is handled with
  a sequence of clock readings: the first stamps a new order, the others are those of the engine.
\<close>

record gateway =
  g_pool :: pool
  g_engine :: engine
  g_session :: session

section \<open>Handlers\<close>

definition classify :: "order_status \<Rightarrow> new_order_msg \<Rightarrow> engine \<Rightarrow> reject_reason option" where
  "classify st m e =
     (if st \<noteq> Rejected then Some RR_Unknown
      else do {
        book \<leftarrow> engine_book e (no_instrument_id m);
        Some (if book = None then UnknownInstrument
          else if no_quantity m = 0 then InvalidQuantity
          else if no_order_type m = 0 \<and> no_price m \<le> 0 then InvalidPrice
          else if no_order_type m = 1 \<and> (no_tif m = 0 \<or> no_tif m = 3) then InvalidTif
          else if no_tif m = 2 then InsufficientLiquidity
          else RR_Unknown)
      })"

definition emit_to :: "message_body \<Rightarrow> gateway \<Rightarrow> gateway option" where
  "emit_to b g = do { s \<leftarrow> emit b (g_session g); Some (g\<lparr>g_session := s\<rparr>) }"

definition handle_logon :: "logon_msg \<Rightarrow> gateway \<Rightarrow> gateway option" where
  "handle_logon m g =
     (if session_state (g_session g) \<noteq> SP_NotLoggedOn then Some g
      else emit_to (LogonMsg \<lparr>lo_client_id = lo_client_id m\<rparr>)
        (g\<lparr>g_session := set_state SP_Active (set_client (lo_client_id m) (g_session g))\<rparr>))"

definition handle_logout :: "gateway \<Rightarrow> gateway option" where
  "handle_logout g = emit_to LogoutMsg (g\<lparr>g_session := set_state SP_Closing (g_session g)\<rparr>)"

definition handle_heartbeat :: "gateway \<Rightarrow> gateway option" where
  "handle_heartbeat g = emit_to HeartbeatMsg g"

definition order_of_msg :: "u64 \<Rightarrow> u32 \<Rightarrow> new_order_msg \<Rightarrow> order" where
  "order_of_msg now client m =
     \<lparr>order_id = no_client_order_id m, limit_price = no_price m, initial_qty = no_quantity m,
      filled_qty = kZeroQty, order_instrument = no_instrument_id m, order_client = client,
      status = New, side = side_cast (no_side m), order_type = order_type_cast (no_order_type m),
      tif = tif_cast (no_tif m), ts = 0, enqueue_ns = sint now, match_complete_ns = 0,
      level_prev = None, level_next = None\<rparr>"

definition fill_of :: "new_order_msg \<Rightarrow> order_status \<Rightarrow> trade \<Rightarrow> message_body" where
  "fill_of m st t = FillMsg \<lparr>fl_client_order_id = no_client_order_id m, fl_server_order_id = no_client_order_id m,
     fl_price = trade_price t, fl_quantity = trade_quantity t, fl_post_status = order_status_u8 st\<rparr>"

definition reject_msg :: "u64 \<Rightarrow> reject_reason \<Rightarrow> message_body" where
  "reject_msg i r = OrderRejectMsg \<lparr>rj_client_order_id = i, rj_reason = r\<rparr>"

fun emit_fills :: "new_order_msg \<Rightarrow> order_status \<Rightarrow> trade list \<Rightarrow> gateway \<Rightarrow> gateway option" where
  "emit_fills m st [] g = Some g"
| "emit_fills m st (t # trs) g = do { g' \<leftarrow> emit_to (fill_of m st t) g; emit_fills m st trs g' }"

text \<open>The replies after \<open>submit\<close>: a reject, or an acknowledgement and a fill for each trade.\<close>

definition report_order :: "new_order_msg \<Rightarrow> order \<Rightarrow> trade list \<Rightarrow> gateway \<Rightarrow> gateway option" where
  "report_order m x trades g =
     (if status x = Rejected
      then do {
        r \<leftarrow> classify Rejected m (g_engine g);
        emit_to (reject_msg (no_client_order_id m) r) g
      }
      else do {
        g' \<leftarrow> emit_to (OrderAckMsg \<lparr>oa_client_order_id = no_client_order_id m,
          oa_server_order_id = no_client_order_id m\<rparr>) g;
        emit_fills m (status x) trades g'
      })"

definition release_if_terminal :: "ptr \<Rightarrow> order \<Rightarrow> gateway \<Rightarrow> gateway option" where
  "release_if_terminal p x g =
     (if is_terminal x then do { pl \<leftarrow> release_order (g_pool g) p; Some (g\<lparr>g_pool := pl\<rparr>) } else Some g)"

definition handle_new_order :: "(nat \<Rightarrow> u64) \<Rightarrow> new_order_msg \<Rightarrow> gateway \<Rightarrow> gateway option" where
  "handle_new_order clk m g =
     (if session_state (g_session g) \<noteq> SP_Active
      then emit_to (reject_msg (no_client_order_id m) NotLoggedOn) g
      else do {
        (slot, pl) \<leftarrow> acquire_order (g_pool g);
        case slot of
          None \<Rightarrow> emit_to (reject_msg (no_client_order_id m) RR_Unknown) (g\<lparr>g_pool := pl\<rparr>)
        | Some p \<Rightarrow> do {
            h \<leftarrow> modify_at (storage pl) p (\<lambda>_. order_of_msg (clk 0) (client_id (g_session g)) m);
            (pl', e', trades) \<leftarrow> engine_submit (\<lambda>i. clk (i + 1)) (pl\<lparr>storage := h\<rparr>) (g_engine g) p;
            x \<leftarrow> deref (storage pl') p;
            g' \<leftarrow> report_order m x trades (g\<lparr>g_pool := pl', g_engine := e'\<rparr>);
            release_if_terminal p x g'
          }
      })"

definition handle_cancel :: "cancel_order_msg \<Rightarrow> gateway \<Rightarrow> gateway option" where
  "handle_cancel m g =
     (if session_state (g_session g) \<noteq> SP_Active
      then emit_to (reject_msg (co_client_order_id m) NotLoggedOn) g
      else do {
        (ok, pl, e) \<leftarrow> engine_cancel (g_pool g) (g_engine g) (co_instrument_id m) (co_client_order_id m);
        (if ok then emit_to (CancelledMsg \<lparr>cn_client_order_id = co_client_order_id m\<rparr>)
         else emit_to (reject_msg (co_client_order_id m) RR_Unknown)) (g\<lparr>g_pool := pl, g_engine := e\<rparr>)
      })"

text \<open>One message; the outbound message types have no handler and are ignored.\<close>

fun dispatch :: "(nat \<Rightarrow> u64) \<Rightarrow> message_body \<Rightarrow> gateway \<Rightarrow> gateway option" where
  "dispatch clk (LogonMsg m) g = handle_logon m g"
| "dispatch clk LogoutMsg g = handle_logout g"
| "dispatch clk HeartbeatMsg g = handle_heartbeat g"
| "dispatch clk (NewOrderMsg m) g = handle_new_order clk m g"
| "dispatch clk (CancelOrderMsg m) g = handle_cancel m g"
| "dispatch clk _ g = Some g"

section \<open>The framer is left alone\<close>

lemma emit_to_eq: "emit_to b g = Some (g\<lparr>g_session := after_emits [b] (g_session g)\<rparr>)"
  by (simp add: emit_to_def emit_after)

lemma emit_fills_eq:
  "emit_fills m st trs g = Some (g\<lparr>g_session := after_emits (map (fill_of m st) trs) (g_session g)\<rparr>)"
  by (induction trs arbitrary: g) (simp_all add: emit_to_eq after_emits_append)

definition replies :: "new_order_msg \<Rightarrow> order \<Rightarrow> trade list \<Rightarrow> engine \<Rightarrow> message_body list option" where
  "replies m x trades e =
     (if status x = Rejected then map_option (\<lambda>r. [reject_msg (no_client_order_id m) r]) (classify Rejected m e)
      else Some (OrderAckMsg \<lparr>oa_client_order_id = no_client_order_id m, oa_server_order_id = no_client_order_id m\<rparr> #
        map (fill_of m (status x)) trades))"

lemma report_order_eq:
  "report_order m x trades g =
     map_option (\<lambda>rs. g\<lparr>g_session := after_emits rs (g_session g)\<rparr>) (replies m x trades (g_engine g))"
  by (cases "classify Rejected m (g_engine g)")
     (simp_all add: report_order_def replies_def emit_to_eq emit_fills_eq after_emits_append)

lemma release_if_terminal_session: "release_if_terminal p x g = Some g' \<Longrightarrow> g_session g' = g_session g"
  by (auto simp: release_if_terminal_def exec_simps split: if_splits)

lemma handle_new_order_session:
  assumes "handle_new_order clk m g = Some g'"
  shows "\<exists>rs. g_session g' = after_emits rs (g_session g)"
proof (cases "session_state (g_session g) = SP_Active")
  case False
  then show ?thesis using assms by (auto simp: handle_new_order_def emit_to_eq)
next
  case True
  then obtain slot pl where a: "acquire_order (g_pool g) = Some (slot, pl)"
    using assms by (auto simp: handle_new_order_def exec_simps)
  show ?thesis
  proof (cases slot)
    case None
    then show ?thesis using assms True a by (auto simp: handle_new_order_def emit_to_eq)
  next
    case (Some p)
    then obtain pl' e' x trades g1 where
        "report_order m x trades (g\<lparr>g_pool := pl', g_engine := e'\<rparr>) = Some g1" "release_if_terminal p x g1 = Some g'"
      using assms True a by (auto simp: handle_new_order_def elim!: bind_Some_E)
    then show ?thesis using release_if_terminal_session by (auto simp: report_order_eq)
  qed
qed

lemma handle_cancel_session:
  assumes "handle_cancel m g = Some g'"
  shows "\<exists>rs. g_session g' = after_emits rs (g_session g)"
  using assms by (auto simp: handle_cancel_def emit_to_eq split: if_splits elim!: bind_Some_E) blast+

lemma dispatch_framer:
  assumes "dispatch clk b g = Some g'"
  shows "session_framer (g_session g') = session_framer (g_session g)"
proof (cases b)
  case (CancelOrderMsg m)
  then show ?thesis using assms handle_cancel_session [of m g g'] by auto
next
  case (NewOrderMsg m)
  then show ?thesis using assms handle_new_order_session [of clk m g g'] by auto
qed (use assms in \<open>auto simp: handle_logon_def handle_logout_def handle_heartbeat_def
      emit_to_eq set_state_def set_client_def split: if_splits\<close>)

section \<open>The pump\<close>

text \<open>
  \<open>while (auto msg = session.next_inbound()) ...\<close>; the \<open>k\<close>-th message is handled with the clock
  readings \<open>clks k\<close>.
\<close>

function pump :: "(nat \<Rightarrow> nat \<Rightarrow> u64) \<Rightarrow> nat \<Rightarrow> gateway \<Rightarrow> gateway option" where
  "pump clks k g =
     (case next_inbound (g_session g) of
        None \<Rightarrow> None
      | Some (m, s) \<Rightarrow>
          (case m of
             None \<Rightarrow> Some (g\<lparr>g_session := s\<rparr>)
           | Some msg \<Rightarrow>
               (case dispatch (clks k) (dm_body msg) (g\<lparr>g_session := s\<rparr>) of
                  None \<Rightarrow> None
                | Some g' \<Rightarrow> pump clks (Suc k) g')))"
  by pat_completeness auto

lemma next_inbound_shrinks:
  assumes "next_inbound s = Some (Some m, s')"
  shows "length (fr_buf (session_framer s')) < length (fr_buf (session_framer s))"
  using assms by (auto simp: next_inbound_def exec_simps dest: next_message_shrinks)

termination pump
  by (relation "measure (\<lambda>(clks, k, g). length (fr_buf (session_framer (g_session g))))")
     (auto dest!: next_inbound_shrinks dispatch_framer)

declare pump.simps [simp del]

text \<open>The pump is: take all complete messages off the framer, then handle them in order.\<close>

fun dispatch_all :: "(nat \<Rightarrow> nat \<Rightarrow> u64) \<Rightarrow> nat \<Rightarrow> message_body list \<Rightarrow> gateway \<Rightarrow> gateway option" where
  "dispatch_all clks k [] g = Some g"
| "dispatch_all clks k (b # bs) g = do { g' \<leftarrow> dispatch (clks k) b g; dispatch_all clks (Suc k) bs g' }"

end
