(* ===== verification/Gateway_Safety.thy ===== *)
theory Gateway_Safety
  imports Dispatcher
begin

text \<open>
  The guarantees of the dispatcher. Every byte stream a client can send is handled without undefined
  behaviour, slots of the pool are never confused, a client that is not logged on cannot reach the
  engine, and the replies say what the engine did.
\<close>

section \<open>The gateway as a caller of the engine\<close>

text \<open>\<open>held\<close> are the slots that neither a book nor the free stack has: those of orders that were
  acknowledged, rest nowhere and are not terminal, which the dispatcher does not release.\<close>

definition gw_sys :: "gateway \<Rightarrow> ptr set \<Rightarrow> sys" where
  "gw_sys g held = \<lparr>s_pool = g_pool g, s_engine = g_engine g, s_held = held\<rparr>"

definition gw_ok :: "gateway \<Rightarrow> ptr set \<Rightarrow> bool" where
  "gw_ok g held \<longleftrightarrow> sys_ok (gw_sys g held)"

definition gw_slots :: "gateway \<Rightarrow> ptr set \<Rightarrow> ptr set" where
  "gw_slots g held = set (free_list (g_pool g)) \<union> held \<union> resting (g_pool g) (g_engine g)"

text \<open>One message keeps the gateway sound and accounts for every slot.\<close>

definition keeps :: "gateway \<Rightarrow> ptr set \<Rightarrow> gateway \<Rightarrow> ptr set \<Rightarrow> bool" where
  "keeps g held g' held' \<longleftrightarrow> gw_ok g' held' \<and> gw_slots g' held' = gw_slots g held \<and>
     length (storage (g_pool g')) = length (storage (g_pool g))"

lemma gw_sys_session [simp]: "gw_sys (g\<lparr>g_session := s\<rparr>) held = gw_sys g held"
  by (simp add: gw_sys_def)

lemma keeps_session [simp]: "keeps g held (g'\<lparr>g_session := s\<rparr>) held' = keeps g held g' held'"
  by (simp add: keeps_def gw_ok_def gw_slots_def)

lemma keeps_refl: "gw_ok g held \<Longrightarrow> keeps g held g held"
  by (simp add: keeps_def)

lemma keeps_trans: "keeps g h g1 h1 \<Longrightarrow> keeps g1 h1 g2 h2 \<Longrightarrow> keeps g h g2 h2"
  by (simp add: keeps_def)

lemma keeps_ok: "keeps g h g1 h1 \<Longrightarrow> gw_ok g1 h1"
  by (simp add: keeps_def)

lemma gw_ok_engine: "gw_ok g held \<Longrightarrow> engine_ok (g_pool g) (g_engine g)"
  by (simp add: gw_ok_def gw_sys_def sys_ok_def)

text \<open>The steps of the engine as steps of the gateway.\<close>

lemma gw_acquire:
  assumes ok: "gw_ok g held"
  obtains (full) "acquire_order (g_pool g) = Some (None, g_pool g)" "free_list (g_pool g) = []"
  | (slot) p pl where "acquire_order (g_pool g) = Some (Some p, pl)" "p \<in> set (free_list (g_pool g))"
      "keeps g held (g\<lparr>g_pool := pl\<rparr>) (insert p held)"
      "storage pl = (storage (g_pool g))[p := order_default]" "set (free_list pl) \<subseteq> set (free_list (g_pool g))"
proof -
  let ?s = "gw_sys g held" and ?pl = "g_pool g"
  have po: "pool_ok ?pl" using gw_ok_engine [OF ok] by (simp add: engine_ok_def)
  obtain s' where s': "sys_exec Acquire ?s = Some s'" "sys_ok s'" "sys_resting s' = sys_resting ?s"
      "sys_free s' \<union> s_held s' = sys_free ?s \<union> s_held ?s" "length (storage (s_pool s')) = length (storage (s_pool ?s))"
    using sys_acquire [of ?s] ok by (metis gw_ok_def)
  then obtain slot pl where a: "acquire_order ?pl = Some (slot, pl)"
      and s2: "s' = \<lparr>s_pool = pl, s_engine = g_engine g, s_held = held \<union> set_option slot\<rparr>"
    by (auto simp: gw_sys_def exec_simps)
  show thesis
  proof (cases slot)
    case None
    then have "free_list ?pl = []" using a pool_acquire_some [OF po] by (metis acquire_order_def option.inject option.simps(3) prod.inject)
    then show thesis using full a None pool_acquire_none [OF po] by (simp add: acquire_order_def)
  next
    case (Some p)
    then have "p \<in> set (free_list ?pl)" using a slab.acq_fresh [OF po] by (auto simp: acquire_order_def)
    moreover have "keeps g held (g\<lparr>g_pool := pl\<rparr>) (insert p held)"
      using s'(2-5) Some unfolding s2 by (auto simp: keeps_def gw_ok_def gw_slots_def gw_sys_def sys_resting_def sys_free_def)
    moreover have "free_list ?pl \<noteq> []" using calculation(1) by auto
    then have "storage pl = (storage ?pl)[p := order_default]" "set (free_list pl) \<subseteq> set (free_list ?pl)"
      using pool_acquire_some [OF po] a Some slab.acq_fresh(6) [OF po]
      by (auto simp: acquire_order_def)
    ultimately show thesis using slot a Some by simp
  qed
qed

lemma gw_write:
  assumes ok: "gw_ok g held" and p: "p \<in> held"
  shows "modify_at (storage (g_pool g)) p (\<lambda>_. x) = Some ((storage (g_pool g))[p := x])"
    and "keeps g held (g\<lparr>g_pool := (g_pool g)\<lparr>storage := (storage (g_pool g))[p := x]\<rparr>\<rparr>) held"
proof -
  let ?s = "gw_sys g held"
  have pl: "p < length (storage (g_pool g))" using ok p by (auto simp: gw_ok_def gw_sys_def sys_ok_def)
  then show "modify_at (storage (g_pool g)) p (\<lambda>_. x) = Some ((storage (g_pool g))[p := x])" by simp
  obtain s' where "sys_exec (Write p x) ?s = Some s'" "sys_ok s'" "sys_resting s' = sys_resting ?s"
      "sys_free s' \<union> s_held s' = sys_free ?s \<union> s_held ?s" "length (storage (s_pool s')) = length (storage (s_pool ?s))"
    using sys_write [of ?s p x] ok p by (metis gw_ok_def gw_sys_def sys.select_convs(3))
  then show "keeps g held (g\<lparr>g_pool := (g_pool g)\<lparr>storage := (storage (g_pool g))[p := x]\<rparr>\<rparr>) held"
    using pl by (auto simp: keeps_def gw_ok_def gw_slots_def gw_sys_def sys_resting_def sys_free_def)
qed

lemma gw_release:
  assumes ok: "gw_ok g held" and p: "p \<in> held"
  obtains pl where "release_order (g_pool g) p = Some pl" and "keeps g held (g\<lparr>g_pool := pl\<rparr>) (held - {p})"
    and "storage pl = storage (g_pool g)"
proof -
  let ?s = "gw_sys g held"
  have po: "pool_ok (g_pool g)" using gw_ok_engine [OF ok] by (simp add: engine_ok_def)
  obtain s' where s': "sys_exec (Release p) ?s = Some s'" "sys_ok s'" "sys_resting s' = sys_resting ?s"
      "sys_free s' \<union> s_held s' = sys_free ?s \<union> s_held ?s" "length (storage (s_pool s')) = length (storage (s_pool ?s))"
    using sys_release [of ?s p] ok p by (metis gw_ok_def gw_sys_def sys.select_convs(3))
  then obtain pl where r: "release_order (g_pool g) p = Some pl"
      and s2: "s' = \<lparr>s_pool = pl, s_engine = g_engine g, s_held = held - {p}\<rparr>"
    by (auto simp: gw_sys_def exec_simps)
  have "keeps g held (g\<lparr>g_pool := pl\<rparr>) (held - {p})"
    using s'(2-5) unfolding s2 by (auto simp: keeps_def gw_ok_def gw_slots_def gw_sys_def sys_resting_def sys_free_def)
  moreover have "storage pl = storage (g_pool g)"
    using r by (auto simp: release_order_def pool_release_def exec_simps split: if_splits)
  ultimately show thesis using that r by blast
qed

lemma gw_submit:
  assumes ok: "gw_ok g held" and p: "p \<in> held"
  obtains pl' e' trs where "engine_submit clk (g_pool g) (g_engine g) p = Some (pl', e', trs)"
    and "keeps g held (g\<lparr>g_pool := pl', g_engine := e'\<rparr>) (held - resting pl' e')"
    and "is_terminal (storage pl' ! p) \<longrightarrow> p \<notin> resting pl' e'" and "p < length (storage pl')"
    and "\<forall>k. um_find (matchers e') k = None \<longleftrightarrow> um_find (matchers (g_engine g)) k = None"
    and "case um_find (matchers (g_engine g)) (order_instrument (storage (g_pool g) ! p)) of
        None \<Rightarrow> trs = [] \<and> status (storage pl' ! p) = Rejected
      | Some m \<Rightarrow> \<exists>m' n. um_find (matchers e') (order_instrument (storage (g_pool g) ! p)) = Some m' \<and>
          submit_post clk (g_pool g) (m_book m) p pl' (m_book m') trs n"
proof -
  let ?s = "gw_sys g held"
  have q: "p < length (storage (g_pool g))" "p \<notin> resting (g_pool g) (g_engine g)" "p \<notin> set (free_list (g_pool g))"
    using ok p by (auto simp: gw_ok_def gw_sys_def sys_defs)
  obtain pl' e' trs where r: "engine_submit clk (g_pool g) (g_engine g) p = Some (pl', e', trs)" "engine_ok pl' e'"
      "p \<notin> set (free_list pl')" "length (storage pl') = length (storage (g_pool g))"
      "resting pl' e' \<subseteq> insert p (resting (g_pool g) (g_engine g))"
      "insert p (resting pl' e' \<union> set (free_list pl')) = insert p (resting (g_pool g) (g_engine g) \<union> set (free_list (g_pool g)))"
      "is_terminal (storage pl' ! p) \<longrightarrow> p \<notin> resting pl' e'"
      "\<forall>k. um_find (matchers e') k = None \<longleftrightarrow> um_find (matchers (g_engine g)) k = None"
      "case um_find (matchers (g_engine g)) (order_instrument (storage (g_pool g) ! p)) of
        None \<Rightarrow> trs = [] \<and> status (storage pl' ! p) = Rejected
      | Some m \<Rightarrow> \<exists>m' n. um_find (matchers e') (order_instrument (storage (g_pool g) ! p)) = Some m' \<and>
          submit_post clk (g_pool g) (m_book m) p pl' (m_book m') trs n"
    by (rule engine_submit_full [OF gw_ok_engine [OF ok] q])
  obtain s' where s': "sys_exec (Submit clk p) ?s = Some s'" "sys_ok s'"
      "sys_free s' \<union> s_held s' \<union> sys_resting s' = sys_free ?s \<union> s_held ?s \<union> sys_resting ?s"
      "length (storage (s_pool s')) = length (storage (s_pool ?s))"
    using sys_submit [of ?s p clk] ok p by (metis gw_ok_def gw_sys_def sys.select_convs(3))
  have s2: "s' = \<lparr>s_pool = pl', s_engine = e', s_held = held - resting pl' e'\<rparr>"
    using s'(1) r(1) by (simp add: gw_sys_def)
  have "keeps g held (g\<lparr>g_pool := pl', g_engine := e'\<rparr>) (held - resting pl' e')"
    using s'(2-4) unfolding s2 by (auto simp: keeps_def gw_ok_def gw_slots_def gw_sys_def sys_resting_def sys_free_def)
  then show thesis using that [OF r(1) _ r(7) _ r(8,9)] q(1) r(4) by simp
qed

lemma gw_cancel:
  assumes ok: "gw_ok g held"
  obtains f pl e where "engine_cancel (g_pool g) (g_engine g) j i = Some (f, pl, e)"
    and "keeps g held (g\<lparr>g_pool := pl, g_engine := e\<rparr>) held"
proof -
  let ?s = "gw_sys g held"
  obtain s' where s': "sys_exec (Cancel j i) ?s = Some s'" "sys_ok s'"
      "sys_free s' \<union> s_held s' \<union> sys_resting s' = sys_free ?s \<union> s_held ?s \<union> sys_resting ?s"
      "length (storage (s_pool s')) = length (storage (s_pool ?s))"
    using sys_cancel [of ?s j i] ok by (metis gw_ok_def)
  then obtain f pl e where r: "engine_cancel (g_pool g) (g_engine g) j i = Some (f, pl, e)"
      and s2: "s' = \<lparr>s_pool = pl, s_engine = e, s_held = held\<rparr>"
    by (auto simp: gw_sys_def exec_simps)
  have "keeps g held (g\<lparr>g_pool := pl, g_engine := e\<rparr>) held"
    using s'(2-4) unfolding s2 by (auto simp: keeps_def gw_ok_def gw_slots_def gw_sys_def sys_resting_def sys_free_def)
  then show thesis using that r by blast
qed

section \<open>A new order\<close>

lemma replies_defined:
  assumes "engine_ok pl e"
  obtains rs where "replies m x trs e = Some rs"
  using engine_book_ok [OF assms] that by (cases "status x = Rejected") (simp_all add: replies_def classify_def)

text \<open>The whole handler when the session is active and the pool has a slot.\<close>

lemma release_if_terminal_keeps:
  assumes k: "keeps g held g4 held4" and t: "is_terminal x \<longrightarrow> p \<in> held4"
  obtains g' held' where "release_if_terminal p x g4 = Some g'" and "keeps g held g' held'" and "g_session g' = g_session g4"
proof (cases "is_terminal x")
  case True
  then obtain pl3 where r: "release_order (g_pool g4) p = Some pl3" "keeps g4 held4 (g4\<lparr>g_pool := pl3\<rparr>) (held4 - {p})"
    using gw_release [OF keeps_ok [OF k], of p] t by metis
  then show thesis using that [OF _ keeps_trans [OF k r(2)]] True by (simp add: release_if_terminal_def)
next
  case False
  then show thesis using that [of g4] k by (simp add: release_if_terminal_def)
qed

lemma handle_new_order_active:
  fixes clk :: "nat \<Rightarrow> u64" and m :: new_order_msg and g :: gateway
  assumes ok: "gw_ok g held" and act: "session_state (g_session g) = SP_Active" and free: "free_list (g_pool g) \<noteq> []"
  defines "x0 \<equiv> order_of_msg (clk 0) (client_id (g_session g)) m"
  obtains p pl1 pl' e' trs rs g' held' where
    "same_outside {p} (storage (g_pool g)) (storage pl1)" and "set (free_list pl1) \<subseteq> set (free_list (g_pool g))"
    and "p \<in> set (free_list (g_pool g))" and "storage pl1 ! p = x0" and "pool_ok pl1"
    and "engine_submit (\<lambda>i. clk (i + 1)) pl1 (g_engine g) p = Some (pl', e', trs)"
    and "replies m (storage pl' ! p) trs e' = Some rs"
    and "handle_new_order clk m g = Some g'" and "g_session g' = after_emits rs (g_session g)"
    and "keeps g held g' held'" and "engine_ok pl' e'"
    and "\<forall>k. um_find (matchers e') k = None \<longleftrightarrow> um_find (matchers (g_engine g)) k = None"
    and "case um_find (matchers (g_engine g)) (no_instrument_id m) of
        None \<Rightarrow> trs = [] \<and> status (storage pl' ! p) = Rejected
      | Some mt \<Rightarrow> \<exists>m' n. um_find (matchers e') (no_instrument_id m) = Some m' \<and>
          submit_post (\<lambda>i. clk (i + 1)) pl1 (m_book mt) p pl' (m_book m') trs n"
  using ok
proof (cases rule: gw_acquire)
  case full
  then show thesis using free by simp
next
  case (slot p pl)
  let ?g1 = "g\<lparr>g_pool := pl\<rparr>" and ?h = "(storage pl)[p := x0]"
  let ?pl1 = "pl\<lparr>storage := ?h\<rparr>" and ?g2 = "g\<lparr>g_pool := pl\<lparr>storage := (storage pl)[p := x0]\<rparr>\<rparr>"
  have pin: "p \<in> insert p held" by simp
  note w = gw_write [OF keeps_ok [OF slot(3)] pin, of x0]
  have k2: "keeps g held ?g2 (insert p held)" using keeps_trans [OF slot(3) w(2)] by simp
  have pl: "p < length (storage pl)" using w(1) by (auto simp: modify_at_def split: if_splits)
  have so: "same_outside {p} (storage (g_pool g)) (storage ?pl1)" using slot(4) by (simp add: same_outside_update)
  have po: "pool_ok ?pl1" using gw_ok_engine [OF keeps_ok [OF k2]] by (simp add: engine_ok_def)
  have x0: "storage ?pl1 ! p = x0" "order_instrument x0 = no_instrument_id m"
    using pl by (simp_all add: x0_def order_of_msg_def)
  obtain pl' e' trs where s: "engine_submit (\<lambda>i. clk (i + 1)) ?pl1 (g_engine g) p = Some (pl', e', trs)"
      "keeps ?g2 (insert p held) (?g2\<lparr>g_pool := pl', g_engine := e'\<rparr>) (insert p held - resting pl' e')"
      "is_terminal (storage pl' ! p) \<longrightarrow> p \<notin> resting pl' e'" "p < length (storage pl')"
      "\<forall>k. um_find (matchers e') k = None \<longleftrightarrow> um_find (matchers (g_engine g)) k = None"
      "case um_find (matchers (g_engine g)) (no_instrument_id m) of
        None \<Rightarrow> trs = [] \<and> status (storage pl' ! p) = Rejected
      | Some mt \<Rightarrow> \<exists>m' n. um_find (matchers e') (no_instrument_id m) = Some m' \<and>
          submit_post (\<lambda>i. clk (i + 1)) ?pl1 (m_book mt) p pl' (m_book m') trs n"
    by (rule gw_submit [OF keeps_ok [OF k2] pin, of "\<lambda>i. clk (i + 1)"]) (rule that; simp add: pl x0(2) cong: option.case_cong)
  let ?g3 = "g\<lparr>g_pool := pl', g_engine := e'\<rparr>" and ?x = "storage pl' ! p"
  have k3: "keeps g held ?g3 (insert p held - resting pl' e')" using keeps_trans [OF k2 s(2)] by simp
  have eo: "engine_ok pl' e'" using gw_ok_engine [OF keeps_ok [OF k3]] by simp
  obtain rs where rs: "replies m ?x trs e' = Some rs" using replies_defined [OF eo] by blast
  let ?g4 = "?g3\<lparr>g_session := after_emits rs (g_session g)\<rparr>"
  have rep: "report_order m ?x trs ?g3 = Some ?g4" using rs by (simp add: report_order_eq)
  have h: "handle_new_order clk m g = release_if_terminal p ?x ?g4"
    using act slot(1) w(1) s(1,4) rep by (simp add: handle_new_order_def x0_def)
  have "keeps g held ?g4 (insert p held - resting pl' e')" using k3 by simp
  then obtain g' held' where g': "release_if_terminal p ?x ?g4 = Some g'" "keeps g held g' held'"
      "g_session g' = after_emits rs (g_session g)"
    by (rule release_if_terminal_keeps [of g held ?g4 _ ?x p]) (use s(3) that in auto)
  have "set (free_list ?pl1) \<subseteq> set (free_list (g_pool g))" using slot(5) by (simp add: free_list_def)
  then show thesis
    using that [OF so _ slot(2) x0(1) po s(1) rs trans [OF h g'(1)] g'(3,2) eo s(5,6)] by simp
qed

section \<open>Every message\<close>

lemma handle_new_order_ok:
  assumes ok: "gw_ok g held"
  shows "\<exists>g' held'. handle_new_order clk m g = Some g' \<and> keeps g held g' held'"
proof (cases "session_state (g_session g) = SP_Active")
  case False
  then show ?thesis using keeps_refl [OF ok] by (auto simp: handle_new_order_def emit_to_eq)
next
  case act: True
  show ?thesis
  proof (cases "free_list (g_pool g) = []")
    case True
    then have "acquire_order (g_pool g) = Some (None, g_pool g)"
      using gw_ok_engine [OF ok] pool_acquire_none by (simp add: acquire_order_def engine_ok_def)
    then show ?thesis using act keeps_refl [OF ok] by (auto simp: handle_new_order_def emit_to_eq)
  next
    case False
    show ?thesis by (rule handle_new_order_active [OF ok act False, of clk m]) blast
  qed
qed

lemma handle_cancel_ok:
  assumes ok: "gw_ok g held"
  shows "\<exists>g'. handle_cancel m g = Some g' \<and> keeps g held g' held"
proof (cases "session_state (g_session g) = SP_Active")
  case False
  then show ?thesis using keeps_refl [OF ok] by (auto simp: handle_cancel_def emit_to_eq)
next
  case True
  then show ?thesis
    by (rule_tac gw_cancel [OF ok, of "co_instrument_id m" "co_client_order_id m"])
       (auto simp: handle_cancel_def emit_to_eq)
qed

lemma dispatch_ok:
  assumes ok: "gw_ok g held"
  shows "\<exists>g' held'. dispatch clk b g = Some g' \<and> keeps g held g' held'"
proof (cases b)
  case (CancelOrderMsg m)
  then show ?thesis using handle_cancel_ok [OF ok, of m] by auto
next
  case (NewOrderMsg m)
  then show ?thesis using handle_new_order_ok [OF ok] by simp
qed (use keeps_refl [OF ok] in \<open>auto simp: handle_logon_def handle_logout_def handle_heartbeat_def emit_to_eq\<close>)

text \<open>A framer that yields no message yields none when asked again.\<close>

lemma next_inbound_None:
  assumes "next_inbound s = Some (None, s')"
  shows "next_inbound s' = Some (None, s')"
proof -
  obtain f where f: "next_message (session_framer s) = Some (None, f)" "s' = s\<lparr>session_framer := f\<rparr>"
    using assms by (auto simp: next_inbound_def exec_simps)
  then have "next_message f = Some (None, f)"
    using parse_Bad_error by (auto simp: next_message_parse split: if_splits parse_result.splits)
  then show ?thesis using f(2) by (simp add: next_inbound_def)
qed

lemma next_inbound_defined: "\<exists>m s'. next_inbound s = Some (m, s')"
  by (simp add: next_inbound_def next_message_parse split: prod.split)

lemma pump_ok:
  "gw_ok g held \<Longrightarrow> \<exists>g' held'. pump clks k g = Some g' \<and> keeps g held g' held' \<and>
     next_inbound (g_session g') = Some (None, g_session g')"
proof (induction clks k g arbitrary: held rule: pump.induct)
  case (1 clks k g)
  obtain m s where nx: "next_inbound (g_session g) = Some (m, s)" using next_inbound_defined by blast
  show ?case
  proof (cases m)
    case None
    then show ?thesis
      using nx next_inbound_None [of "g_session g" s] keeps_refl [OF "1.prems"] by (subst pump.simps) auto
  next
    case (Some msg)
    let ?g = "g\<lparr>g_session := s\<rparr>"
    have k0: "keeps g held ?g held" using keeps_refl [OF "1.prems"] by simp
    obtain g1 h1 where d: "dispatch (clks k) (dm_body msg) ?g = Some g1" "keeps ?g held g1 h1"
      using dispatch_ok [OF keeps_ok [OF k0]] by blast
    obtain g' h' where "pump clks (Suc k) g1 = Some g'" "keeps g1 h1 g' h'"
        "next_inbound (g_session g') = Some (None, g_session g')"
      using "1.IH" [OF nx refl Some d(1) keeps_ok [OF d(2)]] by blast
    then show ?thesis
      using nx Some d(1) keeps_trans [OF k0 keeps_trans [OF d(2)]] by (subst pump.simps) auto
  qed
qed

end
