(* ===== verification/Gateway_Theorems.thy ===== *)
theory Gateway_Theorems
  imports Gateway_Safety
begin

text \<open>
  What the gateway guarantees to its clients and to the engine behind it, read off the lemmas of
  \<open>Gateway_Safety\<close> and the refinement of \<open>Matcher::submit\<close>.
\<close>

section \<open>The cause of a reject\<close>

text \<open>What has to be the case for a reject with a given reason to be truthful.\<close>

definition reject_cause :: "reject_reason \<Rightarrow> new_order_msg \<Rightarrow> gateway \<Rightarrow> bool" where
  "reject_cause r m g =
     (let mt = um_find (matchers (g_engine g)) (no_instrument_id m); x = order_of_msg 0 0 m in
      case r of
        UnknownInstrument \<Rightarrow> mt = None
      | InvalidQuantity \<Rightarrow> no_quantity m = 0
      | InvalidPrice \<Rightarrow> order_type x = Limit \<and> no_price m \<le> 0
      | InvalidTif \<Rightarrow> order_type x = Market \<and> (tif x = GTC \<or> tif x = Day)
      | InsufficientLiquidity \<Rightarrow> tif x = FOK \<and>
          (case mt of None \<Rightarrow> False
           | Some mm \<Rightarrow> available x (book_view (storage (g_pool g)) (m_book mm) (opposite (side x))) < unat (no_quantity m))
      | _ \<Rightarrow> False)"

lemma order_of_msg_simps [simp]:
  "order_type (order_of_msg now c m) = Limit \<longleftrightarrow> no_order_type m = 0"
  "order_type (order_of_msg now c m) = Market \<longleftrightarrow> no_order_type m = 1"
  "tif (order_of_msg now c m) = GTC \<longleftrightarrow> no_tif m = 0" "tif (order_of_msg now c m) = IOC \<longleftrightarrow> no_tif m = 1"
  "tif (order_of_msg now c m) = FOK \<longleftrightarrow> no_tif m = 2" "tif (order_of_msg now c m) = Day \<longleftrightarrow> no_tif m = 3"
  "side (order_of_msg now c m) = side_cast (no_side m)" "limit_price (order_of_msg now c m) = no_price m"
  "initial_qty (order_of_msg now c m) = no_quantity m" "filled_qty (order_of_msg now c m) = 0"
  "order_instrument (order_of_msg now c m) = no_instrument_id m" "remaining (order_of_msg now c m) = no_quantity m"
  "order_id (order_of_msg now c m) = no_client_order_id m"
  by (simp_all add: order_of_msg_def order_type_cast_def tif_cast_def kZeroQty_def remaining_def)

lemma available_order_of_msg: "available (core (order_of_msg now c m)) = available (order_of_msg 0 0 m)"
proof -
  have "crosses (core (order_of_msg now c m)) = crosses (order_of_msg 0 0 m)" by (simp add: fun_eq_iff crosses_def)
  then show ?thesis by (intro ext) (simp only: available_def)
qed

text \<open>The outcome of the engine, by the cases of the abstract book.\<close>

lemma new_order_known:
  fixes g :: gateway and m :: new_order_msg and mt :: matcher
  assumes ok: "gw_ok g held" and act: "session_state (g_session g) = SP_Active" and free: "free_list (g_pool g) \<noteq> []"
    and Some: "um_find (matchers (g_engine g)) (no_instrument_id m) = Some mt"
  defines "s \<equiv> side_cast (no_side m)"
  defines "opp \<equiv> book_view (storage (g_pool g)) (m_book mt) (opposite s)"
  obtains y own own' opp' trs rs e' g' held' where "handle_new_order clk m g = Some g'" and "gw_ok g' held'"
    and "g_session g' = after_emits rs (g_session g)" and "replies m y trs e' = Some rs"
    and "engine_book e' (no_instrument_id m) \<noteq> Some None"
    and "submit_spec (\<lambda>i. clk (i + 1)) (no_instrument_id m) (core (order_of_msg (clk 0) (client_id (g_session g)) m)) own opp =
      (core y, trs, own', opp')"
proof -
  let ?i = "no_instrument_id m" and ?x = "order_of_msg (clk 0) (client_id (g_session g)) m" and ?b = "m_book mt"
  obtain p pl1 pl' e' trs rs g' held' where
      so: "same_outside {p} (storage (g_pool g)) (storage pl1)" and fr: "set (free_list pl1) \<subseteq> set (free_list (g_pool g))"
    and pf: "p \<in> set (free_list (g_pool g))" and x: "storage pl1 ! p = ?x" and po: "pool_ok pl1"
    and rs: "replies m (storage pl' ! p) trs e' = Some rs"
    and h: "handle_new_order clk m g = Some g'" and se: "g_session g' = after_emits rs (g_session g)"
    and k: "keeps g held g' held'" and eo: "engine_ok pl' e'"
    and out: "case um_find (matchers (g_engine g)) ?i of
        None \<Rightarrow> trs = [] \<and> status (storage pl' ! p) = Rejected
      | Some mt \<Rightarrow> \<exists>m' n. um_find (matchers e') ?i = Some m' \<and>
          submit_post (\<lambda>i. clk (i + 1)) pl1 (m_book mt) p pl' (m_book m') trs n"
    by (rule handle_new_order_active [OF ok act free])
  note mk = engine_ok_matcher [OF gw_ok_engine [OF ok] Some]
  have "book_ptrs (storage (g_pool g)) ?b \<inter> {p} = {}" using mk(1) pf by (auto simp: matcher_ok_def)
  then have v: "book_view (storage pl1) ?b (opposite s) = opp"
    using matcher_frame(3) [OF mk(1) so _ po] fr by (auto simp: opp_def)
  obtain m' n where m': "um_find (matchers e') ?i = Some m'"
      and post: "submit_post (\<lambda>i. clk (i + 1)) pl1 ?b p pl' (m_book m') trs n"
    using out Some by auto
  have "submit_spec (\<lambda>i. clk (i + 1)) ?i (core ?x) (book_view (storage pl1) ?b s) opp =
      (core (storage pl' ! p), trs, book_view (storage pl') (m_book m') s, book_view (storage pl') (m_book m') (opposite s))"
    using post x v mk(2) by (simp add: submit_post_def Let_def s_def)
  moreover have "engine_book e' ?i \<noteq> Some None" using m' engine_book_ok [OF eo, of ?i] by simp
  ultimately show thesis using that [OF h keeps_ok [OF k] se rs] by blast
qed

lemma new_order_unknown:
  assumes ok: "gw_ok g held" and act: "session_state (g_session g) = SP_Active" and free: "free_list (g_pool g) \<noteq> []"
    and None: "um_find (matchers (g_engine g)) (no_instrument_id m) = None"
  obtains g' held' where "handle_new_order clk m g = Some g'" and "gw_ok g' held'"
    and "g_session g' = after_emits [reject_msg (no_client_order_id m) UnknownInstrument] (g_session g)"
  by (rule handle_new_order_active [OF ok act free, of clk m])
    (rule that; use None in \<open>auto simp: replies_def classify_def engine_book_ok dest: keeps_ok\<close>)

lemma new_order_cases:
  assumes ok: "gw_ok g held" and act: "session_state (g_session g) = SP_Active" and free: "free_list (g_pool g) \<noteq> []"
  obtains (unknown) g' held' where "um_find (matchers (g_engine g)) (no_instrument_id m) = None"
      and "handle_new_order clk m g = Some g'" and "gw_ok g' held'"
      and "g_session g' = after_emits [reject_msg (no_client_order_id m) UnknownInstrument] (g_session g)"
  | (rejected) mt r g' held' where "um_find (matchers (g_engine g)) (no_instrument_id m) = Some mt"
      and "handle_new_order clk m g = Some g'" and "gw_ok g' held'"
      and "g_session g' = after_emits [reject_msg (no_client_order_id m) r] (g_session g)"
      and "reject_cause r m g"
      and "spec_rejects (no_instrument_id m) (order_of_msg 0 0 m)
        (book_view (storage (g_pool g)) (m_book mt) (opposite (side_cast (no_side m))))"
  | (accepted) mt t1 trs opp' g' held' where "um_find (matchers (g_engine g)) (no_instrument_id m) = Some mt"
      and "handle_new_order clk m g = Some g'" and "gw_ok g' held'"
      and "g_session g' = after_emits (OrderAckMsg \<lparr>oa_client_order_id = no_client_order_id m,
        oa_server_order_id = no_client_order_id m\<rparr> # map (fill_of m (settle_status t1)) trs) (g_session g)"
      and "\<not> spec_rejects (no_instrument_id m) (order_of_msg 0 0 m)
        (book_view (storage (g_pool g)) (m_book mt) (opposite (side_cast (no_side m))))"
      and "match_ref (core (order_of_msg (clk 0) (client_id (g_session g)) m))
        (book_view (storage (g_pool g)) (m_book mt) (opposite (side_cast (no_side m)))) = (t1, trs, opp')"
proof -
  let ?i = "no_instrument_id m" and ?x = "order_of_msg (clk 0) (client_id (g_session g)) m"
  show thesis
  proof (cases "um_find (matchers (g_engine g)) ?i")
    case None
    show thesis by (rule new_order_unknown [OF ok act free None]) (rule unknown [OF None])
  next
    case (Some mt)
    let ?opp = "book_view (storage (g_pool g)) (m_book mt) (opposite (side_cast (no_side m)))"
    obtain y own own' opp' trs rs e' g' held' where h: "handle_new_order clk m g = Some g'" "gw_ok g' held'"
        and se: "g_session g' = after_emits rs (g_session g)" and rs: "replies m y trs e' = Some rs"
        and bk: "engine_book e' ?i \<noteq> Some None"
        and spec: "submit_spec (\<lambda>i. clk (i + 1)) ?i (core ?x) own ?opp = (core y, trs, own', opp')"
      by (rule new_order_known [OF ok act free Some])
    have rej: "spec_rejects ?i (core ?x) ?opp = spec_rejects ?i (order_of_msg 0 0 m) ?opp"
      using available_order_of_msg by (simp add: spec_rejects_def submit_rejects_def)
    show thesis
      using spec
    proof (cases rule: submit_spec_cases)
      case reject
      have "status (core y) = Rejected" unfolding reject(2) by simp
      then obtain r where r: "classify Rejected m e' = Some r" "rs = [reject_msg (no_client_order_id m) r]"
        using rs by (auto simp: replies_def)
      have sr: "spec_rejects ?i (order_of_msg 0 0 m) ?opp" using reject(1) rej by simp
      have "reject_cause r m g"
        using r(1) sr bk Some
        by (auto simp: classify_def reject_cause_def spec_rejects_def submit_rejects_def Let_def exec_simps split: if_splits)
      then show thesis using rejected [OF Some h _ _ sr] se r(2) by simp
    next
      case (accept t1)
      have st: "status (core y) = settle_status t1" unfolding accept(3) by simp
      then have "status y \<noteq> Rejected" by (auto simp: settle_status_def split: if_splits)
      then show thesis
        using accepted [OF Some h _ _ accept(2)] se rs st accept(1) rej by (simp add: replies_def)
    qed
  qed
qed

section \<open>A gateway for the witnesses\<close>

text \<open>Two free slots, one book, a session that is logged on as client 9.\<close>

definition demo_gateway :: gateway where
  "demo_gateway = \<lparr>g_pool = s_pool demo_sys, g_engine = s_engine demo_sys,
     g_session = set_state SP_Active (set_client 9 (new_session 1))\<rparr>"

lemma demo_gateway_ok: "gw_ok demo_gateway {}"
proof -
  have "gw_sys demo_gateway {} = demo_sys" by (simp add: gw_sys_def demo_gateway_def demo_sys_def)
  then show ?thesis using sys_init_ok(1) [OF demo_init] by (simp add: gw_ok_def)
qed

lemma demo_gateway_facts:
  "session_state (g_session demo_gateway) = SP_Active" "free_list (g_pool demo_gateway) \<noteq> []"
  "um_find (matchers (g_engine demo_gateway)) 1 \<noteq> None"
  by (simp_all add: demo_gateway_def demo_sys_def set_state_def set_client_def free_list_def um_find_def)

section \<open>Properties\<close>

text \<open>
  C29. The dispatcher survives every input. On a sound gateway, whatever bytes the session has
  received, \<open>pump\<close> ends without undefined behaviour, the pool and all books are sound afterwards,
  every slot is still accounted for (free, in a book, or of an order the dispatcher keeps), and no
  complete message is left unhandled.
\<close>

theorem gateway_pump_safe:
  assumes "gw_ok g held"
  shows "\<exists>g' held'. pump clks k g = Some g' \<and> gw_ok g' held' \<and> gw_slots g' held' = gw_slots g held \<and>
    next_inbound (g_session g') = Some (None, g_session g')"
  using pump_ok [OF assms, of clks k] by (auto simp: keeps_def)

theorem gateway_pump_safe_witness:
  "\<exists>g' held'. pump (\<lambda>_ _. 0) 0 (demo_gateway\<lparr>g_session := on_bytes [1, 0x03, 0, 0, 7, 0, 0, 0, 1] (g_session demo_gateway)\<rparr>) = Some g' \<and>
     gw_ok g' held'"
proof -
  have "gw_ok (demo_gateway\<lparr>g_session := on_bytes [1, 0x03, 0, 0, 7, 0, 0, 0, 1] (g_session demo_gateway)\<rparr>) {}"
    using demo_gateway_ok by (simp add: gw_ok_def)
  then show ?thesis using gateway_pump_safe by blast
qed

text \<open>
  C30. A new order gets one truthful answer. For an active session and a pool with a free slot, the
  handler sends either a single reject whose stated reason is the true one (the instrument is
  unknown, the quantity zero, the limit price not positive, the time in force unfit for a market
  order, or the crossing part of the opposite side too thin for a fill-or-kill order), or an
  acknowledgement followed by one fill per trade; the fills never exceed the order, carry the final
  status of the order, and add up to its quantity exactly when that status is filled.
\<close>

theorem new_order_answered:
  assumes ok: "gw_ok g held" and act: "session_state (g_session g) = SP_Active" and free: "free_list (g_pool g) \<noteq> []"
  shows "\<exists>g' held' rs. handle_new_order clk m g = Some g' \<and> gw_ok g' held' \<and> g_session g' = after_emits rs (g_session g) \<and>
    ((\<exists>r. rs = [reject_msg (no_client_order_id m) r] \<and> reject_cause r m g) \<or>
     (\<exists>st trs. rs = OrderAckMsg \<lparr>oa_client_order_id = no_client_order_id m, oa_server_order_id = no_client_order_id m\<rparr> #
          map (fill_of m st) trs \<and> st \<noteq> Rejected \<and> volume trs \<le> unat (no_quantity m) \<and>
          (st = Filled \<longleftrightarrow> volume trs = unat (no_quantity m))))"
  using ok act free
proof (cases rule: new_order_cases [of _ _ m clk])
  case (unknown g' held')
  then show ?thesis by (force simp: reject_cause_def)
next
  case (rejected mt r g' held')
  then show ?thesis by blast
next
  case (accepted mt t1 trs opp' g' held')
  have "unat (no_quantity m) = left t1 + volume trs"
    using match_ref_conserves [OF accepted(6)] by simp
  moreover have "settle_status t1 = Filled \<longleftrightarrow> left t1 = 0"
    using remaining_0_iff [of t1] by (auto simp: settle_status_def unat_eq_0 split: if_splits)
  moreover have "settle_status t1 \<noteq> Rejected" by (auto simp: settle_status_def split: if_splits)
  ultimately show ?thesis using accepted(2-4) by (intro exI conjI disjI2) auto
qed

definition demo_msg :: new_order_msg where
  "demo_msg = \<lparr>no_client_order_id = 5, no_instrument_id = 1, no_side = 0, no_order_type = 0, no_tif = 2,
     no_price = 100, no_quantity = 10\<rparr>"

theorem new_order_answered_witness:
  "\<exists>g' held' rs. handle_new_order (\<lambda>_. 0) demo_msg demo_gateway = Some g' \<and> gw_ok g' held' \<and>
     g_session g' = after_emits rs (g_session demo_gateway) \<and> rs \<noteq> []"
  using new_order_answered [OF demo_gateway_ok demo_gateway_facts(1,2), of "\<lambda>_. 0" demo_msg] by auto

text \<open>The phases of a session, and what a step of the gateway may do in each.\<close>

fun phase_rank :: "session_phase \<Rightarrow> nat" where
  "phase_rank SP_NotLoggedOn = 0"
| "phase_rank SP_Active = 1"
| "phase_rank SP_Closing = 2"

definition gated :: "gateway \<Rightarrow> gateway \<Rightarrow> bool" where
  "gated g g' \<longleftrightarrow> (let st = session_state (g_session g); st' = session_state (g_session g') in
     phase_rank st \<le> phase_rank st' \<and>
     (st = st' \<and> st \<noteq> SP_Active \<longrightarrow> g_pool g' = g_pool g \<and> g_engine g' = g_engine g) \<and>
     (st \<noteq> SP_NotLoggedOn \<longrightarrow> client_id (g_session g') = client_id (g_session g)))"

lemma phase_rank_inj: "phase_rank a = phase_rank b \<longleftrightarrow> a = b"
  by (cases a; cases b) auto

lemma gated_trans:
  assumes "gated a b" and "gated b c"
  shows "gated a c"
proof -
  let ?s = "\<lambda>g. session_state (g_session g)"
  have le: "phase_rank (?s a) \<le> phase_rank (?s b)" "phase_rank (?s b) \<le> phase_rank (?s c)"
    using assms by (simp_all add: gated_def Let_def)
  have "g_pool c = g_pool a \<and> g_engine c = g_engine a" if "?s a = ?s c" "?s a \<noteq> SP_Active"
  proof -
    have "?s a = ?s b" using le that(1) by (metis le_antisym phase_rank_inj)
    then show ?thesis using assms that by (simp add: gated_def Let_def)
  qed
  moreover have "client_id (g_session c) = client_id (g_session a)" if "?s a \<noteq> SP_NotLoggedOn"
  proof -
    have "?s b \<noteq> SP_NotLoggedOn" using le(1) that by (cases "?s a") auto
    then show ?thesis using assms that by (simp add: gated_def Let_def)
  qed
  ultimately show ?thesis using le unfolding gated_def Let_def by (blast intro: le_trans)
qed

lemma dispatch_gated:
  assumes "dispatch clk b g = Some g'"
  shows "gated g g'"
proof (cases b)
  case (NewOrderMsg m)
  then obtain rs where "g_session g' = after_emits rs (g_session g)"
    using assms handle_new_order_session [of clk m g g'] by auto
  moreover have "session_state (g_session g) \<noteq> SP_Active \<Longrightarrow> g_pool g' = g_pool g \<and> g_engine g' = g_engine g"
    using assms NewOrderMsg by (auto simp: handle_new_order_def emit_to_eq)
  ultimately show ?thesis by (simp add: gated_def)
next
  case (CancelOrderMsg m)
  then obtain rs where "g_session g' = after_emits rs (g_session g)"
    using assms handle_cancel_session [of m g g'] by auto
  moreover have "session_state (g_session g) \<noteq> SP_Active \<Longrightarrow> g_pool g' = g_pool g \<and> g_engine g' = g_engine g"
    using assms CancelOrderMsg by (auto simp: handle_cancel_def emit_to_eq)
  ultimately show ?thesis by (simp add: gated_def)
next
  case (LogonMsg m)
  then show ?thesis
    using assms by (auto simp: handle_logon_def emit_to_eq gated_def set_state_def set_client_def split: if_splits)
next
  case LogoutMsg
  then show ?thesis
    using assms by (cases "session_state (g_session g)") (auto simp: handle_logout_def emit_to_eq gated_def set_state_def)
qed (use assms in \<open>auto simp: handle_heartbeat_def emit_to_eq gated_def\<close>)

lemma next_inbound_gated:
  "next_inbound (g_session g) = Some (m, s) \<Longrightarrow> gated g (g\<lparr>g_session := s\<rparr>)"
  by (auto simp: next_inbound_def gated_def exec_simps)

lemma pump_gated: "pump clks k g = Some g' \<Longrightarrow> gated g g'"
proof (induction clks k g rule: pump.induct)
  case (1 clks k g)
  obtain m s where nx: "next_inbound (g_session g) = Some (m, s)" using next_inbound_defined by blast
  show ?case
  proof (cases m)
    case None
    then show ?thesis using "1.prems" nx next_inbound_gated [OF nx] by (simp add: pump.simps [of clks k g])
  next
    case (Some msg)
    then obtain g1 where d: "dispatch (clks k) (dm_body msg) (g\<lparr>g_session := s\<rparr>) = Some g1" "pump clks (Suc k) g1 = Some g'"
      using "1.prems" nx by (auto simp: pump.simps [of clks k g] split: option.splits)
    show ?thesis
      using gated_trans [OF gated_trans [OF next_inbound_gated [OF nx] dispatch_gated [OF d(1)]]]
        "1.IH" [OF nx refl Some d] by blast
  qed
qed

text \<open>
  C31. The log on gates the engine. A session only moves forward, from not logged on to active to
  closing. If it is not active before and after a \<open>pump\<close> and in the same phase, then whatever the
  client sent, neither the pool nor a book changed; and once a session has left the first phase its
  client id is fixed.
\<close>

theorem gateway_logon_gate:
  assumes "pump clks k g = Some g'"
  shows "let st = session_state (g_session g); st' = session_state (g_session g') in
     phase_rank st \<le> phase_rank st' \<and>
     (st = st' \<and> st \<noteq> SP_Active \<longrightarrow> g_pool g' = g_pool g \<and> g_engine g' = g_engine g) \<and>
     (st \<noteq> SP_NotLoggedOn \<longrightarrow> client_id (g_session g') = client_id (g_session g))"
  using pump_gated [OF assms] by (simp add: gated_def)

text \<open>A cancel request sent before the log on.\<close>

definition demo_early :: gateway where
  "demo_early = demo_gateway\<lparr>g_session := after_emits [] (on_bytes (message_bytes 1 (CancelOrderMsg
     \<lparr>co_client_order_id = 5, co_instrument_id = 1\<rparr>)) (new_session 1))\<rparr>"

theorem gateway_logon_gate_witness:
  "\<exists>g'. pump (\<lambda>_ _. 0) 0 demo_early = Some g' \<and>
     phase_rank SP_NotLoggedOn \<le> phase_rank (session_state (g_session g')) \<and>
     (session_state (g_session g') = SP_NotLoggedOn \<longrightarrow> g_engine g' = g_engine demo_early)"
proof -
  have st: "session_state (g_session demo_early) = SP_NotLoggedOn"
    by (simp add: demo_early_def on_bytes_def new_session_def)
  have "gw_ok demo_early {}" using demo_gateway_ok by (simp add: demo_early_def gw_ok_def)
  then obtain g' where p: "pump (\<lambda>_ _. 0) 0 demo_early = Some g'" using pump_ok by blast
  then show ?thesis using gateway_logon_gate [OF p] st by (auto simp: Let_def)
qed

text \<open>
  C32. The order type byte is not checked. For an active session, a free slot and a known instrument,
  a new order whose type byte is neither limit nor market is acknowledged whatever its price is, zero
  and negative ones included, as long as its quantity is positive and it is not fill-or-kill; the
  checks of price and time in force both compare with the two known types only.
\<close>

theorem unknown_order_type_accepted:
  assumes ok: "gw_ok g held" and act: "session_state (g_session g) = SP_Active" and free: "free_list (g_pool g) \<noteq> []"
    and known: "um_find (matchers (g_engine g)) (no_instrument_id m) \<noteq> None"
    and ty: "1 < no_order_type m" and q: "no_quantity m \<noteq> 0" and tf: "no_tif m \<noteq> 2"
  shows "\<exists>g' rs. handle_new_order clk m g = Some g' \<and> g_session g' = after_emits (OrderAckMsg
    \<lparr>oa_client_order_id = no_client_order_id m, oa_server_order_id = no_client_order_id m\<rparr> # rs) (g_session g)"
proof -
  have "no_order_type m \<noteq> 0" "no_order_type m \<noteq> 1" using ty by auto
  then have nr: "\<not> spec_rejects (no_instrument_id m) (order_of_msg 0 0 m) opp" for opp
    using q tf by (simp add: spec_rejects_def submit_rejects_def)
  show ?thesis
    using ok act free
  proof (cases rule: new_order_cases [of _ _ m clk])
    case (accepted mt t1 trs opp' g' held')
    then show ?thesis by blast
  qed (use known nr in auto)
qed

theorem unknown_order_type_accepted_witness:
  "\<exists>g' rs. handle_new_order (\<lambda>_. 0) (demo_msg\<lparr>no_order_type := 7, no_tif := 0, no_price := - 3\<rparr>) demo_gateway = Some g' \<and>
     g_session g' = after_emits (OrderAckMsg \<lparr>oa_client_order_id = 5, oa_server_order_id = 5\<rparr> # rs) (g_session demo_gateway)"
  using unknown_order_type_accepted [OF demo_gateway_ok demo_gateway_facts(1,2),
      of "demo_msg\<lparr>no_order_type := 7, no_tif := 0, no_price := - 3\<rparr>" "\<lambda>_. 0"] demo_gateway_facts(3)
  by (simp add: demo_msg_def)

end
