(* ===== verification/Tcp.thy ===== *)
theory Tcp
  imports Framer
begin

text \<open>
  \<open>src/gateway/tcp.cpp\<close> and \<open>src/gateway/client.cpp\<close>: the loop that sends a whole buffer, the opening of
  sockets with its error paths, and the client. What the system calls return is a parameter: for \<open>send\<close> and
  \<open>recv\<close> the list of the results of the successive calls, for \<open>send\<close> as functions of the number of bytes it
  is given; a list that ends stands for a call that blocks for ever. POSIX promises that \<open>send\<close> returns
  at most the number of bytes it was given, and that a positive result counts the leading bytes
  that were transmitted.
\<close>

section \<open>Sending a whole buffer\<close>

datatype send_end = Sent | Failed | Blocked

text \<open>The outcome, and the bytes that went out.\<close>

function send_all :: "(nat \<Rightarrow> int) list \<Rightarrow> nat \<Rightarrow> u8 list \<Rightarrow> send_end \<times> u8 list" where
  "send_all ns sent data =
     (if sent < length data then
        (case ns of
           [] \<Rightarrow> (Blocked, [])
         | f # ns' \<Rightarrow>
             let n = f (length data - sent) in
             if n \<le> 0 then (Failed, [])
             else (case send_all ns' (sent + nat n) data of
               (r, out) \<Rightarrow> (r, take (nat n) (drop sent data) @ out)))
      else (Sent, []))"
  by pat_completeness auto
termination by (relation "measure (\<lambda>(ns, _, _). length ns)") auto

declare send_all.simps [simp del]

text \<open>The promise of \<open>send\<close>, never more than it was given; and progress, at least one byte.\<close>

definition send_sound :: "(nat \<Rightarrow> int) list \<Rightarrow> bool" where
  "send_sound ns \<longleftrightarrow> (\<forall>f \<in> set ns. \<forall>n. f n \<le> int n)"

definition send_lively :: "(nat \<Rightarrow> int) list \<Rightarrow> bool" where
  "send_lively ns \<longleftrightarrow> (\<forall>f \<in> set ns. \<forall>n. 0 < n \<longrightarrow> 0 < f n)"

lemma send_all_step:
  assumes "sent < length data" and "0 < f (length data - sent)"
  shows "send_all (f # ns) sent data = (let n = nat (f (length data - sent)) in
    case send_all ns (sent + n) data of (r, out) \<Rightarrow> (r, take n (drop sent data) @ out))"
  using assms by (subst send_all.simps) (simp add: Let_def)

lemma send_all_prefix:
  "send_sound ns \<Longrightarrow> sent \<le> length data \<Longrightarrow> send_all ns sent data = (r, out) \<Longrightarrow>
   \<exists>rest. drop sent data = out @ rest \<and> (r = Sent \<longrightarrow> rest = [])"
proof (induction ns arbitrary: sent r out)
  case Nil
  then show ?case by (subst (asm) send_all.simps) (auto split: if_splits)
next
  case (Cons f ns)
  let ?n = "nat (f (length data - sent))"
  show ?case
  proof (cases "sent < length data \<and> 0 < f (length data - sent)")
    case False
    then show ?thesis using Cons.prems by (subst (asm) send_all.simps) (auto simp: Let_def split: if_splits)
  next
    case True
    then obtain o2 where o2: "send_all ns (sent + ?n) data = (r, o2)" "out = take ?n (drop sent data) @ o2"
      using Cons.prems(3) send_all_step [of sent data f ns] by (auto simp: Let_def split: prod.splits)
    have "f (length data - sent) \<le> int (length data - sent)" using Cons.prems(1) by (simp add: send_sound_def)
    then have "sent + ?n \<le> length data" using True by linarith
    then obtain rest where "drop (sent + ?n) data = o2 @ rest" "r = Sent \<longrightarrow> rest = []"
      using Cons.IH [OF _ _ o2(1)] Cons.prems(1) by (auto simp: send_sound_def)
    moreover have "drop sent data = take ?n (drop sent data) @ drop (sent + ?n) data"
      using append_take_drop_id [of ?n "drop sent data"] by (simp add: add.commute)
    ultimately show ?thesis using o2(2) by auto
  qed
qed

lemma send_all_progress:
  "send_lively ns \<Longrightarrow> length data - sent \<le> length ns \<Longrightarrow> fst (send_all ns sent data) = Sent"
proof (induction ns arbitrary: sent)
  case Nil
  then show ?case by (simp add: send_all.simps)
next
  case (Cons f ns)
  show ?case
  proof (cases "sent < length data")
    case False
    then show ?thesis by (simp add: send_all.simps)
  next
    case True
    then have f: "0 < f (length data - sent)" using Cons.prems(1) by (simp add: send_lively_def)
    then have "length data - (sent + nat (f (length data - sent))) \<le> length ns" using Cons.prems(2) by simp
    then have "fst (send_all ns (sent + nat (f (length data - sent))) data) = Sent"
      using Cons.IH Cons.prems(1) by (simp add: send_lively_def)
    then show ?thesis
      using send_all_step [of sent data f ns] True f by (simp add: Let_def split_beta)
  qed
qed

section \<open>Opening sockets\<close>

text \<open>
  \<open>listen_on\<close> and \<open>connect_to\<close> over the results of the system calls they make. The second component
  of the result lists the calls of \<open>close_socket\<close>. The result of \<open>setsockopt\<close> is not looked at.
\<close>

definition kInvalidSocket :: int where
  "kInvalidSocket = - 1"

datatype socket_error = SocketFailed | BindFailed | ListenFailed | InetPtonFailed | ConnectFailed

record listen_results =
  os_socket :: int
  os_bind :: int
  os_listen :: int

record connect_results =
  oc_socket :: int
  oc_inet_pton :: int
  oc_connect :: int

definition listen_on :: "listen_results \<Rightarrow> (socket_error + int) \<times> int list" where
  "listen_on os =
     (let s = os_socket os in
      if s = kInvalidSocket then (Inl SocketFailed, [])
      else if os_bind os \<noteq> 0 then (Inl BindFailed, [s])
      else if os_listen os \<noteq> 0 then (Inl ListenFailed, [s])
      else (Inr s, []))"

definition connect_to :: "connect_results \<Rightarrow> (socket_error + int) \<times> int list" where
  "connect_to os =
     (let s = oc_socket os in
      if s = kInvalidSocket then (Inl SocketFailed, [])
      else if oc_inet_pton os \<noteq> 1 then (Inl InetPtonFailed, [s])
      else if oc_connect os \<noteq> 0 then (Inl ConnectFailed, [s])
      else (Inr s, []))"

text \<open>
  The discipline of sockets: a socket that was obtained is either handed to the caller or closed
  exactly once, never both.
\<close>

definition opened :: "int \<Rightarrow> int list" where
  "opened s = (if s = kInvalidSocket then [] else [s])"

definition handed :: "(socket_error + int) \<Rightarrow> int list" where
  "handed r = (case r of Inl _ \<Rightarrow> [] | Inr s \<Rightarrow> [s])"

lemma listen_on_sockets: "listen_on os = (r, closes) \<Longrightarrow> handed r @ closes = opened (os_socket os)"
  by (auto simp: listen_on_def Let_def handed_def opened_def split: if_splits)

lemma connect_to_sockets: "connect_to os = (r, closes) \<Longrightarrow> handed r @ closes = opened (oc_socket os)"
  by (auto simp: connect_to_def Let_def handed_def opened_def split: if_splits)

section \<open>The client\<close>

record client =
  cl_sock :: int
  cl_framer :: framer
  cl_out_seq :: u32

text \<open>The constructor, with the socket of \<open>connect_to\<close>; when that throws there is no client. The destructor.\<close>

definition new_client :: "int \<Rightarrow> client" where
  "new_client s = \<lparr>cl_sock = s, cl_framer = new_framer, cl_out_seq = 0\<rparr>"

definition client_open :: "connect_results \<Rightarrow> (socket_error + client) \<times> int list" where
  "client_open os = (case connect_to os of (Inl e, closes) \<Rightarrow> (Inl e, closes) | (Inr s, closes) \<Rightarrow> (Inr (new_client s), closes))"

definition client_close :: "client \<Rightarrow> int list" where
  "client_close c = (if cl_sock c \<noteq> kInvalidSocket then [cl_sock c] else [])"

definition client_send :: "(nat \<Rightarrow> int) list \<Rightarrow> message_body \<Rightarrow> client \<Rightarrow> ((send_end \<times> u8 list) \<times> client) option" where
  "client_send ns body c = do {
     bytes \<leftarrow> encode (cl_out_seq c + 1) body;
     Some (send_all ns 0 bytes, c\<lparr>cl_out_seq := cl_out_seq c + 1\<rparr>)
   }"

lemma client_lifetime:
  assumes "client_open os = (r, closes)"
  shows "closes @ (case r of Inl _ \<Rightarrow> [] | Inr c \<Rightarrow> client_close c) = opened (oc_socket os)"
  using assms
  by (auto simp: client_open_def connect_to_def Let_def client_close_def new_client_def opened_def split: if_splits)

text \<open>
  \<open>Client::recv\<close>: the results of \<open>recv_some\<close> as a list, \<open>None\<close> for end of stream or an error. The
  outcome is a message, no message, or a blocked call; the unread results are returned too.
\<close>

datatype recv_end = Received decoded_message | Nothing | Waiting

fun client_recv :: "u8 list option list \<Rightarrow> client \<Rightarrow> (recv_end \<times> u8 list option list \<times> client) option" where
  "client_recv evs c = do {
     (m, f) \<leftarrow> next_message (cl_framer c);
     let c' = c\<lparr>cl_framer := f\<rparr> in
     case m of
       Some msg \<Rightarrow> Some (Received msg, evs, c')
     | None \<Rightarrow>
         if framer_has_error f then Some (Nothing, evs, c')
         else case evs of
             [] \<Rightarrow> Some (Waiting, [], c')
           | None # evs' \<Rightarrow> Some (Nothing, evs', c')
           | Some data # evs' \<Rightarrow> client_recv evs' (c'\<lparr>cl_framer := feed data f\<rparr>)
   }"

declare client_recv.simps [simp del]

text \<open>What the client still has to read: its buffer and the chunks on their way.\<close>

definition pending_bytes :: "u8 list option list \<Rightarrow> client \<Rightarrow> u8 list" where
  "pending_bytes evs c = fr_buf (cl_framer c) @ concat (map the evs)"

lemma client_recv_buffered:
  assumes "fr_error (cl_framer c) = NoError" and "parse (fr_buf (cl_framer c)) = Got m n"
  shows "client_recv evs c = Some (Received m, evs, c\<lparr>cl_framer := (cl_framer c)\<lparr>fr_buf := drop n (fr_buf (cl_framer c))\<rparr>\<rparr>)"
  using assms by (subst client_recv.simps) (simp add: next_message_parse)

lemma client_recv_more:
  assumes "fr_error (cl_framer c) = NoError" and "parse (fr_buf (cl_framer c)) = More"
  shows "client_recv (Some data # evs) c = client_recv evs (c\<lparr>cl_framer := feed data (cl_framer c)\<rparr>)"
  using assms by (subst client_recv.simps) (simp add: next_message_parse framer_has_error_def Let_def)

lemma client_recv_message:
  assumes "fr_error (cl_framer c) = NoError" and "list_all (\<lambda>e. e \<noteq> None) evs" and "parse (pending_bytes evs c) = Got m n"
  shows "\<exists>evs' c'. client_recv evs c = Some (Received m, evs', c') \<and> fr_error (cl_framer c') = NoError \<and>
     list_all (\<lambda>e. e \<noteq> None) evs' \<and> pending_bytes evs' c' = drop n (pending_bytes evs c) \<and> cl_out_seq c' = cl_out_seq c"
  using assms
proof (induction evs arbitrary: c)
  case Nil
  then have p: "parse (fr_buf (cl_framer c)) = Got m n" by (simp add: pending_bytes_def)
  show ?case using client_recv_buffered [OF Nil(1) p] Nil(1) by (simp add: pending_bytes_def)
next
  case (Cons ev evs)
  then obtain data where ev: "ev = Some data" by auto
  let ?f = "cl_framer c"
  show ?case
  proof (cases "parse (fr_buf ?f)")
    case (Bad e)
    then show ?thesis using Cons.prems(3) parse_prefix [of "fr_buf ?f"] by (simp add: pending_bytes_def)
  next
    case (Got m' n')
    then have "m' = m" "n' = n" using Cons.prems(3) parse_prefix [of "fr_buf ?f"] by (simp_all add: pending_bytes_def)
    then show ?thesis
      using client_recv_buffered [OF Cons.prems(1) Got] parse_Got_length [OF Got] Cons.prems(1,2)
      by (simp add: pending_bytes_def)
  next
    case More
    let ?c = "c\<lparr>cl_framer := feed data ?f\<rparr>"
    have fd: "feed data ?f = ?f\<lparr>fr_buf := fr_buf ?f @ data\<rparr>" using Cons.prems(1) by (simp add: feed_def)
    have "pending_bytes evs ?c = pending_bytes (ev # evs) c" by (simp add: pending_bytes_def ev fd)
    then show ?thesis
      using Cons.IH [of ?c] Cons.prems client_recv_more [OF Cons.prems(1) More] fd ev by simp
  qed
qed

text \<open>Reading message after message.\<close>

fun recv_many :: "nat \<Rightarrow> u8 list option list \<Rightarrow> client \<Rightarrow> (decoded_message list \<times> client) option" where
  "recv_many 0 evs c = Some ([], c)"
| "recv_many (Suc k) evs c = do {
     (r, evs', c') \<leftarrow> client_recv evs c;
     case r of
       Received m \<Rightarrow> do { (ms, c'') \<leftarrow> recv_many k evs' c'; Some (m # ms, c'') }
     | _ \<Rightarrow> Some ([], c')
   }"

lemma recv_many_stream:
  assumes "fr_error (cl_framer c) = NoError" and "list_all (\<lambda>e. e \<noteq> None) evs"
    and "list_all (body_ok \<circ> snd) msgs" and "pending_bytes evs c = stream_bytes msgs"
  shows "\<exists>c'. recv_many (length msgs) evs c = Some (map decoded msgs, c')"
  using assms
proof (induction msgs arbitrary: evs c)
  case (Cons x msgs)
  have sb: "stream_bytes (x # msgs) = message_bytes (fst x) (snd x) @ stream_bytes msgs"
    by (simp add: stream_bytes_def split_beta)
  then have "parse (pending_bytes evs c) = Got (decoded x) (length (message_bytes (fst x) (snd x)))"
    using parse_message [of "snd x" "fst x" "stream_bytes msgs"] Cons.prems by (simp add: decoded_def)
  then obtain evs' c' where r: "client_recv evs c = Some (Received (decoded x), evs', c')"
      "fr_error (cl_framer c') = NoError" "list_all (\<lambda>e. e \<noteq> None) evs'"
      "pending_bytes evs' c' = drop (length (message_bytes (fst x) (snd x))) (pending_bytes evs c)"
    using client_recv_message [OF Cons.prems(1,2)] by blast
  then have "pending_bytes evs' c' = stream_bytes msgs" using Cons.prems(4) sb by simp
  then show ?case using Cons.IH [OF r(2,3)] Cons.prems(3) r(1) by auto
qed simp

text \<open>
  C33. \<open>send_all\<close> transmits the buffer. If \<open>send\<close> never reports more bytes than it was given, then what
  went out is at any end a prefix of the buffer, and all of it when \<open>send_all\<close> returns true; and if
  \<open>send\<close> always makes progress, \<open>send_all\<close> returns true after at most as many calls as there are bytes.
\<close>

theorem send_all_transmits:
  assumes "send_sound ns" and "send_all ns 0 data = (r, out)"
  shows "(\<exists>rest. data = out @ rest) \<and> (r = Sent \<longrightarrow> out = data) \<and>
    (send_lively ns \<and> length data \<le> length ns \<longrightarrow> r = Sent)"
  using send_all_prefix [OF assms(1) _ assms(2)] send_all_progress [of ns data 0] assms(2) by auto

theorem send_all_transmits_witness:
  "send_all [\<lambda>n. int (min 2 n), \<lambda>n. int (min 2 n)] 0 [7, 8, 9] = (Sent, [7, 8, 9]) \<and>
   (\<exists>rest. [7, 8, 9 :: u8] = [7, 8, 9] @ rest)"
proof -
  have r: "send_all [\<lambda>n. int (min 2 n), \<lambda>n. int (min 2 n)] 0 [7, 8, 9] = (Sent, [7, 8, 9 :: u8])" by code_simp
  have "send_sound [\<lambda>n. int (min 2 n), \<lambda>n. int (min 2 n)]" by (simp add: send_sound_def)
  from send_all_transmits [OF this r] r show ?thesis by blast
qed

text \<open>
  C34. The client reads what was sent. If the bytes of a sequence of encoded messages arrive in any
  chunks, each \<open>recv\<close> of the client returns the next of these messages, until all have been read;
  it never waits for bytes beyond those of the message.
\<close>

theorem client_reads_stream:
  assumes "list_all (body_ok \<circ> snd) msgs" and "concat chunks = stream_bytes msgs"
  shows "\<exists>c. recv_many (length msgs) (map Some chunks) (new_client s) = Some (map decoded msgs, c)"
proof -
  have "map the (map Some chunks) = chunks" by (simp add: comp_def)
  then have "pending_bytes (map Some chunks) (new_client s) = stream_bytes msgs"
    using assms(2) by (simp add: pending_bytes_def new_client_def new_framer_def)
  moreover have "list_all (\<lambda>e. e \<noteq> None) (map Some chunks)" by (simp add: list_all_iff)
  ultimately show ?thesis
    using recv_many_stream [of "new_client s" "map Some chunks" msgs] assms(1) by (simp add: new_client_def new_framer_def)
qed

theorem client_reads_stream_witness:
  "\<exists>c. recv_many 1 [Some [1, 3, 0], Some [0, 4, 0, 0, 0]] (new_client 3) = Some ([decoded (4, HeartbeatMsg)], c)"
proof -
  have "concat [[1, 3, 0], [0, 4, 0, 0, 0]] = stream_bytes [(4, HeartbeatMsg)]" by code_simp
  from client_reads_stream [OF _ this] show ?thesis by simp
qed

end
