(* ===== verification/Server.thy ===== *)
theory Server
  imports Gateway_Theorems Tcp
begin

text \<open>
  \<open>include/ordbk/gateway/server.hpp\<close> and \<open>src/gateway/server.cpp\<close>: the loop of one session, and the
  bookkeeping of sockets when the server starts, accepts, ends sessions and stops. Each turn of the
  session loop has its inputs: the value of the \<open>running_\<close> flag, the result of \<open>recv_some\<close> (\<open>None\<close> for
  end of stream or an error), and the results of the calls of \<open>send\<close>. A list of turns that ends
  stands for a call of \<open>recv\<close> that blocks.

  Sessions run on threads of their own but share the engine and its pool without a lock. Here is one
  session; \<open>Server_Sessions\<close> puts any number of them on one engine.
\<close>

section \<open>The session loop\<close>

record turn =
  t_running :: bool
  t_recv :: "u8 list option"
  t_send :: "(nat \<Rightarrow> int) list"

text \<open>
  One turn of the loop: the bytes put on the wire, the gateway afterwards, and whether the loop goes
  on, is left, or is stuck in a call of \<open>send\<close> that blocks.
\<close>

datatype turn_end = Goes_on | Leaves | Stuck

primrec after_send :: "send_end \<Rightarrow> turn_end" where
  "after_send Sent = Goes_on"
| "after_send Failed = Leaves"
| "after_send Blocked = Stuck"

definition session_turn :: "(nat \<Rightarrow> nat \<Rightarrow> u64) \<Rightarrow> turn \<Rightarrow> gateway \<Rightarrow> (u8 list \<times> gateway \<times> turn_end) option" where
  "session_turn clks t g =
     (if \<not> t_running t \<or> session_state (g_session g) = SP_Closing then Some ([], g, Leaves)
      else case t_recv t of
          None \<Rightarrow> Some ([], g, Leaves)
        | Some data \<Rightarrow>
            let g1 = g\<lparr>g_session := on_bytes data (g_session g)\<rparr> in
            if session_has_error (g_session g1) then Some ([], g1, Leaves)
            else do {
              g2 \<leftarrow> pump clks 0 g1;
              let (out, s) = take_outbound (g_session g2); g3 = g2\<lparr>g_session := s\<rparr> in
              if out = [] then Some ([], g3, Goes_on)
              else case send_all (t_send t) 0 out of (r, wire) \<Rightarrow> Some (wire, g3, after_send r)
            })"

text \<open>The loop over a list of turns; the flag tells whether it has been left.\<close>

fun session_loop ::
  "(nat \<Rightarrow> nat \<Rightarrow> nat \<Rightarrow> u64) \<Rightarrow> nat \<Rightarrow> turn list \<Rightarrow> gateway \<Rightarrow> (u8 list \<times> gateway \<times> bool) option" where
  "session_loop clks j [] g = Some ([], g, False)"
| "session_loop clks j (t # turns) g = do {
     (wire, g', r) \<leftarrow> session_turn (clks j) t g;
     if r \<noteq> Goes_on then Some (wire, g', r = Leaves)
     else do {
       (rest, g'', left) \<leftarrow> session_loop clks (Suc j) turns g';
       Some (wire @ rest, g'', left)
     }
   }"

text \<open>What a step of the gateway adds to the queue of a session: whole messages, numbered on.\<close>

definition emits :: "gateway \<Rightarrow> gateway \<Rightarrow> message_body list \<Rightarrow> bool" where
  "emits g g' rs \<longleftrightarrow> outbound (g_session g') = outbound (g_session g) @ stream_bytes (numbered (out_seq (g_session g)) rs) \<and>
     out_seq (g_session g') = out_seq (g_session g) + of_nat (length rs)"

lemma emits_trans: "emits a b xs \<Longrightarrow> emits b c ys \<Longrightarrow> emits a c (xs @ ys)"
  by (simp add: emits_def numbered_append add.assoc)

lemma emits_Nil: "outbound (g_session b) = outbound (g_session a) \<Longrightarrow> out_seq (g_session b) = out_seq (g_session a) \<Longrightarrow> emits a b []"
  by (simp add: emits_def stream_bytes_def)

lemma emits_after: "g_session b = after_emits rs s \<Longrightarrow> outbound s = outbound (g_session a) \<Longrightarrow>
    out_seq s = out_seq (g_session a) \<Longrightarrow> emits a b rs"
  by (simp add: emits_def after_emits_def)

lemma dispatch_emits:
  assumes "dispatch clk b g = Some g'"
  shows "\<exists>rs. emits g g' rs"
proof (cases b)
  case (NewOrderMsg m)
  then show ?thesis using assms handle_new_order_session [of clk m g g'] emits_after by fastforce
next
  case (CancelOrderMsg m)
  then show ?thesis using assms handle_cancel_session [of m g g'] emits_after by fastforce
next
  case (LogonMsg m)
  show ?thesis
  proof (cases "session_state (g_session g) = SP_NotLoggedOn")
    case True
    then have "g_session g' = after_emits [LogonMsg \<lparr>lo_client_id = lo_client_id m\<rparr>]
        (set_state SP_Active (set_client (lo_client_id m) (g_session g)))"
      using assms LogonMsg by (auto simp: handle_logon_def emit_to_eq)
    from emits_after [OF this] show ?thesis by (auto simp: set_state_def set_client_def)
  qed (use assms LogonMsg emits_Nil [of g g] in \<open>auto simp: handle_logon_def\<close>)
next
  case LogoutMsg
  then have "g_session g' = after_emits [LogoutMsg] (set_state SP_Closing (g_session g))"
    using assms by (auto simp: handle_logout_def emit_to_eq)
  from emits_after [OF this] show ?thesis by (auto simp: set_state_def)
next
  case HeartbeatMsg
  then have "g_session g' = after_emits [HeartbeatMsg] (g_session g)"
    using assms by (auto simp: handle_heartbeat_def emit_to_eq)
  from emits_after [OF this] show ?thesis by auto
qed (use assms emits_Nil [of g g] in auto)

lemma next_inbound_emits: "next_inbound (g_session g) = Some (m, s) \<Longrightarrow> emits g (g\<lparr>g_session := s\<rparr>) []"
  by (rule emits_Nil) (auto simp: next_inbound_def exec_simps)

lemma pump_emits: "pump clks k g = Some g' \<Longrightarrow> \<exists>rs. emits g g' rs"
proof (induction clks k g rule: pump.induct)
  case (1 clks k g)
  obtain m s where nx: "next_inbound (g_session g) = Some (m, s)" using next_inbound_defined by blast
  note e0 = next_inbound_emits [OF nx]
  show ?case
  proof (cases m)
    case None
    then show ?thesis using "1.prems" nx e0 by (auto simp: pump.simps [of clks k g])
  next
    case (Some msg)
    then obtain g1 where d: "dispatch (clks k) (dm_body msg) (g\<lparr>g_session := s\<rparr>) = Some g1" "pump clks (Suc k) g1 = Some g'"
      using "1.prems" nx by (auto simp: pump.simps [of clks k g] split: option.splits)
    obtain rs1 rs2 where "emits (g\<lparr>g_session := s\<rparr>) g1 rs1" "emits g1 g' rs2"
      using dispatch_emits [OF d(1)] "1.IH" [OF nx refl Some d] by blast
    then show ?thesis using emits_trans [OF emits_trans [OF e0]] by blast
  qed
qed

text \<open>Every \<open>send\<close> of the loop keeps the promise of the operating system.\<close>

definition turns_sound :: "turn list \<Rightarrow> bool" where
  "turns_sound turns \<longleftrightarrow> (\<forall>t \<in> set turns. send_sound (t_send t))"

lemma stream_bytes_prefix: "stream_bytes (numbered q (xs @ ys)) = stream_bytes (numbered q xs) @ stream_bytes (numbered (q + of_nat (length xs)) ys)"
  by (simp add: numbered_append)

text \<open>The turn up to the sending.\<close>

lemma session_turn_pump:
  fixes g :: gateway and data :: "u8 list"
  assumes ok: "gw_ok g held" and ob: "outbound (g_session g) = []"
  defines "g1 \<equiv> g\<lparr>g_session := on_bytes data (g_session g)\<rparr>"
  obtains g2 held' rs where "pump clk 0 g1 = Some g2" and "outbound (g_session g2) = stream_bytes (numbered (out_seq (g_session g)) rs)"
    and "gw_ok (g2\<lparr>g_session := snd (take_outbound (g_session g2))\<rparr>) held'"
    and "gw_slots (g2\<lparr>g_session := snd (take_outbound (g_session g2))\<rparr>) held' = gw_slots g held"
    and "out_seq (snd (take_outbound (g_session g2))) = out_seq (g_session g) + of_nat (length rs)"
proof -
  have ok1: "gw_ok g1 held" "gw_slots g1 held = gw_slots g held"
    using ok by (simp_all add: gw_ok_def gw_slots_def g1_def)
  obtain g2 held' where p: "pump clk 0 g1 = Some g2" "keeps g1 held g2 held'"
    using pump_ok [OF ok1(1)] by blast
  obtain rs where "emits g1 g2 rs" using pump_emits [OF p(1)] by blast
  then have "outbound (g_session g2) = stream_bytes (numbered (out_seq (g_session g)) rs)"
      "out_seq (g_session g2) = out_seq (g_session g) + of_nat (length rs)"
    using ob by (simp_all add: emits_def g1_def on_bytes_def)
  moreover have "gw_ok (g2\<lparr>g_session := s\<rparr>) held'" "gw_slots (g2\<lparr>g_session := s\<rparr>) held' = gw_slots g held" for s
    using p(2) ok1(2) by (simp_all add: keeps_def gw_ok_def gw_slots_def)
  ultimately show thesis using that [OF p(1), of rs held'] by (simp add: take_outbound_def)
qed

text \<open>
  The whole turn. What goes on the wire is the start of whole messages, numbered on from the last
  one; as long as the loop goes on, it is all of them.
\<close>

definition turn_ok :: "gateway \<Rightarrow> ptr set \<Rightarrow> u8 list \<Rightarrow> gateway \<Rightarrow> turn_end \<Rightarrow> bool" where
  "turn_ok g held wire g' r \<longleftrightarrow> outbound (g_session g') = [] \<and> (\<exists>held'. gw_ok g' held' \<and> gw_slots g' held' = gw_slots g held) \<and>
     (\<exists>rs rest. wire @ rest = stream_bytes (numbered (out_seq (g_session g)) rs) \<and>
        (r = Goes_on \<longrightarrow> rest = [] \<and> out_seq (g_session g') = out_seq (g_session g) + of_nat (length rs)))"

lemma turn_ok_silent:
  "gw_ok g held \<Longrightarrow> outbound s = [] \<Longrightarrow> r \<noteq> Goes_on \<Longrightarrow> turn_ok g held [] (g\<lparr>g_session := s\<rparr>) r"
  by (auto simp: turn_ok_def gw_ok_def gw_slots_def stream_bytes_def intro!: exI [of _ "[]"] exI [of _ held])

lemma session_turn_ok:
  assumes ok: "gw_ok g held" and ob: "outbound (g_session g) = []" and snd: "send_sound (t_send t)"
  shows "\<exists>wire g' r. session_turn clk t g = Some (wire, g', r) \<and> turn_ok g held wire g' r"
proof (cases "\<not> t_running t \<or> session_state (g_session g) = SP_Closing \<or> t_recv t = None")
  case True
  then show ?thesis using turn_ok_silent [OF ok ob, of Leaves] by (auto simp: session_turn_def)
next
  case False
  then obtain data where ev: "t_running t" "session_state (g_session g) \<noteq> SP_Closing" "t_recv t = Some data" by auto
  let ?g1 = "g\<lparr>g_session := on_bytes data (g_session g)\<rparr>" and ?q = "out_seq (g_session g)"
  show ?thesis
  proof (cases "session_has_error (g_session ?g1)")
    case True
    then show ?thesis
      using ev turn_ok_silent [OF ok, of "on_bytes data (g_session g)" Leaves] ob by (auto simp: session_turn_def on_bytes_def)
  next
    case noerr: False
    obtain g2 held' rs where p: "pump clk 0 ?g1 = Some g2" "outbound (g_session g2) = stream_bytes (numbered ?q rs)"
        "gw_ok (g2\<lparr>g_session := snd (take_outbound (g_session g2))\<rparr>) held'"
        "gw_slots (g2\<lparr>g_session := snd (take_outbound (g_session g2))\<rparr>) held' = gw_slots g held"
        "out_seq (snd (take_outbound (g_session g2))) = ?q + of_nat (length rs)"
      by (rule session_turn_pump [OF ok ob])
    let ?out = "stream_bytes (numbered ?q rs)"
    obtain s3 where to: "take_outbound (g_session g2) = (?out, s3)" "outbound s3 = []" using p(2) by (simp add: take_outbound_def)
    obtain r wire where sa: "send_all (t_send t) 0 ?out = (r, wire)" by (cases "send_all (t_send t) 0 ?out")
    obtain rest where rest: "?out = wire @ rest" "r = Sent \<longrightarrow> rest = []"
      using send_all_prefix [OF snd _ sa] by auto
    have good: "turn_ok g held w (g2\<lparr>g_session := s3\<rparr>) e" if "?out = w @ v" "e = Goes_on \<longrightarrow> v = []" for w v e
      unfolding turn_ok_def using p(3-5) to that by (auto intro!: exI [of _ rs] exI [of _ v] exI [of _ held'])
    have "session_turn clk t g = Some (if ?out = [] then ([], g2\<lparr>g_session := s3\<rparr>, Goes_on) else (wire, g2\<lparr>g_session := s3\<rparr>, after_send r))"
      using ev noerr p(1) to(1) sa by (simp add: session_turn_def Let_def)
    then show ?thesis using good [of "[]" "[]" Goes_on] good [OF rest(1), of "after_send r"] rest(2) by (cases r) auto
  qed
qed

lemma session_loop_ok:
  assumes "gw_ok g held" and "outbound (g_session g) = []" and "turns_sound turns"
  shows "\<exists>wire g' left held' rs rest. session_loop clks j turns g = Some (wire, g', left) \<and> gw_ok g' held' \<and>
    gw_slots g' held' = gw_slots g held \<and> wire @ rest = stream_bytes (numbered (out_seq (g_session g)) rs)"
  using assms
proof (induction turns arbitrary: j g held)
  case Nil
  then show ?case by (auto intro!: exI [of _ "[]"] simp: stream_bytes_def)
next
  case (Cons t turns)
  have "send_sound (t_send t)" using Cons.prems(3) by (simp add: turns_sound_def)
  from session_turn_ok [OF Cons.prems(1,2) this] obtain wire g1 r where
      t: "session_turn (clks j) t g = Some (wire, g1, r)" "turn_ok g held wire g1 r" by blast
  obtain held1 rs rest where g1: "gw_ok g1 held1" "gw_slots g1 held1 = gw_slots g held" "outbound (g_session g1) = []"
      "wire @ rest = stream_bytes (numbered (out_seq (g_session g)) rs)"
      "r = Goes_on \<longrightarrow> rest = [] \<and> out_seq (g_session g1) = out_seq (g_session g) + of_nat (length rs)"
    using t(2) unfolding turn_ok_def by blast
  show ?case
  proof (cases "r = Goes_on")
    case False
    then show ?thesis using t(1) g1(1,2,4) by auto
  next
    case True
    obtain w g' left held' rs' rest' where l: "session_loop clks (Suc j) turns g1 = Some (w, g', left)" "gw_ok g' held'"
        "gw_slots g' held' = gw_slots g1 held1" "w @ rest' = stream_bytes (numbered (out_seq (g_session g1)) rs')"
      using Cons.IH [OF g1(1,3), of "Suc j"] Cons.prems(3) by (auto simp: turns_sound_def)
    have "(wire @ w) @ rest' = stream_bytes (numbered (out_seq (g_session g)) (rs @ rs'))"
      using g1(4,5) l(4) True by (simp add: stream_bytes_prefix)
    then show ?thesis using t(1) True l(1-3) g1(2) by auto
  qed
qed

section \<open>Sockets\<close>

text \<open>
  The bookkeeping of the sockets. Sockets are the integers of the operating system, \<open>- 1\<close> is
  \<open>kInvalidSocket\<close>; \<open>sv_closes\<close> records the calls of \<open>close_socket\<close>. The session threads are listed
  with the socket and the id they were started with.
\<close>

record server =
  sv_running :: bool
  sv_listener :: int
  sv_sockets :: "int list"
  sv_threads :: "(int \<times> u64) list"
  sv_next_id :: u64
  sv_closes :: "int list"

definition new_server :: server where
  "new_server = \<lparr>sv_running = False, sv_listener = kInvalidSocket, sv_sockets = [], sv_threads = [],
     sv_next_id = 1, sv_closes = []\<rparr>"

text \<open>
  \<open>start\<close>, over the results of the system calls of \<open>listen_on\<close>. When \<open>listen_on\<close> throws, the exception
  leaves \<open>start\<close>, and the flag stays as it was set.
\<close>

definition server_start :: "listen_results \<Rightarrow> server \<Rightarrow> (socket_error + unit) \<times> server" where
  "server_start os sv =
     (if sv_running sv then (Inr (), sv)
      else let sv1 = sv\<lparr>sv_running := True\<rparr> in
        case listen_on os of
          (Inl e, closes) \<Rightarrow> (Inl e, sv1\<lparr>sv_closes := sv_closes sv @ closes\<rparr>)
        | (Inr l, closes) \<Rightarrow> (Inr (), sv1\<lparr>sv_listener := l, sv_closes := sv_closes sv @ closes\<rparr>))"

text \<open>One turn of \<open>accept_loop\<close>; the argument is the result of \<open>accept_one\<close>. False: the loop ends.\<close>

definition accept_turn :: "int \<Rightarrow> server \<Rightarrow> bool \<times> server" where
  "accept_turn s sv =
     (if \<not> sv_running sv \<or> s = kInvalidSocket then (False, sv)
      else (True, sv\<lparr>sv_next_id := sv_next_id sv + 1, sv_sockets := sv_sockets sv @ [s],
        sv_threads := sv_threads sv @ [(s, sv_next_id sv)]\<rparr>))"

text \<open>The end of \<open>session_loop\<close>: close, and erase the first entry of the socket if there is one.\<close>

definition session_end :: "int \<Rightarrow> server \<Rightarrow> server" where
  "session_end s sv = sv\<lparr>sv_closes := sv_closes sv @ [s], sv_sockets := remove1 s (sv_sockets sv)\<rparr>"

definition server_stop :: "server \<Rightarrow> server" where
  "server_stop sv =
     (if \<not> sv_running sv then sv
      else sv\<lparr>sv_running := False,
        sv_closes := sv_closes sv @ (if sv_listener sv \<noteq> kInvalidSocket then [sv_listener sv] else []) @ sv_sockets sv,
        sv_listener := kInvalidSocket, sv_sockets := [], sv_threads := []\<rparr>)"

text \<open>Sessions that come and go while the server runs.\<close>

datatype server_event = Accepted int | Ended int

fun server_run :: "server_event list \<Rightarrow> server \<Rightarrow> server" where
  "server_run [] sv = sv"
| "server_run (Accepted s # evs) sv = server_run evs (snd (accept_turn s sv))"
| "server_run (Ended s # evs) sv = server_run evs (session_end s sv)"

text \<open>Sockets are fresh when accepted, and only open sessions end.\<close>

fun well_ordered :: "int set \<Rightarrow> int set \<Rightarrow> server_event list \<Rightarrow> bool" where
  "well_ordered open used [] = True"
| "well_ordered open used (Accepted s # evs) \<longleftrightarrow> s \<noteq> kInvalidSocket \<and> s \<notin> used \<and> well_ordered (insert s open) (insert s used) evs"
| "well_ordered open used (Ended s # evs) \<longleftrightarrow> s \<in> open \<and> well_ordered (open - {s}) used evs"

definition sockets_ok :: "int set \<Rightarrow> int set \<Rightarrow> server \<Rightarrow> bool" where
  "sockets_ok open used sv \<longleftrightarrow> sv_running sv \<and> distinct (sv_sockets sv) \<and> set (sv_sockets sv) = open \<and>
     distinct (sv_closes sv) \<and> set (sv_closes sv) = used - open \<and> open \<subseteq> used"

lemma server_run_sockets:
  "sockets_ok open used sv \<Longrightarrow> well_ordered open used evs \<Longrightarrow> \<exists>open' used'. sockets_ok open' used' (server_run evs sv) \<and> used \<subseteq> used'"
proof (induction evs arbitrary: "open" used sv)
  case (Cons ev evs)
  show ?case
  proof (cases ev)
    case (Accepted s)
    then have "sockets_ok (insert s open) (insert s used) (snd (accept_turn s sv))"
      using Cons.prems by (auto simp: sockets_ok_def accept_turn_def)
    then show ?thesis using Cons.IH [of "insert s open" "insert s used"] Cons.prems(2) Accepted by fastforce
  next
    case (Ended s)
    then have "sockets_ok (open - {s}) used (session_end s sv)"
      using Cons.prems by (auto simp: sockets_ok_def session_end_def)
    then show ?thesis using Cons.IH [of "open - {s}" used] Cons.prems(2) Ended by auto
  qed
qed auto


definition demo_server :: server where
  "demo_server = new_server\<lparr>sv_running := True, sv_listener := 3\<rparr>"


text \<open>
  C40. A failed start sticks. When \<open>listen_on\<close> fails, no socket is lost: the one it opened is closed
  exactly once. But the server is left marked as running although it has no listener, so every
  further \<open>start\<close> returns normally without listening, until \<open>stop\<close> is called; after that a \<open>start\<close>
  succeeds or fails as \<open>listen_on\<close> does.
\<close>

theorem server_start_failure_sticks:
  assumes "server_start os new_server = (Inl e, sv)"
  shows "sv_closes sv = opened (os_socket os) \<and> sv_running sv \<and> sv_listener sv = kInvalidSocket \<and>
    server_start os' sv = (Inr (), sv) \<and>
    (fst (server_start os' (server_stop sv)) = Inr () \<longleftrightarrow> (\<exists>l. fst (listen_on os') = Inr l))"
proof -
  obtain closes where "listen_on os = (Inl e, closes)" and sv: "sv = new_server\<lparr>sv_running := True, sv_closes := closes\<rparr>"
    using assms by (auto simp: server_start_def new_server_def Let_def split: prod.splits sum.splits)
  then have "closes = opened (os_socket os)" using listen_on_sockets by (fastforce simp: handed_def)
  then show ?thesis
    by (auto simp: sv new_server_def server_start_def server_stop_def Let_def split: prod.splits sum.splits)
qed

theorem server_start_failure_sticks_witness:
  "server_start \<lparr>os_socket = 3, os_bind = 0, os_listen = 0\<rparr> (new_server\<lparr>sv_running := True, sv_closes := [3]\<rparr>) =
     (Inr (), new_server\<lparr>sv_running := True, sv_closes := [3]\<rparr>)"
proof -
  have "server_start \<lparr>os_socket = 3, os_bind = 98, os_listen = 0\<rparr> new_server = (Inl BindFailed, new_server\<lparr>sv_running := True, sv_closes := [3]\<rparr>)"
    by (simp add: server_start_def new_server_def listen_on_def kInvalidSocket_def Let_def)
  from server_start_failure_sticks [OF this] show ?thesis by blast
qed

end
