(* ===== verification/Server_Sessions.thy ===== *)
theory Server_Sessions
  imports Server
begin

text \<open>
  The server with all its sessions: the acceptor, any number of session threads on one engine, and
  \<open>stop\<close>. The threads interleave turn by turn; the calls of the dispatcher do not overlap. The code
  does not enforce that (there is no lock around the engine), so this is the behaviour of the
  server as long as its clients take turns.
\<close>

section \<open>The system\<close>

text \<open>
  A session thread: its socket and session, what it has put on the wire so far (a history that
  influences nothing), and where its loop stands. The threads are listed in the order of \<open>session_threads_\<close>.
\<close>

record session_thread =
  th_sock :: int
  th_session :: session
  th_wire :: "u8 list"
  th_end :: turn_end

record hub =
  hub_pool :: pool
  hub_engine :: engine
  hub_server :: server
  hub_threads :: "session_thread list"

datatype hub_event =
    H_accept int
  | H_turn nat "nat \<Rightarrow> nat \<Rightarrow> u64" turn
  | H_stop

definition hub_gateway :: "hub \<Rightarrow> session \<Rightarrow> gateway" where
  "hub_gateway h s = \<lparr>g_pool = hub_pool h, g_engine = hub_engine h, g_session = s\<rparr>"

fun hub_exec :: "hub_event \<Rightarrow> hub \<Rightarrow> hub option" where
  "hub_exec (H_accept s) h =
     (let (started, sv) = accept_turn s (hub_server h) in
      Some (h\<lparr>hub_server := sv, hub_threads := hub_threads h @
        (if started then [\<lparr>th_sock = s, th_session = new_session (sv_next_id (hub_server h)), th_wire = [], th_end = Goes_on\<rparr>]
         else [])\<rparr>))"
| "hub_exec (H_turn k clks t) h = do {
     th \<leftarrow> deref (hub_threads h) k;
     (wire, g, r) \<leftarrow> session_turn clks t (hub_gateway h (th_session th));
     Some (h\<lparr>hub_pool := g_pool g, hub_engine := g_engine g,
       hub_threads := (hub_threads h)[k := th\<lparr>th_session := g_session g, th_wire := th_wire th @ wire, th_end := r\<rparr>],
       hub_server := (if r = Leaves then session_end (th_sock th) (hub_server h) else hub_server h)\<rparr>)
   }"
| "hub_exec H_stop h = Some (h\<lparr>hub_server := server_stop (hub_server h)\<rparr>)"

text \<open>
  A turn is taken by a thread whose loop goes on; it sees the flag of the server, and its calls of
  \<open>send\<close> keep the promise of the operating system.
\<close>

fun hub_ready :: "hub_event \<Rightarrow> hub \<Rightarrow> bool" where
  "hub_ready (H_turn k clks t) h \<longleftrightarrow> k < length (hub_threads h) \<and> th_end (hub_threads h ! k) = Goes_on \<and>
     t_running t = sv_running (hub_server h)"
| "hub_ready _ h = True"

fun event_sound :: "hub_event \<Rightarrow> bool" where
  "event_sound (H_turn k clks t) = send_sound (t_send t)"
| "event_sound _ = True"

definition hub_allowed :: "hub_event \<Rightarrow> hub \<Rightarrow> bool" where
  "hub_allowed a h \<longleftrightarrow> hub_ready a h \<and> event_sound a"

lemma hub_admissible: "admissible hub_exec hub_ready evs h \<Longrightarrow> list_all event_sound evs \<Longrightarrow> admissible hub_exec hub_allowed evs h"
  by (induction evs arbitrary: h) (auto simp: hub_allowed_def split: option.splits)

definition hub_start :: "sys \<Rightarrow> server \<Rightarrow> hub" where
  "hub_start s sv = \<lparr>hub_pool = s_pool s, hub_engine = s_engine s, hub_server = sv, hub_threads = []\<rparr>"

section \<open>The invariant\<close>

definition thread_ok :: "session_thread \<Rightarrow> bool" where
  "thread_ok th \<longleftrightarrow> outbound (th_session th) = [] \<and>
     (\<exists>rs rest. th_wire th @ rest = stream_bytes (numbered 0 rs) \<and>
        (th_end th = Goes_on \<longrightarrow> rest = [] \<and> out_seq (th_session th) = of_nat (length rs)))"

definition hub_ok :: "nat \<Rightarrow> hub \<Rightarrow> bool" where
  "hub_ok n h \<longleftrightarrow> (\<exists>held. \<forall>s. gw_ok (hub_gateway h s) held \<and> gw_slots (hub_gateway h s) held = {..<n}) \<and>
     (\<forall>th \<in> set (hub_threads h). thread_ok th)"

lemma new_thread_ok: "thread_ok \<lparr>th_sock = s, th_session = new_session i, th_wire = [], th_end = Goes_on\<rparr>"
  by (auto simp: thread_ok_def new_session_def stream_bytes_def intro!: exI [of _ "[]"])

lemma turn_thread_ok:
  assumes th: "thread_ok th" "th_end th = Goes_on" and t: "turn_ok g held wire g' r" and g: "g_session g = th_session th"
  shows "thread_ok (th\<lparr>th_session := g_session g', th_wire := th_wire th @ wire, th_end := r\<rparr>)"
proof -
  obtain rs where rs: "th_wire th = stream_bytes (numbered 0 rs)" "out_seq (th_session th) = of_nat (length rs)"
    using th by (auto simp: thread_ok_def)
  obtain rs' rest where r: "wire @ rest = stream_bytes (numbered (of_nat (length rs)) rs')"
      "r = Goes_on \<longrightarrow> rest = [] \<and> out_seq (g_session g') = of_nat (length rs) + of_nat (length rs')"
    using t g rs(2) unfolding turn_ok_def by metis
  have "(th_wire th @ wire) @ rest = stream_bytes (numbered 0 (rs @ rs'))"
    using rs(1) r(1) by (simp add: stream_bytes_prefix)
  then show ?thesis using t r(2) by (auto simp: thread_ok_def turn_ok_def intro!: exI [of _ "rs @ rs'"] exI [of _ rest])
qed

lemma turn_hub_ok:
  assumes ok: "hub_ok n h" and al: "hub_allowed (H_turn k clks t) h"
  shows "\<exists>h'. hub_exec (H_turn k clks t) h = Some h' \<and> hub_ok n h'"
proof -
  let ?th = "hub_threads h ! k"
  let ?g = "hub_gateway h (th_session ?th)"
  have k: "k < length (hub_threads h)" "th_end ?th = Goes_on" "send_sound (t_send t)" using al by (auto simp: hub_allowed_def)
  have th: "thread_ok ?th" using ok k(1) by (simp add: hub_ok_def)
  obtain held where g: "gw_ok ?g held" "gw_slots ?g held = {..<n}" using ok by (auto simp: hub_ok_def)
  have ob: "outbound (g_session ?g) = []" using th by (simp add: hub_gateway_def thread_ok_def)
  obtain wire g' r where t: "session_turn clks t ?g = Some (wire, g', r)" "turn_ok ?g held wire g' r"
    using session_turn_ok [OF g(1) ob k(3)] by blast
  obtain held' where g': "gw_ok g' held'" "gw_slots g' held' = {..<n}" using t(2) g(2) by (auto simp: turn_ok_def)
  let ?th' = "?th\<lparr>th_session := g_session g', th_wire := th_wire ?th @ wire, th_end := r\<rparr>"
  have "thread_ok ?th'" by (rule turn_thread_ok [OF th k(2) t(2)]) (simp add: hub_gateway_def)
  then have "\<forall>x \<in> set ((hub_threads h)[k := ?th']). thread_ok x"
    using ok set_update_subset_insert [of "hub_threads h" k ?th'] by (auto simp: hub_ok_def)
  then show ?thesis
    using t(1) k(1) g' by (auto simp: hub_ok_def hub_gateway_def gw_ok_def gw_slots_def gw_sys_def intro!: exI [of _ held'])
qed

lemma hub_exec_ok: "hub_ok n h \<Longrightarrow> hub_allowed a h \<Longrightarrow> \<exists>h'. hub_exec a h = Some h' \<and> hub_ok n h'"
proof (cases a)
  case (H_accept s)
  then show "hub_ok n h \<Longrightarrow> ?thesis"
    using new_thread_ok by (auto simp: hub_ok_def hub_gateway_def split: prod.splits)
next
  case (H_turn k clks t)
  then show "hub_ok n h \<Longrightarrow> hub_allowed a h \<Longrightarrow> ?thesis" using turn_hub_ok by blast
next
  case H_stop
  then show "hub_ok n h \<Longrightarrow> ?thesis" by (auto simp: hub_ok_def hub_gateway_def)
qed

interpretation sessions: op_system hub_exec hub_allowed "hub_ok n" for n
  by unfold_locales (rule hub_exec_ok)

text \<open>
  C35. Clients cannot bring the server down. Take a new pool, a new engine and a server, and let any
  number of clients connect, send whatever bytes in whatever chunks, and take turns in any order,
  with sends that succeed, fail or block, and with \<open>stop\<close> at any moment. No turn runs into undefined
  behaviour; afterwards pool and books are sound, every slot is accounted for, and what each client
  was sent is the beginning of a sequence of whole messages numbered 1, 2, and so on, of its own.
\<close>

theorem server_sessions_safe:
  assumes "sys_init n r filt = Some s" and "admissible hub_exec hub_allowed evs (hub_start s sv)"
  shows "\<exists>h held. run hub_exec evs (hub_start s sv) = Some h \<and>
    sys_ok \<lparr>s_pool = hub_pool h, s_engine = hub_engine h, s_held = held\<rparr> \<and>
    set (free_list (hub_pool h)) \<union> held \<union> resting (hub_pool h) (hub_engine h) = {..<n} \<and>
    list_all (\<lambda>th. \<exists>rs rest. th_wire th @ rest = stream_bytes (numbered 0 rs)) (hub_threads h)"
proof -
  have c: "sys_complete n s" by (rule sys_init_ok(2) [OF assms(1)])
  have h: "s_held s = {}"
    using assms(1) by (cases "engine_new r filt") (auto simp: sys_init_def exec_simps)
  then have "gw_sys (hub_gateway (hub_start s sv) x) {} = s" for x by (simp add: gw_sys_def hub_gateway_def hub_start_def)
  then have "hub_ok n (hub_start s sv)"
    using c h by (auto simp: hub_ok_def gw_ok_def gw_slots_def sys_complete_def hub_start_def hub_gateway_def
        sys_free_def sys_resting_def intro!: exI [of _ "{}"])
  from sessions.run_inv [OF this assms(2)] obtain h where r: "run hub_exec evs (hub_start s sv) = Some h" "hub_ok n h" by blast
  obtain held where g: "gw_ok (hub_gateway h x) held" "gw_slots (hub_gateway h x) held = {..<n}" for x
    using r(2) by (auto simp: hub_ok_def)
  have "list_all (\<lambda>th. \<exists>rs rest. th_wire th @ rest = stream_bytes (numbered 0 rs)) (hub_threads h)"
    using r(2) unfolding list_all_iff hub_ok_def thread_ok_def by blast
  then show ?thesis
    using r(1) g by (auto simp: gw_ok_def gw_sys_def gw_slots_def hub_gateway_def)
qed

text \<open>Two clients on one server; the first sends a logon in two pieces, with a turn of the other between them.\<close>

definition demo_hub_events :: "hub_event list" where
  "demo_hub_events = (let turn = (\<lambda>k bs. H_turn k (\<lambda>_ _. 0) \<lparr>t_running = True, t_recv = Some bs, t_send = [int]\<rparr>) in
     [H_accept 4, H_accept 5, turn 0 [1, 1, 4, 0, 1, 0], turn 1 [1, 3, 0, 0, 1, 0, 0, 0], turn 0 [0, 0, 7, 0, 0, 0], H_stop])"

theorem server_sessions_safe_witness:
  "\<exists>h held. run hub_exec demo_hub_events (hub_start demo_sys demo_server) = Some h \<and>
    sys_ok \<lparr>s_pool = hub_pool h, s_engine = hub_engine h, s_held = held\<rparr>"
proof -
  have "admissible hub_exec hub_ready demo_hub_events (hub_start demo_sys demo_server)" by code_simp
  moreover have "list_all event_sound demo_hub_events" by (simp add: demo_hub_events_def send_sound_def)
  ultimately have "admissible hub_exec hub_allowed demo_hub_events (hub_start demo_sys demo_server)" by (rule hub_admissible)
  from server_sessions_safe [OF demo_init this] show ?thesis by blast
qed

end
