(* ===== verification/Engine_Books.thy ===== *)
theory Engine_Books
  imports Engine_Safety
begin

text \<open>
  What is in the books of an engine in every state it can reach: no book is crossed, and every
  resting order is of a kind that may rest there. These are the invariants the property tests of
  the repository check on a single book, for all books and all sequences of operations.
\<close>

section \<open>Orders that may rest\<close>

definition may_rest :: "u32 \<Rightarrow> order \<Rightarrow> bool" where
  "may_rest i x \<longleftrightarrow> order_instrument x = i \<and> order_type x \<noteq> Market \<and> tif x \<noteq> IOC \<and> tif x \<noteq> FOK \<and>
     (order_type x = Limit \<longrightarrow> 0 < limit_price x) \<and> (status x = New \<or> status x = PartiallyFilled)"

definition book_typed :: "u32 \<Rightarrow> heap \<Rightarrow> order_book \<Rightarrow> bool" where
  "book_typed i h b \<longleftrightarrow> uncrossed b \<and>
     list_all (\<lambda>s. list_all (\<lambda>x. may_rest i x \<and> filled_qty x < initial_qty x) (book_view h b s)) [Buy, Sell]"

lemma book_typed_iff:
  "book_typed i h b \<longleftrightarrow> uncrossed b \<and>
     (\<forall>x \<in> set (book_view h b s) \<union> set (book_view h b (opposite s)). may_rest i x \<and> filled_qty x < initial_qty x)"
proof (cases "s = Buy")
  case False
  then have "book_view h b s = book_view h b Sell" by (simp add: book_view_def)
  then show ?thesis using False by (auto simp: book_typed_def list_all_iff)
qed (auto simp: book_typed_def list_all_iff)

lemma match_ref_may_rest:
  assumes "match_ref t xs = (t', trs, xs')" and "\<forall>x \<in> set xs. may_rest i x"
  shows "\<forall>x \<in> set xs'. may_rest i x"
proof -
  obtain n where "xs' = drop n xs \<or> (\<exists>q. n < length xs \<and>
      xs' = (fill_order q (xs ! n))\<lparr>status := PartiallyFilled\<rparr> # drop (Suc n) xs)"
    using match_ref_priority [OF assms(1)] by blast
  moreover have "may_rest i ((fill_order q x)\<lparr>status := PartiallyFilled\<rparr>)" if "may_rest i x" for q x
    using that by (simp add: may_rest_def)
  ultimately show ?thesis
    using assms(2) set_drop_subset [of n xs] set_drop_subset [of "Suc n" xs]
    by (elim disjE exE conjE; simp; blast)
qed

lemma spec_may_rest:
  assumes spec: "submit_spec clk i t own opp = (t', trs, own', opp')"
    and ty: "\<forall>x \<in> set own \<union> set opp. may_rest i x"
  shows "\<forall>x \<in> set own' \<union> set opp'. may_rest i x"
  using spec
proof (cases rule: submit_spec_cases)
  case reject
  then show ?thesis using ty by simp
next
  case (accept t1)
  note tb = match_ref_taker_bound [OF accept(2)]
  have ti: "order_instrument t1 = order_instrument t" using match_ref_taker [OF accept(2)] by auto
  have "may_rest i t'" if "rests t1"
  proof -
    have nf: "\<not> is_fully_filled t1" "order_type t1 \<noteq> Market" "tif t1 \<noteq> IOC" using that by (auto simp: rests_def)
    moreover have "tif t1 \<noteq> FOK"
      using accept(1) match_ref_fills_iff [OF accept(2)] nf(1) tb(7) by (auto simp: spec_rejects_def remaining_0_iff)
    ultimately show ?thesis
      using accept(1,3) tb ti by (auto simp: may_rest_def settle_status_def spec_rejects_def submit_rejects_def)
  qed
  then show ?thesis using ty match_ref_may_rest [OF accept(2)] accept(4) by auto
qed

lemma submit_post_typed:
  assumes pre: "match_pre pl b p" and ty: "book_typed (book_instrument b) (storage pl) b"
    and t: "filled_qty (storage pl ! p) \<le> initial_qty (storage pl ! p)"
    and post: "submit_post clk pl b p pl' b' trs n"
  shows "book_typed (book_instrument b) (storage pl') b'"
  using ty submit_post_uncrossed [OF pre _ post] spec_may_rest [OF submit_post_spec [OF post]]
    spec_live [OF submit_post_spec [OF post]] t
  by (simp add: book_typed_iff [of _ _ _ "side (storage pl ! p)"])

lemma cancel_post_typed:
  assumes ok: "book_ok (storage pl) b" and ty: "book_typed i (storage pl) b" and post: "cancel_post pl b k p pl' b'"
  shows "book_typed i (storage pl') b'"
  using ty cancel_post_uncrossed [OF ok post] cancel_post_views [OF ok post, of Buy] cancel_post_views [OF ok post, of Sell]
  by (auto simp: book_typed_def list_all_iff)

section \<open>All books of an engine\<close>

definition books_typed :: "pool \<Rightarrow> engine \<Rightarrow> bool" where
  "books_typed pl e \<longleftrightarrow> (\<forall>i m. um_find (matchers e) i = Some m \<longrightarrow> book_typed i (storage pl) (m_book m))"

text \<open>Only the books of \<open>I\<close> change, within a set of slots that meets no other book.\<close>

lemma books_typed_update:
  assumes ok: "engine_ok pl e" and ty: "books_typed pl e"
    and so: "same_outside S (storage pl) (storage pl')" and po: "pool_ok pl'" and fr: "set (free_list pl') \<subseteq> set (free_list pl) \<union> S"
    and other: "\<And>j m. j \<notin> I \<Longrightarrow> um_find (matchers e') j = Some m \<Longrightarrow>
      um_find (matchers e) j = Some m \<and> book_ptrs (storage pl) (m_book m) \<inter> S = {}"
    and own: "\<And>j m. j \<in> I \<Longrightarrow> um_find (matchers e') j = Some m \<Longrightarrow> book_typed j (storage pl') (m_book m)"
  shows "books_typed pl' e'"
  unfolding books_typed_def
proof (intro allI impI)
  fix j m assume m: "um_find (matchers e') j = Some m"
  show "book_typed j (storage pl') (m_book m)"
  proof (cases "j \<in> I")
    case False
    note o = other [OF False m]
    have "book_view (storage pl') (m_book m) s = book_view (storage pl) (m_book m) s" for s
      using matcher_frame(3) [OF engine_ok_matcher(1) [OF ok] so _ po fr] o by blast
    then show ?thesis using ty o by (auto simp: books_typed_def book_typed_def)
  qed (use own m in blast)
qed

lemma submit_books_typed:
  assumes ok: "engine_ok pl e" and p: "p < length (storage pl)" "p \<notin> resting pl e" "p \<notin> set (free_list pl)"
    and ty: "books_typed pl e" and t: "filled_qty (storage pl ! p) \<le> initial_qty (storage pl ! p)"
    and r: "engine_submit clk pl e p = Some (pl', e', trs)"
  shows "books_typed pl' e'"
  using ok p
proof (cases rule: engine_submit_cases [of _ _ _ clk])
  case unknown
  then have pl': "pl' = pl\<lparr>storage := (storage pl)[p := (storage pl ! p)\<lparr>status := Rejected\<rparr>]\<rparr>" "e' = e" using r by simp_all
  show ?thesis
    by (rule books_typed_update [OF ok ty, where S = "{p}" and I = "{}"])
      (use ok p(2) engine_ok_matcher(3) [OF ok] in \<open>auto simp: pl' same_outside_update engine_ok_def pool_ok_storage\<close>)
next
  case (known m q m' ts' n)
  let ?i = "order_instrument (storage pl ! p)"
  have e': "q = pl'" "e' = e\<lparr>matchers := um_assign ?i m' (matchers e)\<rparr>" using r known(4) by simp_all
  have i: "book_instrument (m_book m) = ?i" by (rule engine_ok_matcher(2) [OF ok known(1)])
  have "book_typed ?i (storage pl') (m_book m')"
    using submit_post_typed [OF known(2) _ t known(3)] ty known(1) by (simp add: i e'(1) books_typed_def)
  then show ?thesis
    by (intro books_typed_update [OF ok ty known(5-7) [unfolded e'(1)], where I = "{?i}"])
      (use known(1,8) in \<open>auto simp: e'(2) um_find_assign\<close>)
qed

lemma cancel_books_typed:
  assumes ok: "engine_ok pl e" and ty: "books_typed pl e" and r: "engine_cancel pl e j i = Some (found, pl', e')"
  shows "books_typed pl' e'"
  using ok
proof (cases rule: engine_cancel_cases [of _ _ j i])
  case (hit m p q m')
  have e': "q = pl'" "e' = e\<lparr>matchers := um_assign j m' (matchers e)\<rparr>" using r hit(3) by simp_all
  have "book_ok (storage pl) (m_book m)" using engine_ok_matcher(1) [OF ok hit(1)] by (simp add: matcher_ok_def)
  then have "book_typed j (storage pl') (m_book m')"
    using cancel_post_typed [OF _ _ hit(2)] ty hit(1) by (simp add: e'(1) books_typed_def)
  then show ?thesis
    by (intro books_typed_update [OF ok ty hit(4-6) [unfolded e'(1)], where I = "{j}"])
      (use hit(1,7) in \<open>auto simp: e'(2) um_find_assign\<close>)
qed (use r ty in simp)

lemma expire_books_typed:
  assumes ok: "engine_ok pl e" and ty: "books_typed pl e" and r: "expire_instrument pl e i = Some (found, pl', e')"
  shows "books_typed pl' e'"
  using ok
proof (cases rule: engine_expire_cases [of _ _ i])
  case (close m q hs)
  have e': "q = pl'" "e' = e\<lparr>book_slots := um_erase i (book_slots e), matchers := um_erase i (matchers e)\<rparr>"
    using r close(2) by simp_all
  have "set (free_list pl') \<subseteq> set (free_list pl) \<union> set hs" using close(4) by (simp add: e'(1))
  then show ?thesis
    by (intro books_typed_update [OF ok ty close(6,3) [unfolded e'(1)], where I = "{}"])
      (use close(1,5) ok in \<open>fastforce simp: e'(2) um_find_erase engine_ok_def split: if_splits\<close>)+
qed (use r ty in simp)

text \<open>A write to a slot outside all books.\<close>

lemma write_books_typed:
  assumes ok: "engine_ok pl e" and ty: "books_typed pl e" and p: "p \<notin> resting pl e" and st: "storage pl' = (storage pl)[p := x]"
  shows "books_typed pl' e"
proof -
  have "books_typed (pl\<lparr>storage := (storage pl)[p := x]\<rparr>) e"
    by (rule books_typed_update [OF ok ty, where S = "{p}" and I = "{}"])
      (use ok p engine_ok_matcher(3) [OF ok] in \<open>auto simp: same_outside_update engine_ok_def pool_ok_storage\<close>)
  then show ?thesis by (simp add: books_typed_def st)
qed

section \<open>All reachable states\<close>

text \<open>
  The contract of the callers, and one more clause: an order that is submitted is not filled beyond
  its quantity. A new order has filled quantity 0, and the engine never fills an order beyond its quantity.
\<close>

definition submits_sane :: "sys_op \<Rightarrow> sys \<Rightarrow> bool" where
  "submits_sane a s \<longleftrightarrow> sys_allowed a s \<and>
     (case a of Submit clk p \<Rightarrow> filled_qty (storage (s_pool s) ! p) \<le> initial_qty (storage (s_pool s) ! p) | _ \<Rightarrow> True)"

definition sys_typed :: "sys \<Rightarrow> bool" where
  "sys_typed s \<longleftrightarrow> sys_ok s \<and> books_typed (s_pool s) (s_engine s)"

lemma sys_exec_typed:
  assumes ty: "sys_typed s" and al: "submits_sane a s"
  shows "\<exists>s'. sys_exec a s = Some s' \<and> sys_typed s'"
proof -
  let ?pl = "s_pool s" and ?e = "s_engine s"
  have ok: "sys_ok s" and eo: "engine_ok ?pl ?e" "pool_ok ?pl" and bt: "books_typed ?pl ?e"
    using ty by (auto simp: sys_typed_def sys_ok_def engine_ok_def)
  obtain s' where s': "sys_exec a s = Some s'" "sys_ok s'"
    using sys_exec_ok [OF ok] al by (auto simp: submits_sane_def)
  have held: "p < length (storage ?pl)" "p \<notin> resting ?pl ?e" "p \<notin> set (free_list ?pl)" if "p \<in> s_held s" for p
    using ok that by (auto simp: sys_defs)
  have "books_typed (s_pool s') (s_engine s')"
  proof (cases a)
    case Acquire
    show ?thesis
    proof (cases "free_list ?pl = []")
      case True
      then show ?thesis using s'(1) Acquire bt pool_acquire_none [OF eo(2)] by (simp add: acquire_order_def)
    next
      case False
      obtain pl' where a: "pool_acquire ?pl = Some (Some (last (free_list ?pl)), pl')"
          "storage pl' = (storage ?pl)[last (free_list ?pl) := order_default]"
        by (rule pool_acquire_some [OF eo(2) False])
      have "last (free_list ?pl) \<notin> resting ?pl ?e" using resting_free [OF eo(1)] last_in_set [OF False] by blast
      then show ?thesis using s'(1) Acquire a(1) write_books_typed [OF eo(1) bt _ a(2)] by (auto simp: acquire_order_def)
    qed
  next
    case (Write p x)
    then have "p \<in> s_held s" using al by (simp add: submits_sane_def)
    then show ?thesis
      using s'(1) Write held write_books_typed [OF eo(1) bt, of p "?pl\<lparr>storage := (storage ?pl)[p := x]\<rparr>" x] by auto
  next
    case (Submit clk p)
    then have p: "p \<in> s_held s" "filled_qty (storage ?pl ! p) \<le> initial_qty (storage ?pl ! p)"
      using al by (simp_all add: submits_sane_def)
    then show ?thesis using s'(1) Submit submit_books_typed [OF eo(1) held [OF p(1)] bt p(2)] by (auto simp: exec_simps)
  next
    case (Cancel j i)
    then show ?thesis using s'(1) cancel_books_typed [OF eo(1) bt] by (auto simp: exec_simps)
  next
    case (Expire i)
    then show ?thesis using s'(1) expire_books_typed [OF eo(1) bt] by (auto simp: exec_simps)
  next
    case (Release p)
    then show ?thesis using s'(1) bt by (auto simp: release_order_def pool_release_def exec_simps books_typed_def)
  qed
  then show ?thesis using s' by (auto simp: sys_typed_def)
qed

interpretation typed: op_system sys_exec submits_sane sys_typed
  by unfold_locales (rule sys_exec_typed)

lemma open_books_typed: "books_typed pl (open_books filt sps \<lparr>matchers = [], book_slots = []\<rparr>)"
proof -
  have "book_typed i h (new_book i)" for i h
    by (simp add: book_typed_def uncrossed_def best_bid_def best_ask_def book_view_def new_book_def side_view_def bid_queue_def ask_queue_def)
  moreover have "m = new_matcher i" if "um_find (matchers (open_books filt sps \<lparr>matchers = [], book_slots = []\<rparr>)) i = Some m" for i m
    using that by (simp add: open_books_find split: if_splits)
  ultimately show ?thesis by (fastforce simp: books_typed_def new_matcher_def)
qed

text \<open>
  C27. Every book is well formed at all times. Start from a new pool and a new engine and let callers
  that respect ownership, and submit no order that claims to be filled beyond its quantity, run any
  sequence of operations. All of it is defined, and afterwards in every book the best bid is below
  the best ask, and every resting order belongs to the instrument of the book, has something left to
  trade and has not been filled beyond its quantity, is new or partly filled, is neither a market order
  nor immediate-or-cancel nor fill-or-kill, and has a positive price if it is a limit order.
\<close>

theorem engine_books_well_formed:
  assumes "sys_init n r filt = Some s" and "admissible sys_exec submits_sane ops s"
  shows "\<exists>s'. run sys_exec ops s = Some s' \<and>
    (\<forall>i m. um_find (matchers (s_engine s')) i = Some m \<longrightarrow> book_typed i (storage (s_pool s')) (m_book m))"
proof -
  have "books_typed (s_pool s) (s_engine s)"
    using assms(1) open_books_typed by (auto simp: sys_init_def exec_simps engine_new_def split: if_splits)
  then have "sys_typed s" using sys_init_ok(1) [OF assms(1)] by (simp add: sys_typed_def)
  from typed.run_inv [OF this assms(2)] show ?thesis by (auto simp: sys_typed_def books_typed_def)
qed

theorem engine_books_well_formed_witness:
  "\<exists>s'. run sys_exec (take 6 demo_ops) demo_sys = Some s' \<and>
    (\<forall>m. um_find (matchers (s_engine s')) 1 = Some m \<longrightarrow> book_typed 1 (storage (s_pool s')) (m_book m))"
proof -
  have "admissible sys_exec submits_sane (take 6 demo_ops) demo_sys" by code_simp
  from engine_books_well_formed [OF demo_init this] show ?thesis by blast
qed

end
