(* ===== verification/Sweeper.thy ===== *)
theory Sweeper
  imports Contract Containers
begin

text \<open>
  \<open>include/ordbk/matching/sweeper.hpp\<close> and \<open>src/matching/sweeper.cpp\<close>: the instruments by expiry date,
  and the sweep that removes and reports the expired ones. The callback acts on an environment
  of its own, of type \<open>'e\<close>.
\<close>

record 'e sweeper =
  by_expiry :: "(expiry_date \<times> u32) list"
  id_to_expiry :: "(u32 \<times> expiry_date) list"
  callback :: "(u32 \<Rightarrow> 'e \<Rightarrow> 'e) option"

definition new_sweeper :: "'e sweeper" where
  "new_sweeper = \<lparr>by_expiry = [], id_to_expiry = [], callback = None\<rparr>"

definition set_callback :: "(u32 \<Rightarrow> 'e \<Rightarrow> 'e) \<Rightarrow> 'e sweeper \<Rightarrow> 'e sweeper" where
  "set_callback cb sw = sw\<lparr>callback := Some cb\<rparr>"

section \<open>Operations\<close>

text \<open>\<open>emplace\<close> of a multimap: behind all elements with an equal key.\<close>

fun mm_emplace :: "'k :: linorder \<Rightarrow> 'v \<Rightarrow> ('k \<times> 'v) list \<Rightarrow> ('k \<times> 'v) list" where
  "mm_emplace k v [] = [(k, v)]"
| "mm_emplace k v ((k', v') # m) = (if k < k' then (k, v) # (k', v') # m else (k', v') # mm_emplace k v m)"

definition register_instrument :: "u32 \<Rightarrow> expiry_date \<Rightarrow> 'e sweeper \<Rightarrow> 'e sweeper" where
  "register_instrument i d sw = sw\<lparr>id_to_expiry := um_emplace i d (id_to_expiry sw),
     by_expiry := mm_emplace d i (by_expiry sw)\<rparr>"

text \<open>The loop over \<open>equal_range\<close>: the first element with the id is erased.\<close>

fun erase_in_range :: "u32 \<Rightarrow> (expiry_date \<times> u32) list \<Rightarrow> (expiry_date \<times> u32) list" where
  "erase_in_range i [] = []"
| "erase_in_range i (r # rs) = (if snd r = i then rs else r # erase_in_range i rs)"

definition erase_entry :: "expiry_date \<Rightarrow> u32 \<Rightarrow> (expiry_date \<times> u32) list \<Rightarrow> (expiry_date \<times> u32) list" where
  "erase_entry d i m =
     (let below = takeWhile (\<lambda>r. fst r < d) m;
          from = dropWhile (\<lambda>r. fst r < d) m;
          range = takeWhile (\<lambda>r. \<not> d < fst r) from;
          above = dropWhile (\<lambda>r. \<not> d < fst r) from in
      below @ erase_in_range i range @ above)"

definition unregister :: "u32 \<Rightarrow> 'e sweeper \<Rightarrow> 'e sweeper" where
  "unregister i sw =
     (case um_find (id_to_expiry sw) i of
        None \<Rightarrow> sw
      | Some d \<Rightarrow> sw\<lparr>by_expiry := erase_entry d i (by_expiry sw),
          id_to_expiry := um_erase i (id_to_expiry sw)\<rparr>)"

fun sweep_loop ::
  "expiry_date \<Rightarrow> (expiry_date \<times> u32) list \<Rightarrow> (u32 \<times> expiry_date) list \<Rightarrow> u32 list \<Rightarrow>
   u32 list \<times> (expiry_date \<times> u32) list \<times> (u32 \<times> expiry_date) list" where
  "sweep_loop today [] ids expired = (expired, [], ids)"
| "sweep_loop today ((d, i) # m) ids expired =
     (if today < d then (expired, (d, i) # m, ids)
      else sweep_loop today m (um_erase i ids) (expired @ [i]))"

definition sweep :: "expiry_date \<Rightarrow> 'e sweeper \<Rightarrow> 'e \<Rightarrow> u32 list \<times> 'e sweeper \<times> 'e" where
  "sweep today sw env =
     (case sweep_loop today (by_expiry sw) (id_to_expiry sw) [] of (expired, m, ids) \<Rightarrow>
        (expired, sw\<lparr>by_expiry := m, id_to_expiry := ids\<rparr>,
         case callback sw of None \<Rightarrow> env | Some cb \<Rightarrow> fold cb expired env))"

definition sweeper_size :: "'e sweeper \<Rightarrow> nat" where
  "sweeper_size sw = length (id_to_expiry sw)"

section \<open>The invariant\<close>

text \<open>
  The multimap is sorted, and both maps hold the same pairs. It holds as long as no id is
  registered twice.
\<close>

definition sweeper_ok :: "'e sweeper \<Rightarrow> bool" where
  "sweeper_ok sw \<longleftrightarrow> sorted (map fst (by_expiry sw)) \<and> um_ok (id_to_expiry sw) \<and>
     distinct (map snd (by_expiry sw)) \<and>
     (\<forall>d i. (d, i) \<in> set (by_expiry sw) \<longleftrightarrow> um_find (id_to_expiry sw) i = Some d)"

lemma new_sweeper_ok [simp]: "sweeper_ok new_sweeper"
  by (simp add: sweeper_ok_def new_sweeper_def)

lemma mm_emplace_split:
  "\<exists>xs ys. m = xs @ ys \<and> mm_emplace k v m = xs @ (k, v) # ys \<and>
     (\<forall>e \<in> set xs. fst e \<le> k) \<and> (ys \<noteq> [] \<longrightarrow> k < fst (hd ys))"
proof (induction m)
  case (Cons e m)
  obtain k' v' where e: "e = (k', v')" by (cases e)
  show ?case
  proof (cases "k < k'")
    case True
    then show ?thesis using e by (intro exI [of _ "[]"] exI [of _ "e # m"]) simp
  next
    case False
    obtain xs ys where "m = xs @ ys" "mm_emplace k v m = xs @ (k, v) # ys"
        "\<forall>e \<in> set xs. fst e \<le> k" "ys \<noteq> [] \<longrightarrow> k < fst (hd ys)"
      using Cons.IH by blast
    then show ?thesis using e False by (intro exI [of _ "e # xs"] exI [of _ ys]) auto
  qed
qed simp

lemma set_mm_emplace [simp]: "set (mm_emplace k v m) = insert (k, v) (set m)"
  using mm_emplace_split [of m k v] by auto

lemma distinct_mm_emplace:
  "distinct (map snd (mm_emplace k v m)) \<longleftrightarrow> v \<notin> snd ` set m \<and> distinct (map snd m)"
  using mm_emplace_split [of m k v] by (elim exE conjE) (simp add: image_Un, blast)

lemma sorted_mm_emplace:
  assumes "sorted (map fst m)"
  shows "sorted (map fst (mm_emplace k v m))"
proof -
  obtain xs ys where s: "m = xs @ ys" "mm_emplace k v m = xs @ (k, v) # ys"
      "\<forall>e \<in> set xs. fst e \<le> k" "ys \<noteq> [] \<longrightarrow> k < fst (hd ys)"
    using mm_emplace_split [of m k v] by blast
  have "\<forall>e \<in> set ys. k \<le> fst e"
    using s(1,4) assms by (cases ys) (auto simp: sorted_append)
  then show ?thesis using s assms by (auto simp: sorted_append)
qed

lemma register_ok:
  assumes ok: "sweeper_ok sw" and new: "um_find (id_to_expiry sw) i = None"
  shows "sweeper_ok (register_instrument i d sw)"
proof -
  have "i \<notin> snd ` set (by_expiry sw)" using ok new by (auto simp: sweeper_ok_def)
  then show ?thesis
    using ok new by (auto simp: sweeper_ok_def register_instrument_def um_find_emplace sorted_mm_emplace distinct_mm_emplace)
qed

lemma erase_in_range_filter:
  "distinct (map snd rs) \<Longrightarrow> erase_in_range i rs = filter (\<lambda>r. snd r \<noteq> i) rs"
proof (induction rs)
  case (Cons r rs)
  have "filter (\<lambda>x. snd x \<noteq> snd r) rs = rs" using Cons.prems by (intro filter_True) (auto simp: image_iff)
  then show ?case using Cons by auto
qed simp

lemma takeWhile_sorted:
  "sorted (map fst xs) \<Longrightarrow> takeWhile (\<lambda>r. \<not> d < fst r) xs = filter (\<lambda>r. \<not> (d :: 'a :: linorder) < fst r) xs"
proof (induction xs)
  case (Cons x xs)
  show ?case
  proof (cases "d < fst x")
    case True
    then have "filter (\<lambda>r. \<not> d < fst r) xs = []" using Cons.prems by (intro filter_False) (auto dest: less_le_trans)
    then show ?thesis using True by simp
  next
    case False
    then show ?thesis using Cons by simp
  qed
qed simp

lemma erase_in_range_cases:
  "erase_in_range i rs = rs \<or> (\<exists>xs r ys. rs = xs @ r # ys \<and> snd r = i \<and> erase_in_range i rs = xs @ ys)"
proof (induction rs)
  case (Cons r rs)
  show ?case
  proof (cases "snd r = i")
    case True
    then have "r # rs = [] @ r # rs \<and> snd r = i \<and> erase_in_range i (r # rs) = [] @ rs" by simp
    then show ?thesis by blast
  next
    case False
    from Cons.IH show ?thesis
    proof (elim disjE exE conjE)
      fix xs q ys assume "rs = xs @ q # ys" "snd q = i" "erase_in_range i rs = xs @ ys"
      then have "r # rs = (r # xs) @ q # ys \<and> snd q = i \<and> erase_in_range i (r # rs) = (r # xs) @ ys"
        using False by simp
      then show ?thesis by blast
    qed (use False in simp)
  qed
qed simp

lemma sorted_after: "sorted (map fst m) \<Longrightarrow> r \<in> set (dropWhile (\<lambda>r. fst r < d) m) \<Longrightarrow> (d :: 'a :: linorder) \<le> fst r"
  by (induction m) (auto simp: not_less split: if_splits dest: order_trans)

text \<open>At most one entry goes, and it has the date and the id asked for.\<close>

lemma erase_entry_cases:
  assumes "sorted (map fst m)"
  shows "erase_entry d i m = m \<or> (\<exists>xs ys. m = xs @ (d, i) # ys \<and> erase_entry d i m = xs @ ys)"
proof -
  define below where "below = takeWhile (\<lambda>r. fst r < d) m"
  define after where "after = dropWhile (\<lambda>r. fst r < d) m"
  define range where "range = takeWhile (\<lambda>r. \<not> d < fst r) after"
  define above where "above = dropWhile (\<lambda>r. \<not> d < fst r) after"
  have m: "m = below @ range @ above" by (simp add: below_def after_def range_def above_def)
  have e: "erase_entry d i m = below @ erase_in_range i range @ above"
    by (simp add: erase_entry_def Let_def below_def after_def range_def above_def)
  have rd: "fst r = d" if "r \<in> set range" for r
  proof -
    have "\<not> d < fst r" "r \<in> set after" using that unfolding range_def by (auto dest: set_takeWhileD)
    then have "\<not> d < fst r" "d \<le> fst r" using sorted_after [OF assms, of r d] unfolding after_def by auto
    then show ?thesis by simp
  qed
  from erase_in_range_cases [of i range] show ?thesis
  proof (elim disjE exE conjE)
    fix xs r ys assume r: "range = xs @ r # ys" "snd r = i" "erase_in_range i range = xs @ ys"
    then have "r = (d, i)" using rd [of r] by (cases r) auto
    then have "m = (below @ xs) @ (d, i) # (ys @ above)" "erase_entry d i m = (below @ xs) @ (ys @ above)"
      using m e r by simp_all
    then show ?thesis by blast
  qed (use m e in simp)
qed

lemma erase_entry_filter:
  assumes srt: "sorted (map fst m)" and dist: "distinct (map snd m)" and mem: "(d, i) \<in> set m"
  shows "erase_entry d i m = filter (\<lambda>r. snd r \<noteq> i) m"
proof -
  define below where "below = takeWhile (\<lambda>r. fst r < d) m"
  define after where "after = dropWhile (\<lambda>r. fst r < d) m"
  define range where "range = takeWhile (\<lambda>r. \<not> d < fst r) after"
  define above where "above = dropWhile (\<lambda>r. \<not> d < fst r) after"
  have m: "m = below @ range @ above" by (simp add: below_def after_def range_def above_def)
  have only: "r = (d, i)" if "r \<in> set m" "snd r = i" for r
    using that mem dist by (metis distinct_map inj_on_eq_iff snd_conv)
  have "filter (\<lambda>r. snd r \<noteq> i) below = below"
  proof (rule filter_True, rule ballI)
    fix r assume r: "r \<in> set below"
    then have "fst r < d" unfolding below_def by (auto dest: set_takeWhileD)
    moreover have "r \<in> set m" using r m by auto
    ultimately show "snd r \<noteq> i" using only [of r] by (cases r) auto
  qed
  moreover have "erase_in_range i range @ above = filter (\<lambda>r. snd r \<noteq> i) (range @ above)"
  proof -
    have "(d, i) \<notin> set below" unfolding below_def by (auto dest: set_takeWhileD)
    then have "(d, i) \<in> set after" using mem by (metis Un_iff after_def below_def set_append takeWhile_dropWhile_id)
    moreover have "sorted (map fst after)"
    proof -
      have "m = below @ after" by (simp add: below_def after_def)
      then show ?thesis using srt by (simp add: sorted_append)
    qed
    ultimately have "(d, i) \<in> set range" unfolding range_def by (simp add: takeWhile_sorted)
    then have "i \<notin> snd ` set above" using dist m by force
    then have "filter (\<lambda>r. snd r \<noteq> i) above = above" by (intro filter_True) auto
    moreover have "distinct (map snd range)" using dist m by simp
    ultimately show ?thesis by (simp add: erase_in_range_filter)
  qed
  ultimately show ?thesis
    unfolding erase_entry_def Let_def below_def [symmetric] after_def [symmetric] range_def [symmetric] above_def [symmetric]
    using m by (metis filter_append)
qed

lemma unregister_ok:
  assumes ok: "sweeper_ok sw"
  shows "sweeper_ok (unregister i sw)"
    and "um_find (id_to_expiry (unregister i sw)) j = (if j = i then None else um_find (id_to_expiry sw) j)"
proof -
  show "um_find (id_to_expiry (unregister i sw)) j = (if j = i then None else um_find (id_to_expiry sw) j)"
    by (auto simp: unregister_def um_find_erase split: option.splits)
  show "sweeper_ok (unregister i sw)"
  proof (cases "um_find (id_to_expiry sw) i")
    case None
    then show ?thesis using ok by (simp add: unregister_def)
  next
    case (Some d)
    then have e: "erase_entry d i (by_expiry sw) = filter (\<lambda>r. snd r \<noteq> i) (by_expiry sw)"
      using ok by (intro erase_entry_filter) (auto simp: sweeper_ok_def)
    have "distinct (map snd (filter (\<lambda>r. snd r \<noteq> i) (by_expiry sw)))" "sorted (map fst (filter (\<lambda>r. snd r \<noteq> i) (by_expiry sw)))"
      using ok by (simp_all add: sweeper_ok_def distinct_map_filter sorted_filter)
    then show ?thesis
      using ok Some by (auto simp: sweeper_ok_def unregister_def e um_find_erase)
  qed
qed

section \<open>Sweeping\<close>

text \<open>The loop splits the multimap at the date.\<close>

lemma sweep_loop_split:
  "sorted (map fst m) \<Longrightarrow> sweep_loop today m ids acc =
     (acc @ map snd (filter (\<lambda>r. fst r \<le> today) m), filter (\<lambda>r. today < fst r) m,
      fold um_erase (map snd (filter (\<lambda>r. fst r \<le> today) m)) ids)"
proof (induction today m ids acc rule: sweep_loop.induct)
  case (2 today d i m ids acc)
  show ?case
  proof (cases "today < d")
    case True
    then have "\<forall>r \<in> set m. today < fst r" using "2.prems" by auto
    then have "filter (\<lambda>r. fst r \<le> today) m = []" "filter (\<lambda>r. today < fst r) m = m"
      by (auto intro!: filter_False filter_True)
    then show ?thesis using True by simp
  next
    case False
    then show ?thesis using 2 by simp
  qed
qed simp

text \<open>
  A sweep reports exactly the expired instruments. On a sound sweeper, \<open>sweep\<close> returns each
  instrument registered for the date or an earlier one, once, in chronological order, calls the
  callback on them in that order, and forgets them; all other registrations stay, and the sweeper
  stays sound.
\<close>

lemma sweep_facts:
  assumes ok: "sweeper_ok sw" and sw: "sweep today sw env = (expired, sw', env')"
  shows "sweeper_ok sw' \<and> distinct expired \<and>
    set expired = {i. \<exists>d. um_find (id_to_expiry sw) i = Some d \<and> d \<le> today} \<and>
    sorted (map (\<lambda>i. the (um_find (id_to_expiry sw) i)) expired) \<and>
    um_find (id_to_expiry sw') = (\<lambda>i. if i \<in> set expired then None else um_find (id_to_expiry sw) i) \<and>
    env' = (case callback sw of None \<Rightarrow> env | Some cb \<Rightarrow> fold cb expired env)"
proof -
  let ?old = "filter (\<lambda>r. fst r \<le> today) (by_expiry sw)" and ?new = "filter (\<lambda>r. today < fst r) (by_expiry sw)"
  have srt: "sorted (map fst (by_expiry sw))" and dist: "distinct (map snd (by_expiry sw))"
      and mem: "\<And>d i. (d, i) \<in> set (by_expiry sw) \<longleftrightarrow> um_find (id_to_expiry sw) i = Some d"
    using ok by (auto simp: sweeper_ok_def)
  have ex: "expired = map snd ?old" and bx: "by_expiry sw' = ?new"
      and ix: "id_to_expiry sw' = fold um_erase expired (id_to_expiry sw)"
      and env: "env' = (case callback sw of None \<Rightarrow> env | Some cb \<Rightarrow> fold cb expired env)"
    using sw by (auto simp: sweep_def sweep_loop_split [OF srt])
  have dd: "distinct expired" using dist by (simp add: ex distinct_map_filter)
  have se: "set expired = {i. \<exists>d. um_find (id_to_expiry sw) i = Some d \<and> d \<le> today}"
    using mem by (force simp: ex)
  have "map (\<lambda>i. the (um_find (id_to_expiry sw) i)) expired = map fst ?old"
    using mem by (auto simp: ex)
  then have so: "sorted (map (\<lambda>i. the (um_find (id_to_expiry sw) i)) expired)"
    using srt by (simp add: sorted_filter)
  have fi: "um_find (id_to_expiry sw') i = (if i \<in> set expired then None else um_find (id_to_expiry sw) i)" for i
    by (simp add: ix um_find_erase_all)
  have "um_ok (id_to_expiry sw')" using ok unfolding ix sweeper_ok_def by (simp add: um_ok_erase_all)
  moreover have "(d, i) \<in> set (by_expiry sw') \<longleftrightarrow> um_find (id_to_expiry sw') i = Some d" for d i
    unfolding fi bx using mem [of d i] se by (auto simp: not_le)
  ultimately have "sweeper_ok sw'"
    using srt dist by (simp add: sweeper_ok_def bx distinct_map_filter sorted_filter)
  then show ?thesis using dd se so fi env by (auto simp: fun_eq_iff)
qed

text \<open>
  C21. Registering an id twice breaks \<open>unregister\<close>. \<open>emplace\<close> keeps the first expiry of an id but the
  multimap gets both, so after registering an id for two different dates and unregistering it, a
  sweep at the second date still reports the id as expired.
\<close>

theorem double_registration_survives_unregister:
  assumes "um_find (id_to_expiry sw) i = None" and "d1 \<noteq> d2" and "sorted (map fst (by_expiry sw))"
  shows "i \<in> set (fst (sweep d2 (unregister i (register_instrument i d2 (register_instrument i d1 sw))) env))"
proof -
  let ?sw = "register_instrument i d2 (register_instrument i d1 sw)"
  have f: "um_find (id_to_expiry ?sw) i = Some d1" using assms(1) by (simp add: register_instrument_def um_find_emplace)
  have srt: "sorted (map fst (by_expiry ?sw))" using assms(3) by (simp add: register_instrument_def sorted_mm_emplace)
  have "(d2, i) \<in> set (by_expiry ?sw)" by (simp add: register_instrument_def)
  then have "(d2, i) \<in> set (erase_entry d1 i (by_expiry ?sw))"
    using erase_entry_cases [OF srt, of d1 i] assms(2) by auto
  moreover have "sorted (map fst (erase_entry d1 i (by_expiry ?sw)))"
    using erase_entry_cases [OF srt, of d1 i] srt by (auto simp: sorted_append)
  ultimately show ?thesis
    using f by (force simp: sweep_def unregister_def sweep_loop_split)
qed

theorem double_registration_survives_unregister_witness:
  "3 \<in> set (fst (sweep (ExpiryDate 2025 6 20) (unregister 3 (register_instrument 3 (ExpiryDate 2025 6 20)
     (register_instrument 3 (ExpiryDate 2025 3 21) new_sweeper))) ()))"
  by (rule double_registration_survives_unregister) (simp_all add: new_sweeper_def)

end
