(* ===== verification/Expiry.thy ===== *)
theory Expiry
  imports Engine_Safety Sweeper
begin

text \<open>
  The sweeper and the engine together, as \<open>include/ordbk/matching/sweeper.hpp\<close> describes their use: each
  instrument that \<open>sweep\<close> reports is closed with \<open>Engine::expire_instrument\<close>, here by the callback. The
  environment of the callback is the engine with its pool; \<open>None\<close> is undefined behaviour in the engine.
\<close>

definition expire_callback :: "u32 \<Rightarrow> (pool \<times> engine) option \<Rightarrow> (pool \<times> engine) option" where
  "expire_callback i env = do {
     (pl, e) \<leftarrow> env;
     (found, pl', e') \<leftarrow> expire_instrument pl e i;
     Some (pl', e')
   }"

text \<open>What expiry leaves of an engine: the books of the others, as they were.\<close>

definition closes_only :: "u32 set \<Rightarrow> pool \<Rightarrow> engine \<Rightarrow> pool \<Rightarrow> engine \<Rightarrow> bool" where
  "closes_only I pl e pl' e' \<longleftrightarrow> engine_ok pl' e' \<and>
     (\<forall>j. um_find (matchers e') j = (if j \<in> I then None else um_find (matchers e) j)) \<and>
     (\<forall>j m s. j \<notin> I \<longrightarrow> um_find (matchers e) j = Some m \<longrightarrow>
        book_view (storage pl') (m_book m) s = book_view (storage pl) (m_book m) s)"

lemma closes_only_refl: "engine_ok pl e \<Longrightarrow> closes_only {} pl e pl e"
  by (simp add: closes_only_def)

lemma closes_only_trans:
  "closes_only I pl e pl1 e1 \<Longrightarrow> closes_only J pl1 e1 pl2 e2 \<Longrightarrow> closes_only (I \<union> J) pl e pl2 e2"
  by (auto simp: closes_only_def)

lemma expire_closes:
  assumes ok: "engine_ok pl e"
  obtains found pl' e' where "expire_instrument pl e i = Some (found, pl', e')" and "closes_only {i} pl e pl' e'"
  using ok
proof (cases rule: engine_expire_cases [of _ _ i])
  case none
  then have "closes_only {i} pl e pl e" using ok by (simp add: closes_only_def)
  then show ?thesis using that none(2) by blast
next
  case (close m pl' hs)
  let ?e = "e\<lparr>book_slots := um_erase i (book_slots e), matchers := um_erase i (matchers e)\<rparr>"
  have fr: "set (free_list pl') \<subseteq> set (free_list pl) \<union> set hs" using close(4) by simp
  note cl = engine_close [OF ok close(1,6,3) fr close(5)]
  have "book_view (storage pl') (m_book mj) s = book_view (storage pl) (m_book mj) s"
    if "j \<noteq> i" "um_find (matchers e) j = Some mj" for j mj s
  proof -
    have "book_ptrs (storage pl) (m_book mj) \<inter> book_ptrs (storage pl) (m_book m) = {}"
      using ok that close(1) by (auto simp: engine_ok_def)
    then have "book_ptrs (storage pl) (m_book mj) \<inter> set hs = {}" using close(5) by blast
    then show ?thesis by (rule matcher_frame(3) [OF engine_ok_matcher(1) [OF ok that(2)] close(6) _ close(3) fr])
  qed
  then have "closes_only {i} pl e pl' ?e" using cl(1) by (auto simp: closes_only_def um_find_erase)
  then show ?thesis using that close(2) by blast
qed

lemma fold_expire_closes:
  "engine_ok pl e \<Longrightarrow> \<exists>pl' e'. fold expire_callback is (Some (pl, e)) = Some (pl', e') \<and> closes_only (set is) pl e pl' e'"
proof (induction "is" arbitrary: pl e)
  case Nil
  then show ?case using closes_only_refl by simp
next
  case (Cons i js)
  obtain found pl1 e1 where 1: "expire_instrument pl e i = Some (found, pl1, e1)" "closes_only {i} pl e pl1 e1"
    by (rule expire_closes [OF Cons.prems])
  then have "engine_ok pl1 e1" by (simp add: closes_only_def)
  then obtain pl' e' where "fold expire_callback js (Some (pl1, e1)) = Some (pl', e')" "closes_only (set js) pl1 e1 pl' e'"
    using Cons.IH by blast
  moreover have "expire_callback i (Some (pl, e)) = Some (pl1, e1)" using 1(1) by (simp add: expire_callback_def)
  ultimately show ?case using closes_only_trans [OF 1(2)] by fastforce
qed

text \<open>
  C20. A sweep closes exactly the expired books. On a sound sweeper whose callback expires instruments
  in a sound engine, \<open>sweep\<close> returns each instrument registered for the date or an earlier one, once
  and in chronological order, and forgets exactly these. The engine never runs into undefined
  behaviour: afterwards it is sound, it has no book for the instruments reported, and every other
  book holds the same orders as before.
\<close>

theorem sweep_closes_expired:
  assumes "sweeper_ok sw" and "callback sw = Some expire_callback" and "engine_ok pl e"
    and "sweep today sw (Some (pl, e)) = (expired, sw', env)"
  shows "sweeper_ok sw' \<and> distinct expired \<and> sorted (map (\<lambda>i. the (um_find (id_to_expiry sw) i)) expired) \<and>
    (\<forall>i. i \<in> set expired \<longleftrightarrow> (\<exists>d. um_find (id_to_expiry sw) i = Some d \<and> d \<le> today)) \<and>
    um_find (id_to_expiry sw') = (\<lambda>i. if i \<in> set expired then None else um_find (id_to_expiry sw) i) \<and>
    (\<exists>pl' e'. env = Some (pl', e') \<and> engine_ok pl' e' \<and>
      (\<forall>i. engine_book e' i = (if i \<in> set expired then Some None else engine_book e i)) \<and>
      (\<forall>i b s. i \<notin> set expired \<longrightarrow> engine_book e i = Some (Some b) \<longrightarrow>
         book_view (storage pl') b s = book_view (storage pl) b s))"
proof -
  note S = sweep_facts [OF assms(1,4)]
  have "env = fold expire_callback expired (Some (pl, e))" using S assms(2) by simp
  then obtain pl' e' where env: "env = Some (pl', e')" "closes_only (set expired) pl e pl' e'"
    using fold_expire_closes [OF assms(3), of expired] by auto
  have ok': "engine_ok pl' e'" using env(2) by (simp add: closes_only_def)
  have "engine_book e' i = (if i \<in> set expired then Some None else engine_book e i)" for i
    using env(2) by (simp add: engine_book_ok [OF ok'] engine_book_ok [OF assms(3)] closes_only_def)
  moreover have "book_view (storage pl') b s = book_view (storage pl) b s"
    if "i \<notin> set expired" "engine_book e i = Some (Some b)" for i b s
    using env(2) that by (auto simp: engine_book_ok [OF assms(3)] closes_only_def)
  ultimately show ?thesis using S env(1) ok' by blast
qed

text \<open>An engine with two instruments, one of which has expired by the date.\<close>

definition demo_expiries :: "(pool \<times> engine) option sweeper" where
  "demo_expiries = register_instrument 2 (ExpiryDate 2025 6 20) (register_instrument 1 (ExpiryDate 2025 3 21)
     (set_callback expire_callback new_sweeper))"

lemma demo_expiries_ok: "sweeper_ok demo_expiries" "callback demo_expiries = Some expire_callback"
proof -
  show "sweeper_ok demo_expiries" unfolding demo_expiries_def
    by (intro register_ok) (simp_all add: register_instrument_def set_callback_def new_sweeper_def um_find_emplace sweeper_ok_def)
qed (simp add: demo_expiries_def register_instrument_def set_callback_def)

theorem sweep_closes_expired_witness:
  "\<exists>sw' pl' e'. sweep (ExpiryDate 2025 4 1) demo_expiries (Some (demo_slab, demo_engine)) = ([1], sw', Some (pl', e')) \<and>
     engine_ok pl' e' \<and> engine_book e' 1 = Some None \<and> engine_book e' 2 = engine_book demo_engine 2"
proof -
  have "fst (sweep (ExpiryDate 2025 4 1) demo_expiries (Some (demo_slab, demo_engine))) = [1]" by code_simp
  then obtain sw' env where s: "sweep (ExpiryDate 2025 4 1) demo_expiries (Some (demo_slab, demo_engine)) = ([1], sw', env)"
    by (metis prod.collapse)
  from sweep_closes_expired [OF demo_expiries_ok demo_engine_ok(1) s] s show ?thesis by auto
qed

end
