(* ===== verification/Spsc_Ring.thy ===== *)
theory Spsc_Ring
  imports Prelude
begin

unbundle bit_operations_syntax

text \<open>
  \<open>include/ordbk/utils/spsc_ring_buffer.hpp\<close>: the single-producer single-consumer ring buffer. First
  its operations as a queue, then the two threads as interleaved steps, one step per access to
  shared memory. The acquire and release orderings on \<open>head_\<close> and \<open>tail_\<close> are what makes this
  interleaving semantics the right one: a slot is written before the index that publishes it.
\<close>

record 'a ring =
  head_ix :: u64
  tail_ix :: u64
  slots :: "'a list"

section \<open>Operations\<close>

definition kMask :: "nat \<Rightarrow> u64" where
  "kMask capacity = of_nat (capacity - 1)"

text \<open>The static assertions: at least two, and a power of two (that fits the index type).\<close>

definition valid_capacity :: "nat \<Rightarrow> bool" where
  "valid_capacity capacity \<longleftrightarrow> list_ex (\<lambda>k. capacity = 2 ^ k) [1..<64]"

definition new_ring :: "nat \<Rightarrow> 'a \<Rightarrow> 'a ring" where
  "new_ring capacity dflt = \<lparr>head_ix = 0, tail_ix = 0, slots = replicate capacity dflt\<rparr>"

definition next_ix :: "nat \<Rightarrow> u64 \<Rightarrow> u64" where
  "next_ix capacity i = (i + 1) AND kMask capacity"

definition spsc_push :: "nat \<Rightarrow> 'a \<Rightarrow> 'a ring \<Rightarrow> (bool \<times> 'a ring) option" where
  "spsc_push capacity v r =
     (let tail = tail_ix r; nxt = next_ix capacity tail in
      if nxt = head_ix r then Some (False, r)
      else do {
        b \<leftarrow> modify_at (slots r) (unat tail) (\<lambda>_. v);
        Some (True, r\<lparr>slots := b, tail_ix := nxt\<rparr>)
      })"

definition spsc_pop :: "nat \<Rightarrow> 'a ring \<Rightarrow> ('a option \<times> 'a ring) option" where
  "spsc_pop capacity r =
     (let head = head_ix r in
      if head = tail_ix r then Some (None, r)
      else do {
        v \<leftarrow> deref (slots r) (unat head);
        Some (Some v, r\<lparr>head_ix := next_ix capacity head\<rparr>)
      })"

definition spsc_empty :: "'a ring \<Rightarrow> bool" where
  "spsc_empty r \<longleftrightarrow> head_ix r = tail_ix r"

definition approx_size :: "nat \<Rightarrow> 'a ring \<Rightarrow> u64" where
  "approx_size capacity r = (tail_ix r - head_ix r) AND kMask capacity"

definition spsc_capacity :: "nat \<Rightarrow> nat" where
  "spsc_capacity capacity = capacity - 1"

section \<open>Indices modulo the capacity\<close>

lemma valid_capacity_iff: "valid_capacity c \<longleftrightarrow> (\<exists>k. 1 \<le> k \<and> k < 64 \<and> c = 2 ^ k)"
  by (auto simp: valid_capacity_def list_ex_iff)

lemma valid_capacity_ge: "valid_capacity c \<Longrightarrow> 2 \<le> c"
  unfolding valid_capacity_iff by (metis power_increasing one_le_numeral power_one_right)

lemma and_kMask:
  assumes "valid_capacity c"
  shows "unat (x AND kMask c) = unat x mod c"
proof -
  obtain k where k: "k < 64" "c = 2 ^ k" using assms by (auto simp: valid_capacity_iff)
  have "kMask c = mask k" by (simp add: kMask_def k(2) mask_eq_exp_minus_1)
  then have "x AND kMask c = take_bit k x" by (simp only: take_bit_eq_mask)
  moreover have "unat (take_bit k x) = take_bit k (unat x)" by (rule unsigned_take_bit_eq)
  ultimately show ?thesis by (simp only: take_bit_eq_mod k(2))
qed

lemma unat_next_ix:
  assumes c: "valid_capacity c" and i: "unat i < c"
  shows "unat (next_ix c i) = (unat i + 1) mod c"
proof -
  obtain k where k: "k < 64" "c = 2 ^ k" using c by (auto simp: valid_capacity_iff)
  have "(2 :: nat) ^ k \<le> 2 ^ 63" by (rule power_increasing) (use k in auto)
  then have "c \<le> 2 ^ 63" using k by simp
  then have "unat (i + 1) = unat i + 1" using i by (simp add: unat_word_ariths)
  then show ?thesis by (simp add: next_ix_def and_kMask [OF c])
qed

lemma mod_below_twice: "x < 2 * c \<Longrightarrow> x mod c = (if x < c then x else x - (c :: nat))"
  by (simp add: mod_if)

lemma mod_wrap_eq: "h < c \<Longrightarrow> n \<le> c \<Longrightarrow> (h + n) mod c = h \<longleftrightarrow> n = 0 \<or> n = (c :: nat)"
  using mod_below_twice [of "h + n" c] by auto

lemma mod_window_inj: "i < n \<Longrightarrow> n < c \<Longrightarrow> h < c \<Longrightarrow> (h + i) mod c \<noteq> (h + n) mod (c :: nat)"
  using mod_below_twice [of "h + n" c] mod_below_twice [of "h + i" c] by auto

section \<open>The contents\<close>

text \<open>\<open>window b h n\<close>: the \<open>n\<close> elements of the ring from index \<open>h\<close> on.\<close>

definition window :: "'a list \<Rightarrow> nat \<Rightarrow> nat \<Rightarrow> 'a list" where
  "window b h n = map (\<lambda>i. b ! ((h + i) mod length b)) [0..<n]"

lemma window_0 [simp]: "window b h 0 = []"
  by (simp add: window_def)

lemma length_window [simp]: "length (window b h n) = n"
  by (simp add: window_def)

lemma window_snoc: "window b h (Suc n) = window b h n @ [b ! ((h + n) mod length b)]"
  by (simp add: window_def)

lemma window_cons: "h < length b \<Longrightarrow> window b h (Suc n) = b ! h # window b ((h + 1) mod length b) n"
  by (simp add: window_def map_upt_Suc mod_add_left_eq del: upt_Suc)

lemma window_update:
  assumes "n < length b" and "h < length b"
  shows "window (b[(h + n) mod length b := v]) h n = window b h n"
  unfolding window_def
proof (rule map_cong [OF refl])
  fix i assume "i \<in> set [0..<n]"
  then have "(h + i) mod length b \<noteq> (h + n) mod length b" using mod_window_inj assms by simp
  then show "b[(h + n) mod length b := v] ! ((h + i) mod length (b[(h + n) mod length b := v])) = b ! ((h + i) mod length b)"
    by simp
qed

text \<open>
  \<open>ring_rep c r xs\<close>: the ring holds the queue \<open>xs\<close>, oldest first; one slot stays unused.
\<close>

definition ring_rep :: "nat \<Rightarrow> 'a ring \<Rightarrow> 'a list \<Rightarrow> bool" where
  "ring_rep c r xs \<longleftrightarrow> valid_capacity c \<and> length (slots r) = c \<and> unat (head_ix r) < c \<and> length xs < c \<and>
     unat (tail_ix r) = (unat (head_ix r) + length xs) mod c \<and>
     window (slots r) (unat (head_ix r)) (length xs) = xs"

lemma new_ring_rep: "valid_capacity c \<Longrightarrow> ring_rep c (new_ring c d) []"
  using valid_capacity_ge [of c] by (simp add: ring_rep_def new_ring_def)

lemma ring_rep_tail: "ring_rep c r xs \<Longrightarrow> unat (tail_ix r) < c"
  using valid_capacity_ge [of c] by (simp add: ring_rep_def)

lemma ring_empty_iff: "ring_rep c r xs \<Longrightarrow> head_ix r = tail_ix r \<longleftrightarrow> xs = []"
  using mod_wrap_eq [of "unat (head_ix r)" c "length xs"] by (auto simp: ring_rep_def word_unat_eq_iff)

lemma ring_full_iff:
  assumes "ring_rep c r xs"
  shows "next_ix c (tail_ix r) = head_ix r \<longleftrightarrow> length xs = c - 1"
proof -
  have "unat (next_ix c (tail_ix r)) = (unat (tail_ix r) + 1) mod c"
    using assms ring_rep_tail [OF assms] by (simp add: unat_next_ix ring_rep_def)
  also have "\<dots> = (unat (head_ix r) + Suc (length xs)) mod c"
    using assms by (simp add: ring_rep_def mod_Suc_eq)
  finally show ?thesis
    using assms mod_wrap_eq [of "unat (head_ix r)" c "Suc (length xs)"]
    by (auto simp: ring_rep_def word_unat_eq_iff)
qed

text \<open>The three writes: into the free slot, to the tail, to the head.\<close>

lemma ring_write:
  assumes "ring_rep c r xs"
  shows "ring_rep c (r\<lparr>slots := (slots r)[unat (tail_ix r) := v]\<rparr>) xs"
  using assms window_update [of "length xs" "slots r" "unat (head_ix r)" v] by (auto simp: ring_rep_def)

lemma ring_publish:
  assumes rep: "ring_rep c r xs" and room: "length xs < c - 1"
  shows "ring_rep c (r\<lparr>tail_ix := next_ix c (tail_ix r)\<rparr>) (xs @ [slots r ! unat (tail_ix r)])"
proof -
  have "unat (next_ix c (tail_ix r)) = (unat (head_ix r) + Suc (length xs)) mod c"
    using rep ring_rep_tail [OF rep] by (simp add: unat_next_ix ring_rep_def mod_Suc_eq)
  then show ?thesis
    using rep room window_snoc [of "slots r" "unat (head_ix r)" "length xs"] by (auto simp: ring_rep_def)
qed

lemma ring_advance:
  assumes rep: "ring_rep c r (x # xs)"
  shows "ring_rep c (r\<lparr>head_ix := next_ix c (head_ix r)\<rparr>) xs" and "slots r ! unat (head_ix r) = x"
proof -
  let ?h = "unat (head_ix r)"
  have n: "unat (next_ix c (head_ix r)) = (?h + 1) mod c" using rep by (simp add: unat_next_ix ring_rep_def)
  have "window (slots r) ?h (Suc (length xs)) = x # xs" using rep by (simp add: ring_rep_def)
  then have w: "slots r ! ?h = x" "window (slots r) ((?h + 1) mod c) (length xs) = xs"
    using rep window_cons [of ?h "slots r" "length xs"] by (auto simp: ring_rep_def)
  then show "slots r ! ?h = x" by simp
  have "(?h + Suc (length xs)) mod c = ((?h + 1) mod c + length xs) mod c" by (simp add: mod_add_left_eq)
  then show "ring_rep c (r\<lparr>head_ix := next_ix c (head_ix r)\<rparr>) xs"
    using rep n w valid_capacity_ge [of c] by (simp add: ring_rep_def)
qed

section \<open>The queue interface\<close>

text \<open>A bounded first-in first-out queue.\<close>

locale bounded_fifo =
  fixes push :: "'a \<Rightarrow> 'q \<Rightarrow> (bool \<times> 'q) option"
    and pop :: "'q \<Rightarrow> ('a option \<times> 'q) option"
    and rep :: "'q \<Rightarrow> 'a list \<Rightarrow> bool"
    and bound :: nat
  assumes push_full: "rep q xs \<Longrightarrow> length xs = bound \<Longrightarrow> push v q = Some (False, q)"
    and push_room: "rep q xs \<Longrightarrow> length xs < bound \<Longrightarrow> \<exists>q'. push v q = Some (True, q') \<and> rep q' (xs @ [v])"
    and pop_none: "rep q [] \<Longrightarrow> pop q = Some (None, q)"
    and pop_some: "rep q (x # xs) \<Longrightarrow> \<exists>q'. pop q = Some (Some x, q') \<and> rep q' xs"
    and rep_bound: "rep q xs \<Longrightarrow> length xs \<le> bound"
begin

text \<open>Pushing as much as fits and popping it again gives it back in order.\<close>

fun push_all :: "'a list \<Rightarrow> 'q \<Rightarrow> 'q option" where
  "push_all [] q = Some q"
| "push_all (v # vs) q = Option.bind (push v q) (\<lambda>(ok, q'). if ok then push_all vs q' else None)"

lemma push_all_rep:
  "rep q xs \<Longrightarrow> length xs + length vs \<le> bound \<Longrightarrow> \<exists>q'. push_all vs q = Some q' \<and> rep q' (xs @ vs)"
proof (induction vs arbitrary: q xs)
  case (Cons v vs)
  obtain q' where q': "push v q = Some (True, q')" "rep q' (xs @ [v])"
    using push_room [OF Cons.prems(1)] Cons.prems(2) by fastforce
  then show ?case using Cons.IH [OF q'(2)] Cons.prems(2) by simp
qed simp

lemma push_total:
  assumes "rep q xs"
  shows "\<exists>q'. push v q = Some (length xs < bound, q') \<and> rep q' (if length xs < bound then xs @ [v] else xs)"
proof (cases "length xs < bound")
  case True
  then show ?thesis using push_room [OF assms] by simp
next
  case False
  then have "length xs = bound" using rep_bound [OF assms] by simp
  then show ?thesis using push_full [OF assms] assms by simp
qed

lemma pop_total: "rep q xs \<Longrightarrow> \<exists>q'. pop q = Some (case xs of [] \<Rightarrow> None | x # _ \<Rightarrow> Some x, q') \<and> rep q' (tl xs)"
  using pop_none pop_some by (cases xs) auto

end

lemma push_full_ring: "ring_rep c r xs \<Longrightarrow> length xs = c - 1 \<Longrightarrow> spsc_push c v r = Some (False, r)"
  using ring_full_iff by (auto simp: spsc_push_def Let_def)

lemma push_room_ring:
  assumes rep: "ring_rep c r xs" and room: "length xs < c - 1"
  shows "\<exists>r'. spsc_push c v r = Some (True, r') \<and> ring_rep c r' (xs @ [v])"
proof -
  let ?r1 = "r\<lparr>slots := (slots r)[unat (tail_ix r) := v]\<rparr>"
  have t: "unat (tail_ix r) < length (slots r)" using rep ring_rep_tail [OF rep] by (simp add: ring_rep_def)
  have "ring_rep c (?r1\<lparr>tail_ix := next_ix c (tail_ix ?r1)\<rparr>) (xs @ [slots ?r1 ! unat (tail_ix ?r1)])"
    by (rule ring_publish [OF ring_write [OF rep] room])
  moreover have "spsc_push c v r = Some (True, ?r1\<lparr>tail_ix := next_ix c (tail_ix ?r1)\<rparr>)"
    using t room ring_full_iff [OF rep] by (simp add: spsc_push_def Let_def)
  ultimately show ?thesis using t by simp
qed

lemma pop_some_ring:
  assumes rep: "ring_rep c r (x # xs)"
  shows "\<exists>r'. spsc_pop c r = Some (Some x, r') \<and> ring_rep c r' xs"
proof -
  have "unat (head_ix r) < length (slots r)" using rep by (simp add: ring_rep_def)
  then show ?thesis
    using ring_advance [OF rep] ring_empty_iff [OF rep] by (simp add: spsc_pop_def Let_def)
qed

interpretation spsc: bounded_fifo "spsc_push c" "spsc_pop c" "ring_rep c" "c - 1" for c
proof
  show "ring_rep c r [] \<Longrightarrow> spsc_pop c r = Some (None, r)" for r :: "'a ring"
    using ring_empty_iff [of c r "[]"] by (simp add: spsc_pop_def Let_def)
  show "ring_rep c r xs \<Longrightarrow> length xs \<le> c - 1" for r :: "'a ring" and xs
    by (auto simp: ring_rep_def)
qed (auto intro: push_full_ring push_room_ring pop_some_ring)

section \<open>The two threads\<close>

text \<open>
  Where each thread stands inside \<open>push\<close> and \<open>pop\<close>, with the values of its locals: the value and
  the loaded indices. \<open>pushed\<close> and \<open>popped\<close> record the completed calls that returned true; they do
  not influence any step.
\<close>

datatype 'a prod_pc = P_idle | P_loaded 'a u64 u64 | P_write 'a u64 u64 | P_publish 'a u64
datatype 'a cons_pc = C_idle | C_loaded u64 | C_read u64 | C_publish 'a u64

record 'a spsc_state =
  shared :: "'a ring"
  prod :: "'a prod_pc"
  cons :: "'a cons_pc"
  pushed :: "'a list"
  popped :: "'a list"

definition spsc_init :: "nat \<Rightarrow> 'a \<Rightarrow> 'a spsc_state" where
  "spsc_init c d = \<lparr>shared = new_ring c d, prod = P_idle, cons = C_idle, pushed = [], popped = []\<rparr>"

text \<open>One step of one thread: each rule makes one access to shared memory.\<close>

inductive spsc_step :: "nat \<Rightarrow> 'a spsc_state \<Rightarrow> 'a spsc_state \<Rightarrow> bool" for c where
  push_load_tail: "prod s = P_idle \<Longrightarrow>
    spsc_step c s (s\<lparr>prod := P_loaded v (tail_ix (shared s)) (next_ix c (tail_ix (shared s)))\<rparr>)"
| push_is_full: "prod s = P_loaded v t n \<Longrightarrow> n = head_ix (shared s) \<Longrightarrow> spsc_step c s (s\<lparr>prod := P_idle\<rparr>)"
| push_has_room: "prod s = P_loaded v t n \<Longrightarrow> n \<noteq> head_ix (shared s) \<Longrightarrow> spsc_step c s (s\<lparr>prod := P_write v t n\<rparr>)"
| push_write: "prod s = P_write v t n \<Longrightarrow> modify_at (slots (shared s)) (unat t) (\<lambda>_. v) = Some b \<Longrightarrow>
    spsc_step c s (s\<lparr>shared := (shared s)\<lparr>slots := b\<rparr>, prod := P_publish v n\<rparr>)"
| push_store_tail: "prod s = P_publish v n \<Longrightarrow>
    spsc_step c s (s\<lparr>shared := (shared s)\<lparr>tail_ix := n\<rparr>, prod := P_idle, pushed := pushed s @ [v]\<rparr>)"
| pop_load_head: "cons s = C_idle \<Longrightarrow> spsc_step c s (s\<lparr>cons := C_loaded (head_ix (shared s))\<rparr>)"
| pop_is_empty: "cons s = C_loaded h \<Longrightarrow> h = tail_ix (shared s) \<Longrightarrow> spsc_step c s (s\<lparr>cons := C_idle\<rparr>)"
| pop_has_data: "cons s = C_loaded h \<Longrightarrow> h \<noteq> tail_ix (shared s) \<Longrightarrow> spsc_step c s (s\<lparr>cons := C_read h\<rparr>)"
| pop_read: "cons s = C_read h \<Longrightarrow> deref (slots (shared s)) (unat h) = Some v \<Longrightarrow>
    spsc_step c s (s\<lparr>cons := C_publish v h\<rparr>)"
| pop_store_head: "cons s = C_publish v h \<Longrightarrow>
    spsc_step c s (s\<lparr>shared := (shared s)\<lparr>head_ix := next_ix c h\<rparr>, cons := C_idle, popped := popped s @ [v]\<rparr>)"

inductive_cases spsc_stepE: "spsc_step c s s'"

definition prod_ok :: "nat \<Rightarrow> 'a ring \<Rightarrow> 'a list \<Rightarrow> 'a prod_pc \<Rightarrow> bool" where
  "prod_ok c r xs pc =
     (case pc of P_idle \<Rightarrow> True
      | P_loaded v t n \<Rightarrow> t = tail_ix r \<and> n = next_ix c (tail_ix r)
      | P_write v t n \<Rightarrow> t = tail_ix r \<and> n = next_ix c (tail_ix r) \<and> length xs < c - 1
      | P_publish v n \<Rightarrow> n = next_ix c (tail_ix r) \<and> length xs < c - 1 \<and> slots r ! unat (tail_ix r) = v)"

definition cons_ok :: "'a ring \<Rightarrow> 'a list \<Rightarrow> 'a cons_pc \<Rightarrow> bool" where
  "cons_ok r xs pc =
     (case pc of C_idle \<Rightarrow> True
      | C_loaded h \<Rightarrow> h = head_ix r
      | C_read h \<Rightarrow> h = head_ix r \<and> xs \<noteq> []
      | C_publish v h \<Rightarrow> h = head_ix r \<and> xs \<noteq> [] \<and> hd xs = v)"

definition spsc_inv :: "nat \<Rightarrow> 'a spsc_state \<Rightarrow> bool" where
  "spsc_inv c s \<longleftrightarrow> (\<exists>xs. ring_rep c (shared s) xs \<and> pushed s = popped s @ xs \<and>
     prod_ok c (shared s) xs (prod s) \<and> cons_ok (shared s) xs (cons s))"

lemma spsc_init_inv: "valid_capacity c \<Longrightarrow> spsc_inv c (spsc_init c d)"
  using new_ring_rep [of c d] by (auto simp: spsc_inv_def spsc_init_def prod_ok_def cons_ok_def)

lemma pcs_ok_simps [simp]:
  "prod_ok c r xs P_idle" "cons_ok r xs C_idle"
  by (simp_all add: prod_ok_def cons_ok_def)

text \<open>What one thread relies on survives the steps of the other.\<close>

lemma cons_ok_stable:
  "cons_ok r xs pc \<Longrightarrow> cons_ok (r\<lparr>slots := b\<rparr>) xs pc"
  "cons_ok r xs pc \<Longrightarrow> cons_ok (r\<lparr>tail_ix := n\<rparr>) (xs @ ys) pc"
  by (auto simp: cons_ok_def split: cons_pc.splits)

lemma prod_ok_stable: "prod_ok c r (x # xs) pc \<Longrightarrow> prod_ok c (r\<lparr>head_ix := h\<rparr>) xs pc"
  by (auto simp: prod_ok_def split: prod_pc.splits)

lemma spsc_invE:
  assumes "spsc_inv c s"
  obtains xs where "ring_rep c (shared s) xs" and "pushed s = popped s @ xs"
    and "prod_ok c (shared s) xs (prod s)" and "cons_ok (shared s) xs (cons s)"
  using assms by (auto simp: spsc_inv_def)

text \<open>The four steps that change the ring or learn something about it.\<close>

lemma push_has_room_inv:
  assumes "spsc_inv c s" and "prod s = P_loaded v t n" and "n \<noteq> head_ix (shared s)"
  shows "spsc_inv c (s\<lparr>prod := P_write v t n\<rparr>)"
  using assms(1)
proof (rule spsc_invE)
  fix xs assume xs: "ring_rep c (shared s) xs" "pushed s = popped s @ xs" "prod_ok c (shared s) xs (prod s)" "cons_ok (shared s) xs (cons s)"
  then have "length xs \<noteq> c - 1" "length xs \<le> c - 1"
    using ring_full_iff [OF xs(1)] assms(2,3) by (auto simp: prod_ok_def ring_rep_def)
  then show ?thesis using xs assms(2) by (auto simp: spsc_inv_def prod_ok_def)
qed

lemma push_write_inv:
  assumes "spsc_inv c s" and "prod s = P_write v t n" and "modify_at (slots (shared s)) (unat t) (\<lambda>_. v) = Some b"
  shows "spsc_inv c (s\<lparr>shared := (shared s)\<lparr>slots := b\<rparr>, prod := P_publish v n\<rparr>)"
  using assms(1)
proof (rule spsc_invE)
  fix xs assume xs: "ring_rep c (shared s) xs" "pushed s = popped s @ xs" "prod_ok c (shared s) xs (prod s)" "cons_ok (shared s) xs (cons s)"
  have t: "t = tail_ix (shared s)" "unat t < length (slots (shared s))"
    using xs(1,3) assms(2) ring_rep_tail [OF xs(1)] by (auto simp: prod_ok_def ring_rep_def)
  then have b: "b = (slots (shared s))[unat (tail_ix (shared s)) := v]" using assms(3) by simp
  have "ring_rep c ((shared s)\<lparr>slots := b\<rparr>) xs" unfolding b by (rule ring_write [OF xs(1)])
  moreover have "prod_ok c ((shared s)\<lparr>slots := b\<rparr>) xs (P_publish v n)" using xs(3) assms(2) t b by (simp add: prod_ok_def)
  ultimately show ?thesis using xs cons_ok_stable(1) by (fastforce simp: spsc_inv_def)
qed

lemma pop_read_inv:
  assumes "spsc_inv c s" and "cons s = C_read h" and "deref (slots (shared s)) (unat h) = Some v"
  shows "spsc_inv c (s\<lparr>cons := C_publish v h\<rparr>)"
  using assms(1)
proof (rule spsc_invE)
  fix xs assume xs: "ring_rep c (shared s) xs" "pushed s = popped s @ xs" "prod_ok c (shared s) xs (prod s)" "cons_ok (shared s) xs (cons s)"
  then obtain y ys where y: "xs = y # ys" "h = head_ix (shared s)" using assms(2) by (cases xs) (auto simp: cons_ok_def)
  then have "v = y" using ring_advance(2) [of c "shared s" y ys] xs(1) assms(3) by (auto simp: deref_eq_Some)
  then show ?thesis using xs y by (auto simp: spsc_inv_def cons_ok_def)
qed

lemma pop_store_head_inv:
  assumes "spsc_inv c s" and "cons s = C_publish v h"
  shows "spsc_inv c (s\<lparr>shared := (shared s)\<lparr>head_ix := next_ix c h\<rparr>, cons := C_idle, popped := popped s @ [v]\<rparr>)"
  using assms(1)
proof (rule spsc_invE)
  fix xs assume xs: "ring_rep c (shared s) xs" "pushed s = popped s @ xs" "prod_ok c (shared s) xs (prod s)" "cons_ok (shared s) xs (cons s)"
  then obtain ys where y: "xs = v # ys" "h = head_ix (shared s)" using assms(2) by (cases xs) (auto simp: cons_ok_def)
  then have "ring_rep c ((shared s)\<lparr>head_ix := next_ix c h\<rparr>) ys" using ring_advance(1) [of c "shared s" v ys] xs(1) by simp
  moreover have "prod_ok c ((shared s)\<lparr>head_ix := next_ix c h\<rparr>) ys (prod s)" using prod_ok_stable [of c "shared s" v ys] xs(3) y by simp
  ultimately show ?thesis using xs(2) y by (auto simp: spsc_inv_def)
qed

lemma spsc_step_inv: "spsc_step c s s' \<Longrightarrow> spsc_inv c s \<Longrightarrow> spsc_inv c s'"
proof (induction rule: spsc_step.induct)
  case (push_load_tail s v)
  then show ?case by (auto simp: spsc_inv_def prod_ok_def [of _ _ _ "P_loaded _ _ _"])
next
  case (push_store_tail s v n)
  from push_store_tail(2) show ?case
  proof (rule spsc_invE)
    fix xs assume xs: "ring_rep c (shared s) xs" "pushed s = popped s @ xs" "prod_ok c (shared s) xs (prod s)" "cons_ok (shared s) xs (cons s)"
    then have "ring_rep c ((shared s)\<lparr>tail_ix := n\<rparr>) (xs @ [v])"
      using ring_publish [OF xs(1)] push_store_tail(1) by (auto simp: prod_ok_def)
    then show ?thesis
      using xs(2) cons_ok_stable(2) [OF xs(4), of n "[v]"] by (auto simp: spsc_inv_def)
  qed
next
  case (pop_load_head s)
  then show ?case by (auto simp: spsc_inv_def cons_ok_def [of _ _ "C_loaded _"])
next
  case (pop_has_data s h)
  from pop_has_data(3) show ?case
  proof (rule spsc_invE)
    fix xs assume xs: "ring_rep c (shared s) xs" "pushed s = popped s @ xs" "prod_ok c (shared s) xs (prod s)" "cons_ok (shared s) xs (cons s)"
    then have "xs \<noteq> []" using ring_empty_iff [OF xs(1)] pop_has_data(1,2) by (auto simp: cons_ok_def)
    then show ?thesis using xs pop_has_data(1) by (auto simp: spsc_inv_def cons_ok_def)
  qed
next
  case (push_is_full s v t n)
  then show ?case by (auto simp: spsc_inv_def)
next
  case (pop_is_empty s h)
  then show ?case by (auto simp: spsc_inv_def)
qed (blast intro: push_has_room_inv push_write_inv pop_read_inv pop_store_head_inv)+

lemma spsc_reachable_inv: "(spsc_step c)\<^sup>*\<^sup>* s s' \<Longrightarrow> spsc_inv c s \<Longrightarrow> spsc_inv c s'"
  by (induction rule: rtranclp_induct) (auto intro: spsc_step_inv)

text \<open>A thread inside the ring can always take its next step: no access is out of range.\<close>

lemma spsc_inv_progress:
  assumes inv: "spsc_inv c s"
  shows "prod s = P_write v t n \<Longrightarrow> unat t < length (slots (shared s))"
    and "cons s = C_read h \<Longrightarrow> unat h < length (slots (shared s))"
    and "prod s = P_write v t n \<Longrightarrow> cons s = C_read h \<Longrightarrow> t \<noteq> h"
proof -
  obtain xs where xs: "ring_rep c (shared s) xs" "prod_ok c (shared s) xs (prod s)" "cons_ok (shared s) xs (cons s)"
    using inv by (auto simp: spsc_inv_def)
  show "prod s = P_write v t n \<Longrightarrow> unat t < length (slots (shared s))"
    using xs ring_rep_tail [OF xs(1)] by (auto simp: prod_ok_def ring_rep_def)
  show "cons s = C_read h \<Longrightarrow> unat h < length (slots (shared s))"
    using xs by (auto simp: cons_ok_def ring_rep_def)
  show "prod s = P_write v t n \<Longrightarrow> cons s = C_read h \<Longrightarrow> t \<noteq> h"
    using xs ring_empty_iff [OF xs(1)] by (auto simp: prod_ok_def cons_ok_def)
qed

lemma spsc_no_stuck_write: "spsc_inv c s \<Longrightarrow> prod s = P_write v t n \<Longrightarrow> \<exists>s'. spsc_step c s s' \<and> prod s' = P_publish v n"
  using spsc_inv_progress(1) [of c s v t n]
  by (auto intro!: exI [of _ "s\<lparr>shared := (shared s)\<lparr>slots := (slots (shared s))[unat t := v]\<rparr>, prod := P_publish v n\<rparr>"] push_write)

section \<open>Properties\<close>

text \<open>
  C22. Whatever the interleaving of the producer's and the consumer's memory accesses, what was
  pushed is what was popped followed by at most \<open>capacity - 1\<close> elements still in the ring: nothing is
  lost, duplicated or reordered. A slot being written and a slot being read lie inside the array and
  are never the same slot.
\<close>

theorem spsc_fifo_safe:
  assumes "valid_capacity c" and "(spsc_step c)\<^sup>*\<^sup>* (spsc_init c d) s"
  shows "(\<exists>xs. pushed s = popped s @ xs \<and> length xs \<le> spsc_capacity c) \<and>
    (\<forall>v t n. prod s = P_write v t n \<longrightarrow> unat t < c) \<and> (\<forall>h. cons s = C_read h \<longrightarrow> unat h < c) \<and>
    (\<forall>v t n h. prod s = P_write v t n \<and> cons s = C_read h \<longrightarrow> t \<noteq> h)"
proof (intro conjI)
  have inv: "spsc_inv c s" by (rule spsc_reachable_inv [OF assms(2) spsc_init_inv [OF assms(1)]])
  then have len: "length (slots (shared s)) = c" by (auto simp: spsc_inv_def ring_rep_def)
  show "\<exists>xs. pushed s = popped s @ xs \<and> length xs \<le> spsc_capacity c"
    using inv spsc.rep_bound unfolding spsc_inv_def spsc_capacity_def by blast
  show "\<forall>v t n. prod s = P_write v t n \<longrightarrow> unat t < c" using spsc_inv_progress(1) [OF inv] len by blast
  show "\<forall>h. cons s = C_read h \<longrightarrow> unat h < c" using spsc_inv_progress(2) [OF inv] len by blast
  show "\<forall>v t n h. prod s = P_write v t n \<and> cons s = C_read h \<longrightarrow> t \<noteq> h" using spsc_inv_progress(3) [OF inv] by blast
qed

text \<open>The empty ring of two slots, after the producer has pushed 7 and the consumer has seen it.\<close>

lemma spsc_demo_run:
  "(spsc_step 2)\<^sup>*\<^sup>* (spsc_init 2 (0 :: nat))
     \<lparr>shared = \<lparr>head_ix = 0, tail_ix = 1, slots = [7, 0]\<rparr>, prod = P_idle, cons = C_read 0, pushed = [7], popped = []\<rparr>"
proof -
  let ?r0 = "\<lparr>head_ix = 0, tail_ix = 0, slots = [0, 0]\<rparr> :: nat ring"
  let ?st = "\<lambda>r p k ps. \<lparr>shared = r, prod = p, cons = k, pushed = ps, popped = []\<rparr> :: nat spsc_state"
  let ?r1 = "?r0\<lparr>slots := [7, 0]\<rparr>" and ?r2 = "\<lparr>head_ix = 0, tail_ix = 1, slots = [7, 0]\<rparr> :: nat ring"
  have nx: "next_ix 2 0 = 1" by (simp add: next_ix_def kMask_def)
  have s0: "spsc_init 2 0 = ?st ?r0 P_idle C_idle []" by (simp add: spsc_init_def new_ring_def numeral_2_eq_2)
  have s1: "spsc_step 2 (?st ?r0 P_idle C_idle []) (?st ?r0 (P_loaded 7 0 1) C_idle [])"
    using push_load_tail [of "?st ?r0 P_idle C_idle []" 2 7] nx by simp
  have s2: "spsc_step 2 (?st ?r0 (P_loaded 7 0 1) C_idle []) (?st ?r0 (P_write 7 0 1) C_idle [])"
    using push_has_room [of "?st ?r0 (P_loaded 7 0 1) C_idle []" 7 0 1 2] by simp
  have s3: "spsc_step 2 (?st ?r0 (P_write 7 0 1) C_idle []) (?st ?r1 (P_publish 7 1) C_idle [])"
    using push_write [of "?st ?r0 (P_write 7 0 1) C_idle []" 7 0 1 "[7, 0]" 2] by simp
  have s4: "spsc_step 2 (?st ?r1 (P_publish 7 1) C_idle []) (?st ?r2 P_idle C_idle [7])"
    using push_store_tail [of "?st ?r1 (P_publish 7 1) C_idle []" 7 1 2] by simp
  have s5: "spsc_step 2 (?st ?r2 P_idle C_idle [7]) (?st ?r2 P_idle (C_loaded 0) [7])"
    using pop_load_head [of "?st ?r2 P_idle C_idle [7]" 2] by simp
  have s6: "spsc_step 2 (?st ?r2 P_idle (C_loaded 0) [7]) (?st ?r2 P_idle (C_read 0) [7])"
    using pop_has_data [of "?st ?r2 P_idle (C_loaded 0) [7]" 0 2] by simp
  show ?thesis unfolding s0
    by (rule converse_rtranclp_into_rtranclp, rule s1, rule converse_rtranclp_into_rtranclp, rule s2,
        rule converse_rtranclp_into_rtranclp, rule s3, rule converse_rtranclp_into_rtranclp, rule s4,
        rule converse_rtranclp_into_rtranclp, rule s5, rule r_into_rtranclp, rule s6)
qed

theorem spsc_fifo_safe_witness:
  "let s = \<lparr>shared = \<lparr>head_ix = 0, tail_ix = 1, slots = [7, 0 :: nat]\<rparr>, prod = P_idle, cons = C_read 0, pushed = [7], popped = []\<rparr>
   in valid_capacity 2 \<and> (spsc_step 2)\<^sup>*\<^sup>* (spsc_init 2 0) s \<and> (\<exists>xs. pushed s = popped s @ xs \<and> length xs \<le> spsc_capacity 2)"
proof -
  have c: "valid_capacity 2" by code_simp
  show ?thesis
    unfolding Let_def
    by (rule conjI [OF c conjI [OF spsc_demo_run conjunct1 [OF spsc_fifo_safe [OF c spsc_demo_run]]]])
qed

text \<open>The element count the ring reports.\<close>

lemma approx_size_rep:
  assumes rep: "ring_rep c r xs"
  shows "unat (approx_size c r) = length xs"
proof -
  let ?h = "unat (head_ix r)" and ?n = "length xs"
  have c: "valid_capacity c" and b: "?h < c" "?n < c" and t: "unat (tail_ix r) = (?h + ?n) mod c"
    using rep by (auto simp: ring_rep_def)
  obtain k where k: "k < 64" "c = 2 ^ k" using c by (auto simp: valid_capacity_iff)
  have "(2 :: nat) ^ 64 = 2 ^ k * 2 ^ (64 - k)" using k(1) by (simp flip: power_add)
  then obtain m where m: "(2 :: nat) ^ 64 = c * Suc m" using k(2) by (metis gr0_implies_Suc zero_less_numeral zero_less_power)
  have "unat (tail_ix r - head_ix r) mod c = ?n"
  proof (cases "?h + ?n < c")
    case True
    then have "unat (tail_ix r - head_ix r) = ?n" using t by (simp add: unat_sub_if')
    then show ?thesis using b by simp
  next
    case False
    then have tt: "unat (tail_ix r) = ?h + ?n - c" using t b mod_below_twice [of "?h + ?n" c] by simp
    then have "unat (tail_ix r - head_ix r) = 2 ^ 64 + unat (tail_ix r) - ?h" using b False by (simp add: unat_sub_if') arith
    also have "\<dots> = c * m + ?n" using tt False b m by simp
    finally show ?thesis using b by simp
  qed
  then show ?thesis by (simp add: approx_size_def and_kMask [OF c])
qed

primrec push_list :: "nat \<Rightarrow> 'a list \<Rightarrow> 'a ring \<Rightarrow> 'a ring option" where
  "push_list c [] r = Some r"
| "push_list c (v # vs) r = Option.bind (spsc_push c v r) (\<lambda>(ok, r'). if ok then push_list c vs r' else None)"

lemma push_list_rep:
  "ring_rep c r xs \<Longrightarrow> length xs + length vs \<le> c - 1 \<Longrightarrow> \<exists>r'. push_list c vs r = Some r' \<and> ring_rep c r' (xs @ vs)"
proof (induction vs arbitrary: r xs)
  case (Cons v vs)
  obtain r' where r': "spsc_push c v r = Some (True, r')" "ring_rep c r' (xs @ [v])"
    using spsc.push_room [OF Cons.prems(1)] Cons.prems(2) by fastforce
  then show ?case using Cons.IH [OF r'(2)] Cons.prems(2) by simp
qed simp



end
