(* ===== verification/Sharded.thy ===== *)
theory Sharded
  imports Engine_Safety Spsc_Ring
begin

text \<open>
  \<open>include/ordbk/matching/sharded_engine.hpp\<close> and \<open>src/matching/sharded_engine.cpp\<close>: several engines,
  one per worker thread, on one shared pool. A command goes through the queue of the shard its
  instrument belongs to.

  The operations take the capacity of the queues as their first argument; the code instantiates
  it with \<open>kQueueCapacity\<close>. Concurrency is a sequence of events: a push, the update of a counter, and
  the handling of one command by one worker are events of their own. Pushes and pops are atomic by
  the theorem on \<open>SpscRingBuffer\<close> under all interleavings, the pool is protected by its mutex, and a
  worker works on slots no other thread touches.
\<close>

section \<open>Data\<close>

datatype command_kind = Cmd_Submit | Cmd_Cancel

record command =
  cmd_kind :: command_kind
  cmd_instrument :: u32
  cmd_order_id :: u64
  cmd_order :: "ptr option"

definition kQueueCapacity :: nat where
  "kQueueCapacity = 4096"

record shard =
  sh_queue :: "command ring"
  sh_engine :: engine
  sh_submitted :: u64
  sh_processed :: u64
  sh_stop :: bool

record sharded =
  sm_pool :: pool
  sm_shards :: "shard list"

datatype sharded_error = ZeroShards | ShardRegistryNotFrozen

section \<open>Operations\<close>

definition blank_command :: command where
  "blank_command = \<lparr>cmd_kind = Cmd_Submit, cmd_instrument = 0, cmd_order_id = 0, cmd_order = None\<rparr>"

definition shard_of :: "nat \<Rightarrow> u32 \<Rightarrow> nat" where
  "shard_of num_shards i = unat i mod num_shards"

text \<open>The constructor. The outer option is a failing pool construction.\<close>

definition sharded_new :: "nat \<Rightarrow> registry \<Rightarrow> nat \<Rightarrow> nat \<Rightarrow> (sharded_error + sharded) option" where
  "sharded_new qc r n cap = do {
     pl \<leftarrow> pool_init cap;
     if n = 0 then Some (Inl ZeroShards)
     else if \<not> frozen r then Some (Inl ShardRegistryNotFrozen)
     else do {
       engines \<leftarrow> those (map (\<lambda>i. case engine_new r (Some (\<lambda>id. shard_of n id = i)) of
         Inl _ \<Rightarrow> None | Inr e \<Rightarrow> Some e) [0..<n]);
       Some (Inr \<lparr>sm_pool = pl, sm_shards = map (\<lambda>e. \<lparr>sh_queue = new_ring qc blank_command, sh_engine = e,
         sh_submitted = 0, sh_processed = 0, sh_stop = False\<rparr>) engines\<rparr>)
     }
   }"

definition num_shards :: "sharded \<Rightarrow> nat" where
  "num_shards sm = length (sm_shards sm)"

definition shard_for :: "sharded \<Rightarrow> u32 \<Rightarrow> nat" where
  "shard_for sm i = shard_of (num_shards sm) i"

definition sharded_acquire :: "sharded \<Rightarrow> (ptr option \<times> sharded) option" where
  "sharded_acquire sm = do { (slot, pl) \<leftarrow> pool_acquire (sm_pool sm); Some (slot, sm\<lparr>sm_pool := pl\<rparr>) }"

text \<open>\<open>submit\<close> and \<open>cancel\<close>: build the command, push it, then count it.\<close>

definition push_command :: "nat \<Rightarrow> nat \<Rightarrow> command \<Rightarrow> sharded \<Rightarrow> (bool \<times> sharded) option" where
  "push_command qc idx cmd sm = do {
     s \<leftarrow> deref (sm_shards sm) idx;
     (ok, q) \<leftarrow> spsc_push qc cmd (sh_queue s);
     Some (ok, sm\<lparr>sm_shards := (sm_shards sm)[idx := s\<lparr>sh_queue := q\<rparr>]\<rparr>)
   }"

definition count_submitted :: "nat \<Rightarrow> sharded \<Rightarrow> sharded option" where
  "count_submitted idx sm = do {
     shs \<leftarrow> modify_at (sm_shards sm) idx (\<lambda>s. s\<lparr>sh_submitted := sh_submitted s + 1\<rparr>);
     Some (sm\<lparr>sm_shards := shs\<rparr>)
   }"

definition submit_command :: "sharded \<Rightarrow> ptr \<Rightarrow> (nat \<times> command) option" where
  "submit_command sm p = do {
     x \<leftarrow> deref (storage (sm_pool sm)) p;
     Some (shard_for sm (order_instrument x), \<lparr>cmd_kind = Cmd_Submit, cmd_instrument = order_instrument x,
       cmd_order_id = order_id x, cmd_order = Some p\<rparr>)
   }"

definition cancel_command :: "sharded \<Rightarrow> u32 \<Rightarrow> u64 \<Rightarrow> nat \<times> command" where
  "cancel_command sm inst i = (shard_for sm inst, \<lparr>cmd_kind = Cmd_Cancel, cmd_instrument = inst,
     cmd_order_id = i, cmd_order = None\<rparr>)"

definition enqueue :: "nat \<Rightarrow> nat \<times> command \<Rightarrow> sharded \<Rightarrow> (bool \<times> sharded) option" where
  "enqueue qc c sm = do {
     (ok, sm') \<leftarrow> push_command qc (fst c) (snd c) sm;
     if \<not> ok then Some (False, sm')
     else do { sm'' \<leftarrow> count_submitted (fst c) sm'; Some (True, sm'') }
   }"

definition sharded_submit :: "nat \<Rightarrow> ptr \<Rightarrow> sharded \<Rightarrow> (bool \<times> sharded) option" where
  "sharded_submit qc p sm = do { c \<leftarrow> submit_command sm p; enqueue qc c sm }"

definition sharded_cancel :: "nat \<Rightarrow> u32 \<Rightarrow> u64 \<Rightarrow> sharded \<Rightarrow> (bool \<times> sharded) option" where
  "sharded_cancel qc inst i sm = enqueue qc (cancel_command sm inst i) sm"

text \<open>What a worker does with a command it popped; a submit without an order dereferences null.\<close>

definition process_command ::
  "(nat \<Rightarrow> u64) \<Rightarrow> command \<Rightarrow> pool \<Rightarrow> engine \<Rightarrow> (pool \<times> engine) option" where
  "process_command clk cmd pl e =
     (case cmd_kind cmd of
        Cmd_Submit \<Rightarrow> do {
          p \<leftarrow> cmd_order cmd;
          (pl', e', trades) \<leftarrow> engine_submit clk pl e p;
          x \<leftarrow> deref (storage pl') p;
          if is_terminal x then do { pl2 \<leftarrow> pool_release pl' p; Some (pl2, e') }
          else Some (pl', e')
        }
      | Cmd_Cancel \<Rightarrow> do {
          (found, pl', e') \<leftarrow> engine_cancel pl e (cmd_instrument cmd) (cmd_order_id cmd);
          Some (pl', e')
        })"

text \<open>
  One turn of the loop of \<open>run_shard\<close>: pop a command and handle it. The result tells the command,
  if there was one. The turn is the same in the main loop and in the loop that drains the queue
  after \<open>stop\<close>.
\<close>

definition worker_turn ::
  "nat \<Rightarrow> (nat \<Rightarrow> u64) \<Rightarrow> nat \<Rightarrow> sharded \<Rightarrow> (command option \<times> sharded) option" where
  "worker_turn qc clk idx sm = do {
     s \<leftarrow> deref (sm_shards sm) idx;
     (popped, q) \<leftarrow> spsc_pop qc (sh_queue s);
     case popped of
       None \<Rightarrow> Some (None, sm\<lparr>sm_shards := (sm_shards sm)[idx := s\<lparr>sh_queue := q\<rparr>]\<rparr>)
     | Some cmd \<Rightarrow> do {
         (pl, e) \<leftarrow> process_command clk cmd (sm_pool sm) (sh_engine s);
         Some (Some cmd, sm\<lparr>sm_pool := pl, sm_shards := (sm_shards sm)[idx := s\<lparr>sh_queue := q,
           sh_engine := e, sh_processed := sh_processed s + 1\<rparr>]\<rparr>)
       }
   }"

text \<open>
  The loop that drains the queue after \<open>stop\<close>, with the clock readings of each turn. The fuel bounds
  the number of turns; \<open>None\<close> stands for undefined behaviour or for a loop that is still running.
\<close>

primrec drain_shard :: "nat \<Rightarrow> (nat \<Rightarrow> nat \<Rightarrow> u64) \<Rightarrow> nat \<Rightarrow> nat \<Rightarrow> sharded \<Rightarrow> sharded option" where
  "drain_shard qc clks idx 0 sm = None"
| "drain_shard qc clks idx (Suc fuel) sm = do {
     (popped, sm') \<leftarrow> worker_turn qc (clks fuel) idx sm;
     if popped = None then Some sm' else drain_shard qc clks idx fuel sm'
   }"

text \<open>One look of \<open>wait_idle\<close> at the counters, and the destructor's \<open>stop\<close>.\<close>

definition all_done :: "sharded \<Rightarrow> bool" where
  "all_done sm \<longleftrightarrow> list_all (\<lambda>s. sh_submitted s = sh_processed s) (sm_shards sm)"

definition stop_all :: "sharded \<Rightarrow> sharded" where
  "stop_all sm = sm\<lparr>sm_shards := map (\<lambda>s. s\<lparr>sh_stop := True\<rparr>) (sm_shards sm)\<rparr>"

definition sharded_book :: "sharded \<Rightarrow> u32 \<Rightarrow> order_book option option" where
  "sharded_book sm i = do {
     s \<leftarrow> deref (sm_shards sm) (shard_for sm i);
     engine_book (sh_engine s) i
   }"

section \<open>Engines by what they look up\<close>

text \<open>
  \<open>engine_at e k e'\<close>: the two engines agree on instrument \<open>k\<close>. Submitting and cancelling depend on the
  engine only through the instrument concerned, and change it only there.
\<close>

definition engine_at :: "engine \<Rightarrow> u32 \<Rightarrow> engine \<Rightarrow> bool" where
  "engine_at e k e' \<longleftrightarrow> um_find (matchers e) k = um_find (matchers e') k \<and>
     um_find (book_slots e) k = um_find (book_slots e') k"

lemma engine_at_book:
  assumes "engine_at e k e'" and "um_find (book_slots e') k \<in> {None, Some k}"
  shows "engine_book e k = engine_book e' k"
  using assms by (auto simp: engine_at_def engine_book_def)

lemma engine_submit_at:
  assumes "engine_submit clk pl e p = Some (pl', e', trs)" and "p < length (storage pl)"
    and "engine_at e (order_instrument (storage pl ! p)) f"
  shows "\<exists>f'. engine_submit clk pl f p = Some (pl', f', trs) \<and>
    (\<forall>k. engine_at e k f \<longrightarrow> engine_at e' k f') \<and>
    (\<forall>k. k \<noteq> order_instrument (storage pl ! p) \<longrightarrow> engine_at e' k e \<and> engine_at f' k f)"
  using assms
  by (auto simp: engine_submit_def engine_at_def um_find_assign exec_simps split: option.splits)

lemma engine_cancel_at:
  assumes "engine_cancel pl e j i = Some (found, pl', e')" and "engine_at e j f"
  shows "\<exists>f'. engine_cancel pl f j i = Some (found, pl', f') \<and>
    (\<forall>k. engine_at e k f \<longrightarrow> engine_at e' k f') \<and>
    (\<forall>k. k \<noteq> j \<longrightarrow> engine_at e' k e \<and> engine_at f' k f)"
  using assms
  by (auto simp: engine_cancel_def engine_at_def um_find_assign exec_simps split: option.splits)

end
