(* ===== verification/Sharded_System.thy ===== *)
theory Sharded_System
  imports Sharded "HOL-Library.Multiset"
begin

text \<open>
  The sharded engine as a system of one producer and several workers. Every interleaving of their
  steps is simulated by a single engine that handles the same operations one after the other.
\<close>

section \<open>Slots held by callers\<close>

text \<open>An operation touches at most its own slot among those the callers hold.\<close>

fun op_slot :: "sys_op \<Rightarrow> ptr option" where
  "op_slot (Write p x) = Some p"
| "op_slot (Submit clk p) = Some p"
| "op_slot (Release p) = Some p"
| "op_slot _ = None"

lemma engine_submit_touches:
  assumes ok: "engine_ok pl e" and p: "p < length (storage pl)" "p \<notin> resting pl e" "p \<notin> set (free_list pl)"
    and r: "engine_submit clk pl e p = Some (pl', e', trs)"
  shows "same_outside (insert p (resting pl e)) (storage pl) (storage pl')"
  using ok p
proof (cases rule: engine_submit_cases [of _ _ _ clk])
  case unknown
  then show ?thesis using r by (auto intro: same_outside_update)
next
  case (known m q m' trs' n)
  show ?thesis
    by (rule same_outside_mono) (use known(4,5) r engine_ok_matcher(3) [OF ok known(1)] in auto)
qed

lemma engine_cancel_touches:
  assumes ok: "engine_ok pl e" and r: "engine_cancel pl e j i = Some (found, pl', e')"
  shows "same_outside (resting pl e) (storage pl) (storage pl')"
  using ok
proof (cases rule: engine_cancel_cases [of _ _ j i])
  case (hit m p q m')
  show ?thesis
    by (rule same_outside_mono) (use hit(3,4) r engine_ok_matcher(3) [OF ok hit(1)] in auto)
qed (use r in simp)

lemma sys_exec_held:
  assumes ok: "sys_ok s" and al: "sys_allowed a s" "no_expiry a" and ex: "sys_exec a s = Some s'"
    and q: "q \<in> s_held s" "op_slot a \<noteq> Some q"
  shows "q \<in> s_held s' \<and> storage (s_pool s') ! q = storage (s_pool s) ! q"
proof -
  let ?pl = "s_pool s" and ?e = "s_engine s"
  have eo: "engine_ok ?pl ?e" "pool_ok ?pl" using ok by (auto simp: sys_ok_def engine_ok_def)
  have ql: "q < length (storage ?pl)" "q \<notin> resting ?pl ?e" "q \<notin> set (free_list ?pl)"
    using ok q(1) by (auto simp: sys_defs)
  show ?thesis
  proof (cases a)
    case Acquire
    show ?thesis
    proof (cases "free_list ?pl = []")
      case True
      then show ?thesis using ex Acquire q pool_acquire_none [OF eo(2)] by (auto simp: acquire_order_def)
    next
      case False
      then have "last (free_list ?pl) \<noteq> q" using ql(3) last_in_set by metis
      moreover obtain pl' where "pool_acquire ?pl = Some (Some (last (free_list ?pl)), pl')"
          "storage pl' = (storage ?pl)[last (free_list ?pl) := order_default]"
        by (rule pool_acquire_some [OF eo(2) False])
      ultimately show ?thesis using ex Acquire q(1) by (auto simp: acquire_order_def)
    qed
  next
    case (Submit clk p)
    have p: "p < length (storage ?pl)" "p \<notin> resting ?pl ?e" "p \<notin> set (free_list ?pl)" "p \<noteq> q"
      using ok al q(2) Submit by (auto simp: sys_defs)
    obtain pl' e' trs where r: "engine_submit clk ?pl ?e p = Some (pl', e', trs)" "resting pl' e' \<subseteq> insert p (resting ?pl ?e)"
      by (rule engine_submit_safe [OF eo(1) p(1-3)])
    have "same_outside (insert p (resting ?pl ?e)) (storage ?pl) (storage pl')"
      by (rule engine_submit_touches [OF eo(1) p(1-3) r(1)])
    then show ?thesis using ex Submit r q(1) ql p(4) by (auto simp: same_outside_def)
  next
    case (Cancel j i)
    obtain f pl' e' where r: "engine_cancel ?pl ?e j i = Some (f, pl', e')" by (rule engine_cancel_safe [OF eo(1)])
    then show ?thesis
      using ex Cancel q(1) ql engine_cancel_touches [OF eo(1) r] by (auto simp: same_outside_def)
  next
    case (Release p)
    then show ?thesis using ex q by (auto simp: release_order_def pool_release_def exec_simps)
  qed (use ex q al in \<open>auto simp: exec_simps no_expiry_def modify_at_def split: if_splits\<close>)
qed

section \<open>The running system\<close>

text \<open>
  \<open>x_callers\<close> are the slots the producer holds, \<open>x_pending\<close> the shard whose \<open>submitted\<close> counter the producer
  is about to increment. Three histories record what happened and influence nothing: \<open>x_log\<close>, the
  operations as a single engine would see them, and the commands accepted and handled, with the
  shard.
\<close>

record sharded_sys =
  x_sm :: sharded
  x_callers :: "ptr set"
  x_pending :: "nat option"
  x_log :: "sys_op list"
  x_sent :: "(nat \<times> command) list"
  x_handled :: "(nat \<times> command) list"

datatype sharded_event =
    E_acquire
  | E_write ptr order
  | E_submit ptr
  | E_cancel u32 u64
  | E_count
  | E_work nat "nat \<Rightarrow> u64"

definition sharded_start :: "sharded \<Rightarrow> sharded_sys" where
  "sharded_start sm = \<lparr>x_sm = sm, x_callers = {}, x_pending = None, x_log = [], x_sent = [], x_handled = []\<rparr>"

text \<open>A handled command as operations of a single engine; a taker found in the free stack was released.\<close>

definition cmd_ops :: "(nat \<Rightarrow> u64) \<Rightarrow> command \<Rightarrow> pool \<Rightarrow> sys_op list" where
  "cmd_ops clk cmd pl' =
     (case (cmd_kind cmd, cmd_order cmd) of
        (Cmd_Submit, Some p) \<Rightarrow> Submit clk p # (if p \<in> set (free_list pl') then [Release p] else [])
      | (Cmd_Submit, None) \<Rightarrow> []
      | (Cmd_Cancel, _) \<Rightarrow> [Cancel (cmd_instrument cmd) (cmd_order_id cmd)])"

definition offer :: "nat \<Rightarrow> nat \<times> command \<Rightarrow> sharded_sys \<Rightarrow> sharded_sys option" where
  "offer qc c x = do {
     (ok, sm) \<leftarrow> push_command qc (fst c) (snd c) (x_sm x);
     Some (if ok then x\<lparr>x_sm := sm, x_callers := x_callers x - set_option (cmd_order (snd c)),
             x_pending := Some (fst c), x_sent := x_sent x @ [c]\<rparr>
           else x\<lparr>x_sm := sm\<rparr>)
   }"

fun sharded_exec :: "nat \<Rightarrow> sharded_event \<Rightarrow> sharded_sys \<Rightarrow> sharded_sys option" where
  "sharded_exec qc E_acquire x = do {
     (slot, sm) \<leftarrow> sharded_acquire (x_sm x);
     Some (x\<lparr>x_sm := sm, x_callers := x_callers x \<union> set_option slot, x_log := x_log x @ [Acquire]\<rparr>)
   }"
| "sharded_exec qc (E_write p y) x = do {
     h \<leftarrow> modify_at (storage (sm_pool (x_sm x))) p (\<lambda>_. y);
     Some (x\<lparr>x_sm := (x_sm x)\<lparr>sm_pool := (sm_pool (x_sm x))\<lparr>storage := h\<rparr>\<rparr>, x_log := x_log x @ [Write p y]\<rparr>)
   }"
| "sharded_exec qc (E_submit p) x = do { c \<leftarrow> submit_command (x_sm x) p; offer qc c x }"
| "sharded_exec qc (E_cancel inst i) x = offer qc (cancel_command (x_sm x) inst i) x"
| "sharded_exec qc E_count x = do {
     idx \<leftarrow> x_pending x;
     sm \<leftarrow> count_submitted idx (x_sm x);
     Some (x\<lparr>x_sm := sm, x_pending := None\<rparr>)
   }"
| "sharded_exec qc (E_work i clk) x = do {
     (popped, sm) \<leftarrow> worker_turn qc clk i (x_sm x);
     Some (case popped of None \<Rightarrow> x\<lparr>x_sm := sm\<rparr>
       | Some cmd \<Rightarrow> x\<lparr>x_sm := sm, x_log := x_log x @ cmd_ops clk cmd (sm_pool sm), x_handled := x_handled x @ [(i, cmd)]\<rparr>)
   }"

text \<open>
  The contract: one producer, which writes and submits only slots it holds, and counts a command it
  got rid of before it sends the next one.
\<close>

fun sharded_allowed :: "sharded_event \<Rightarrow> sharded_sys \<Rightarrow> bool" where
  "sharded_allowed E_acquire x = True"
| "sharded_allowed (E_write p y) x = (p \<in> x_callers x)"
| "sharded_allowed (E_submit p) x = (p \<in> x_callers x \<and> x_pending x = None)"
| "sharded_allowed (E_cancel inst i) x = (x_pending x = None)"
| "sharded_allowed E_count x = (x_pending x \<noteq> None)"
| "sharded_allowed (E_work i clk) x = (i < num_shards (x_sm x))"

section \<open>The invariant\<close>

text \<open>The queue contents, shard by shard, and the orders they carry.\<close>

definition queued :: "command list list \<Rightarrow> ptr list" where
  "queued css = List.map_filter cmd_order (concat css)"

definition cmd_fits :: "nat \<Rightarrow> order list \<Rightarrow> nat \<Rightarrow> command \<Rightarrow> bool" where
  "cmd_fits n h i c =
     (case cmd_kind c of
        Cmd_Submit \<Rightarrow> (case cmd_order c of None \<Rightarrow> False | Some p \<Rightarrow> shard_of n (order_instrument (h ! p)) = i)
      | Cmd_Cancel \<Rightarrow> cmd_order c = None \<and> shard_of n (cmd_instrument c) = i)"

definition of_shard :: "nat \<Rightarrow> (nat \<times> command) list \<Rightarrow> command list" where
  "of_shard i cs = map snd (filter (\<lambda>c. fst c = i) cs)"

definition shard_ok :: "nat \<Rightarrow> sharded_sys \<Rightarrow> command list list \<Rightarrow> nat \<Rightarrow> bool" where
  "shard_ok qc x css i \<longleftrightarrow>
     (let s = sm_shards (x_sm x) ! i; cs = css ! i in
      ring_rep qc (sh_queue s) cs \<and>
      sh_submitted s + (if x_pending x = Some i then 1 else 0) = sh_processed s + of_nat (length cs) \<and>
      list_all (cmd_fits (num_shards (x_sm x)) (storage (sm_pool (x_sm x))) i) cs \<and>
      of_shard i (x_sent x) = of_shard i (x_handled x) @ cs)"

text \<open>
  The system simulates the single engine \<open>s\<close>: same pool, and each instrument's book in its shard is
  the book of the single engine.
\<close>

definition sharded_rel :: "nat \<Rightarrow> sharded_sys \<Rightarrow> sys \<Rightarrow> command list list \<Rightarrow> bool" where
  "sharded_rel qc x s css \<longleftrightarrow>
     (let sm = x_sm x; n = num_shards sm in
      0 < n \<and> length css = n \<and> sys_ok s \<and> s_pool s = sm_pool sm \<and>
      (\<forall>k. engine_at (sh_engine (sm_shards sm ! shard_of n k)) k (s_engine s)) \<and>
      (\<forall>i<n. shard_ok qc x css i) \<and> pred_option (\<lambda>i. i < n) (x_pending x) \<and>
      distinct (queued css) \<and> x_callers x \<union> set (queued css) \<subseteq> s_held s \<and> x_callers x \<inter> set (queued css) = {})"

definition sharded_inv :: "nat \<Rightarrow> sys \<Rightarrow> sharded_sys \<Rightarrow> bool" where
  "sharded_inv qc s0 x \<longleftrightarrow> admissible sys_exec sys_allowed (x_log x) s0 \<and>
     (\<exists>s css. run sys_exec (x_log x) s0 = Some s \<and> sharded_rel qc x s css)"

lemmas sharded_defs = sharded_rel_def shard_ok_def Let_def num_shards_def

lemma shard_of_less: "0 < n \<Longrightarrow> shard_of n k < n"
  by (simp add: shard_of_def)

lemma run_append: "run exec (as @ bs) s = Option.bind (run exec as s) (run exec bs)"
  by (induction "as" arbitrary: s) (auto split: bind_splits)

lemma admissible_append:
  "admissible exec allowed as s \<Longrightarrow> run exec as s = Some s' \<Longrightarrow> admissible exec allowed bs s' \<Longrightarrow>
   admissible exec allowed (as @ bs) s"
  by (induction "as" arbitrary: s) (auto simp: exec_simps)

text \<open>A queue that grows or shrinks at shard \<open>i\<close>.\<close>

lemma mset_concat_update:
  "i < length css \<Longrightarrow> mset (concat (css[i := cs])) + mset (css ! i) = mset (concat css) + mset cs"
proof (induction css arbitrary: i)
  case (Cons a css)
  then show ?case by (cases i) (auto simp: ac_simps)
qed simp

lemma queued_perm:
  assumes "mset (concat css) = mset (concat ([c] # css'))"
  shows "set (queued css) = set_option (cmd_order c) \<union> set (queued css')"
    and "distinct (queued css) \<longleftrightarrow> set_option (cmd_order c) \<inter> set (queued css') = {} \<and> distinct (queued css')"
proof -
  have "mset (queued css) = mset (queued ([c] # css'))"
    using assms by (simp only: queued_def List.map_filter_def mset_map mset_filter)
  then have "set (queued css) = set (queued ([c] # css'))" "distinct (queued css) = distinct (queued ([c] # css'))"
    by (rule mset_eq_setD, rule mset_eq_imp_distinct_iff)
  then show "set (queued css) = set_option (cmd_order c) \<union> set (queued css')"
    and "distinct (queued css) \<longleftrightarrow> set_option (cmd_order c) \<inter> set (queued css') = {} \<and> distinct (queued css')"
    by (cases "cmd_order c"; simp add: queued_def)+
qed

lemma queued_grow:
  assumes "i < length css"
  shows "mset (concat (css[i := css ! i @ [c]])) = mset (concat ([c] # css))"
  using mset_concat_update [OF assms, of "css ! i @ [c]"] by simp

lemma queued_shrink:
  assumes "i < length css" and "css ! i = c # cs"
  shows "mset (concat css) = mset (concat ([c] # css[i := cs]))"
  using mset_concat_update [OF assms(1), of cs] assms(2) by simp

text \<open>What a worker does to a command is what the single engine does.\<close>

lemma sys_ops_held:
  assumes "sys_ok s" and "admissible sys_exec (\<lambda>a s. sys_allowed a s \<and> no_expiry a) as s" and "run sys_exec as s = Some s'"
    and "q \<in> s_held s" and "\<forall>a \<in> set as. op_slot a \<noteq> Some q"
  shows "q \<in> s_held s' \<and> storage (s_pool s') ! q = storage (s_pool s) ! q"
  using assms
proof (induction "as" arbitrary: s)
  case (Cons a as')
  obtain s1 where s1: "sys_exec a s = Some s1" "run sys_exec as' s1 = Some s'" using Cons.prems(3) by (auto simp: exec_simps)
  have al: "sys_allowed a s" "no_expiry a" using Cons.prems(2) by auto
  have "sys_ok s1" using sys_exec_ok [OF Cons.prems(1) al(1)] s1(1) by simp
  moreover have "q \<in> s_held s1 \<and> storage (s_pool s1) ! q = storage (s_pool s) ! q"
    using sys_exec_held [OF Cons.prems(1) al s1(1)] Cons.prems(4,5) by simp
  ultimately show ?case using Cons.IH [of s1] Cons.prems s1 by simp
qed simp

lemma process_submit:
  assumes ok: "sys_ok s" and p: "p \<in> s_held s" and cmd: "cmd_kind cmd = Cmd_Submit" "cmd_order cmd = Some p"
    and at: "engine_at e (order_instrument (storage (s_pool s) ! p)) (s_engine s)"
  obtains pl' e' s' where "process_command clk cmd (s_pool s) e = Some (pl', e')"
    and "run sys_exec (cmd_ops clk cmd pl') s = Some s'" and "sys_ok s'" and "s_pool s' = pl'"
    and "admissible sys_exec (\<lambda>a s. sys_allowed a s \<and> no_expiry a) (cmd_ops clk cmd pl') s"
    and "\<forall>k. engine_at e k (s_engine s) \<longrightarrow> engine_at e' k (s_engine s')"
    and "\<forall>k. k \<noteq> order_instrument (storage (s_pool s) ! p) \<longrightarrow> engine_at (s_engine s') k (s_engine s)"
proof -
  let ?pl = "s_pool s"
  have eo: "engine_ok ?pl (s_engine s)" and q: "p < length (storage ?pl)" "p \<notin> resting ?pl (s_engine s)" "p \<notin> set (free_list ?pl)"
    using ok p by (auto simp: sys_defs)
  obtain pl1 f trs where r: "engine_submit clk ?pl (s_engine s) p = Some (pl1, f, trs)" "p \<notin> set (free_list pl1)"
      "length (storage pl1) = length (storage ?pl)" "is_terminal (storage pl1 ! p) \<longrightarrow> p \<notin> resting pl1 f"
    by (rule engine_submit_full [OF eo q])
  have "engine_at (s_engine s) (order_instrument (storage ?pl ! p)) e" using at by (simp add: engine_at_def)
  then obtain e' where e': "engine_submit clk ?pl e p = Some (pl1, e', trs)"
      "\<forall>k. engine_at (s_engine s) k e \<longrightarrow> engine_at f k e'"
      "\<forall>k. k \<noteq> order_instrument (storage ?pl ! p) \<longrightarrow> engine_at f k (s_engine s)"
    using engine_submit_at [OF r(1) q(1)] by blast
  have sym: "\<forall>k. engine_at e k (s_engine s) \<longrightarrow> engine_at e' k f" using e'(2) by (simp add: engine_at_def)
  let ?s1 = "s\<lparr>s_pool := pl1, s_engine := f, s_held := s_held s - resting pl1 f\<rparr>"
  have s1: "sys_exec (Submit clk p) s = Some ?s1" using r(1) by simp
  have ok1: "sys_ok ?s1" using sys_exec_ok [OF ok, of "Submit clk p"] s1 p by simp
  show ?thesis
  proof (cases "is_terminal (storage pl1 ! p)")
    case False
    then have "process_command clk cmd ?pl e = Some (pl1, e')" using cmd e'(1) r(3) q(1) by (simp add: process_command_def)
    moreover have "cmd_ops clk cmd pl1 = [Submit clk p]" using cmd r(2) by (simp add: cmd_ops_def)
    ultimately show ?thesis using that s1 ok1 e'(3) sym p by (simp add: no_expiry_def)
  next
    case True
    have h1: "p \<in> s_held ?s1" using True r(4) p by simp
    have p1: "pool_ok pl1" "p < length (storage pl1)" using ok1 q(1) r(3) by (simp_all add: sys_ok_def engine_ok_def)
    obtain pl2 where pl2: "pool_release pl1 p = Some pl2" "free_list pl2 = free_list pl1 @ [p]"
      by (rule pool_release_some [OF p1 r(2)])
    let ?s2 = "?s1\<lparr>s_pool := pl2, s_held := s_held ?s1 - {p}\<rparr>"
    have s2: "sys_exec (Release p) ?s1 = Some ?s2" using pl2(1) by (simp add: release_order_def)
    have ok2: "sys_ok ?s2" using sys_exec_ok [OF ok1, of "Release p"] s2 h1 by simp
    have ops: "cmd_ops clk cmd pl2 = [Submit clk p, Release p]" using cmd pl2(2) by (simp add: cmd_ops_def)
    have "process_command clk cmd ?pl e = Some (pl2, e')"
      using cmd e'(1) True p1(2) pl2(1) by (simp add: process_command_def)
    moreover have "run sys_exec (cmd_ops clk cmd pl2) s = Some ?s2"
      unfolding ops using s1 s2 by (simp del: sys_exec.simps)
    moreover have "admissible sys_exec (\<lambda>a s. sys_allowed a s \<and> no_expiry a) (cmd_ops clk cmd pl2) s"
      unfolding ops using s1 s2 h1 p by (simp del: sys_exec.simps add: no_expiry_def)
    ultimately show ?thesis using that ok2 e'(3) sym by simp
  qed
qed

lemma process_cancel:
  assumes ok: "sys_ok s" and cmd: "cmd_kind cmd = Cmd_Cancel" and at: "engine_at e (cmd_instrument cmd) (s_engine s)"
  obtains pl' e' s' where "process_command clk cmd (s_pool s) e = Some (pl', e')"
    and "run sys_exec (cmd_ops clk cmd pl') s = Some s'" and "sys_ok s'" and "s_pool s' = pl'"
    and "admissible sys_exec (\<lambda>a s. sys_allowed a s \<and> no_expiry a) (cmd_ops clk cmd pl') s"
    and "\<forall>k. engine_at e k (s_engine s) \<longrightarrow> engine_at e' k (s_engine s')"
    and "\<forall>k. k \<noteq> cmd_instrument cmd \<longrightarrow> engine_at (s_engine s') k (s_engine s)"
proof -
  let ?pl = "s_pool s" and ?j = "cmd_instrument cmd" and ?i = "cmd_order_id cmd"
  have eo: "engine_ok ?pl (s_engine s)" using ok by (simp add: sys_ok_def)
  obtain fnd pl1 f where r: "engine_cancel ?pl (s_engine s) ?j ?i = Some (fnd, pl1, f)" by (rule engine_cancel_safe [OF eo])
  have "engine_at (s_engine s) ?j e" using at by (simp add: engine_at_def)
  then obtain e' where e': "engine_cancel ?pl e ?j ?i = Some (fnd, pl1, e')"
      "\<forall>k. engine_at (s_engine s) k e \<longrightarrow> engine_at f k e'" "\<forall>k. k \<noteq> ?j \<longrightarrow> engine_at f k (s_engine s)"
    using engine_cancel_at [OF r] by blast
  have sym: "\<forall>k. engine_at e k (s_engine s) \<longrightarrow> engine_at e' k f" using e'(2) by (simp add: engine_at_def)
  let ?s1 = "s\<lparr>s_pool := pl1, s_engine := f\<rparr>"
  have s1: "sys_exec (Cancel ?j ?i) s = Some ?s1" using r(1) by simp
  have ok1: "sys_ok ?s1" using sys_exec_ok [OF ok, of "Cancel ?j ?i"] s1 by simp
  have "process_command clk cmd ?pl e = Some (pl1, e')" using cmd e'(1) by (simp add: process_command_def)
  moreover have "cmd_ops clk cmd pl1 = [Cancel ?j ?i]" using cmd by (simp add: cmd_ops_def)
  ultimately show ?thesis using that s1 ok1 e'(3) sym by (simp add: no_expiry_def)
qed

lemma process_refines:
  assumes ok: "sys_ok s" and fit: "cmd_fits n (storage (s_pool s)) i cmd" and held: "set_option (cmd_order cmd) \<subseteq> s_held s"
    and at: "\<forall>k. shard_of n k = i \<longrightarrow> engine_at e k (s_engine s)"
  obtains pl' e' s' where "process_command clk cmd (s_pool s) e = Some (pl', e')"
    and "run sys_exec (cmd_ops clk cmd pl') s = Some s'" and "sys_ok s'" and "s_pool s' = pl'"
    and "admissible sys_exec sys_allowed (cmd_ops clk cmd pl') s"
    and "\<forall>k. shard_of n k = i \<longrightarrow> engine_at e' k (s_engine s')"
    and "\<forall>k. shard_of n k \<noteq> i \<longrightarrow> engine_at (s_engine s') k (s_engine s)"
    and "\<forall>q \<in> s_held s - set_option (cmd_order cmd). q \<in> s_held s' \<and> storage pl' ! q = storage (s_pool s) ! q"
proof -
  obtain pl' e' s' j where r: "process_command clk cmd (s_pool s) e = Some (pl', e')"
      "run sys_exec (cmd_ops clk cmd pl') s = Some s'" "sys_ok s'" "s_pool s' = pl'"
      "admissible sys_exec (\<lambda>a s. sys_allowed a s \<and> no_expiry a) (cmd_ops clk cmd pl') s"
      "\<forall>k. engine_at e k (s_engine s) \<longrightarrow> engine_at e' k (s_engine s')"
      "\<forall>k. k \<noteq> j \<longrightarrow> engine_at (s_engine s') k (s_engine s)" "shard_of n j = i"
  proof (cases "cmd_kind cmd")
    case Cmd_Submit
    then obtain p where p: "cmd_order cmd = Some p" "shard_of n (order_instrument (storage (s_pool s) ! p)) = i"
      using fit by (auto simp: cmd_fits_def split: option.splits)
    have h: "p \<in> s_held s" and a: "engine_at e (order_instrument (storage (s_pool s) ! p)) (s_engine s)"
      using p held at by auto
    show ?thesis
      by (rule process_submit [OF ok h Cmd_Submit p(1) a, of clk]) (rule that, assumption+, rule p(2))
  next
    case Cmd_Cancel
    then have j: "shard_of n (cmd_instrument cmd) = i" using fit by (simp add: cmd_fits_def)
    have a: "engine_at e (cmd_instrument cmd) (s_engine s)" using at j by simp
    show ?thesis
      by (rule process_cancel [OF ok Cmd_Cancel a, of clk]) (rule that, assumption+, rule j)
  qed
  have slots: "op_slot a \<noteq> Some q" if "a \<in> set (cmd_ops clk cmd pl')" "q \<notin> set_option (cmd_order cmd)" for a q
    using that by (auto simp: cmd_ops_def split: command_kind.splits option.splits if_splits)
  have "\<forall>q \<in> s_held s - set_option (cmd_order cmd). q \<in> s_held s' \<and> storage pl' ! q = storage (s_pool s) ! q"
    using sys_ops_held [OF ok r(5,2)] slots r(4) by blast
  moreover have "admissible sys_exec sys_allowed as s" if "admissible sys_exec (\<lambda>a s. sys_allowed a s \<and> no_expiry a) as s" for "as" s
    using that by (induction "as" arbitrary: s) (auto split: option.splits)
  moreover have "\<forall>k. shard_of n k = i \<longrightarrow> engine_at e' k (s_engine s')" using r(6) at by simp
  moreover have "\<forall>k. shard_of n k \<noteq> i \<longrightarrow> engine_at (s_engine s') k (s_engine s)" using r(7,8) by auto
  ultimately show ?thesis using that [OF r(1-4)] r(5) by simp
qed

section \<open>The events keep the invariant\<close>

text \<open>The parts of the relation that a change of one queued command or of one slot concerns.\<close>

lemma cmd_fits_cong:
  "(\<And>p. cmd_order c = Some p \<Longrightarrow> h' ! p = h ! p) \<Longrightarrow> cmd_fits n h i c \<Longrightarrow> cmd_fits n h' i c"
  by (auto simp: cmd_fits_def split: command_kind.splits option.splits)

lemma cmd_fits_keep:
  assumes "list_all (cmd_fits n h i) cs" and "set ds \<subseteq> set cs"
    and "\<And>c p. c \<in> set ds \<Longrightarrow> cmd_order c = Some p \<Longrightarrow> h' ! p = h ! p"
  shows "list_all (cmd_fits n h' i) ds"
  unfolding list_all_iff
proof
  fix c assume c: "c \<in> set ds"
  then have "cmd_fits n h i c" using assms(1,2) by (auto simp: list_all_iff)
  then show "cmd_fits n h' i c" by (rule cmd_fits_cong [rotated]) (rule assms(3) [OF c])
qed

lemma queued_member: "i < length css \<Longrightarrow> c \<in> set (css ! i) \<Longrightarrow> set_option (cmd_order c) \<subseteq> set (queued css)"
  by (force simp: queued_def List.map_filter_def image_iff)

lemma of_shard_simps [simp]:
  "of_shard i [] = []" "of_shard i (cs @ ds) = of_shard i cs @ of_shard i ds"
  "of_shard i [(j, c)] = (if j = i then [c] else [])"
  by (simp_all add: of_shard_def)

text \<open>A step of the pool that leaves the queued slots alone.\<close>

lemma pool_step:
  assumes rel: "sharded_rel qc x s css" and ex: "sys_exec a s = Some s'" and al: "sys_allowed a s" "no_expiry a"
    and same: "s_engine s' = s_engine s" and slot: "set_option (op_slot a) \<subseteq> x_callers x" "set_option (op_slot a) \<subseteq> s_held s'"
    and cl: "x_callers x \<subseteq> cl" "cl \<subseteq> x_callers x \<union> (s_held s' - s_held s)"
  shows "cl \<subseteq> s_held s' \<Longrightarrow>
    sharded_rel qc (x\<lparr>x_sm := (x_sm x)\<lparr>sm_pool := s_pool s'\<rparr>, x_callers := cl, x_log := lg\<rparr>) s' css"
proof -
  assume cls: "cl \<subseteq> s_held s'"
  have ok: "sys_ok s" and q: "set (queued css) \<subseteq> s_held s" "x_callers x \<inter> set (queued css) = {}"
    using rel by (auto simp: sharded_rel_def Let_def)
  have ok': "sys_ok s'" using sys_exec_ok [OF ok al(1)] ex by simp
  have keep: "p \<in> s_held s' \<and> storage (s_pool s') ! p = storage (s_pool s) ! p" if "p \<in> set (queued css)" for p
  proof (rule sys_exec_held [OF ok al ex])
    show "p \<in> s_held s" using that q(1) by blast
    show "op_slot a \<noteq> Some p" using that q(2) slot(1) by auto
  qed
  have fits: "list_all (cmd_fits n (storage (s_pool s')) i) (css ! i)"
    if "list_all (cmd_fits n (storage (s_pool s)) i) (css ! i)" "i < length css" for n i
    using that(1) subset_refl by (rule cmd_fits_keep) (use keep queued_member [OF that(2)] in auto)
  let ?x = "x\<lparr>x_sm := (x_sm x)\<lparr>sm_pool := s_pool s'\<rparr>, x_callers := cl, x_log := lg\<rparr>"
  have "\<forall>i < num_shards (x_sm x). shard_ok qc ?x css i"
    using rel fits by (simp add: sharded_defs)
  moreover have "cl \<inter> set (queued css) = {}" using cl(2) q by blast
  moreover have "set (queued css) \<subseteq> s_held s'" using keep by blast
  ultimately show ?thesis
    using rel ok' same cls by (simp add: sharded_rel_def Let_def num_shards_def)
qed

lemma inv_extend:
  assumes "admissible sys_exec sys_allowed (x_log x) s0" and "run sys_exec (x_log x) s0 = Some s"
    and "admissible sys_exec sys_allowed ops s" and "run sys_exec ops s = Some s'"
    and "sharded_rel qc x' s' css" and "x_log x' = x_log x @ ops"
  shows "sharded_inv qc s0 x'"
  unfolding sharded_inv_def using assms admissible_append [OF assms(1-3)] by (auto simp: run_append)

lemma acquire_inv:
  assumes "sharded_inv qc s0 x"
  shows "\<exists>x'. sharded_exec qc E_acquire x = Some x' \<and> sharded_inv qc s0 x'"
proof -
  obtain s css where ad: "admissible sys_exec sys_allowed (x_log x) s0" and rn: "run sys_exec (x_log x) s0 = Some s"
      and rel: "sharded_rel qc x s css" using assms by (auto simp: sharded_inv_def)
  have ok: "sys_ok s" and pool: "sm_pool (x_sm x) = s_pool s" and cl: "x_callers x \<subseteq> s_held s"
    using rel by (auto simp: sharded_rel_def Let_def)
  obtain s' where s': "sys_exec Acquire s = Some s'" "sys_ok s'" by (rule sys_acquire [OF ok])
  then obtain slot pl where a: "pool_acquire (s_pool s) = Some (slot, pl)"
      "s' = s\<lparr>s_pool := pl, s_held := s_held s \<union> set_option slot\<rparr>"
    by (auto simp: acquire_order_def exec_simps)
  have new: "set_option slot \<inter> s_held s = {}"
    using slab.acq_fresh(1) [of "s_pool s"] a(1) ok by (cases slot) (auto simp: sys_defs engine_ok_def)
  let ?x = "x\<lparr>x_sm := (x_sm x)\<lparr>sm_pool := s_pool s'\<rparr>, x_callers := x_callers x \<union> set_option slot, x_log := x_log x @ [Acquire]\<rparr>"
  have "sharded_rel qc ?x s' css"
    by (rule pool_step [OF rel s'(1)]) (use a(2) new cl in \<open>auto simp: no_expiry_def\<close>)
  from inv_extend [OF ad rn _ _ this, of "[Acquire]"] have "sharded_inv qc s0 ?x" using s' by (simp del: sys_exec.simps)
  then show ?thesis using a by (simp add: sharded_acquire_def pool)
qed

lemma write_inv:
  assumes "sharded_inv qc s0 x" and p: "p \<in> x_callers x"
  shows "\<exists>x'. sharded_exec qc (E_write p y) x = Some x' \<and> sharded_inv qc s0 x'"
proof -
  obtain s css where ad: "admissible sys_exec sys_allowed (x_log x) s0" and rn: "run sys_exec (x_log x) s0 = Some s"
      and rel: "sharded_rel qc x s css" using assms by (auto simp: sharded_inv_def)
  have ok: "sys_ok s" and pool: "sm_pool (x_sm x) = s_pool s" and cl: "x_callers x \<subseteq> s_held s"
    using rel by (auto simp: sharded_rel_def Let_def)
  have h: "p \<in> s_held s" using p cl by blast
  obtain s' where s': "sys_exec (Write p y) s = Some s'" "sys_ok s'" by (rule sys_write [OF ok h])
  then obtain st where a: "modify_at (storage (s_pool s)) p (\<lambda>_. y) = Some st"
      "s' = s\<lparr>s_pool := (s_pool s)\<lparr>storage := st\<rparr>\<rparr>"
    by (auto simp: exec_simps)
  let ?x = "x\<lparr>x_sm := (x_sm x)\<lparr>sm_pool := s_pool s'\<rparr>, x_callers := x_callers x, x_log := x_log x @ [Write p y]\<rparr>"
  have "sharded_rel qc ?x s' css"
    by (rule pool_step [OF rel s'(1)]) (use a(2) p h cl in \<open>auto simp: no_expiry_def\<close>)
  from inv_extend [OF ad rn _ _ this, of "[Write p y]"] have "sharded_inv qc s0 ?x" using s' h by simp
  then show ?thesis using a by (simp add: pool)
qed

lemma offer_inv:
  assumes inv: "sharded_inv qc s0 x" and pend: "x_pending x = None"
    and i: "i < num_shards (x_sm x)" and fit: "cmd_fits (num_shards (x_sm x)) (storage (sm_pool (x_sm x))) i c"
    and own: "set_option (cmd_order c) \<subseteq> x_callers x"
  shows "\<exists>x'. offer qc (i, c) x = Some x' \<and> sharded_inv qc s0 x'"
proof -
  obtain s css where ad: "admissible sys_exec sys_allowed (x_log x) s0" and rn: "run sys_exec (x_log x) s0 = Some s"
      and rel: "sharded_rel qc x s css" using inv by (auto simp: sharded_inv_def)
  let ?shs = "sm_shards (x_sm x)"
  have il: "i < length ?shs" "i < length css" using i rel by (auto simp: sharded_defs)
  have rep: "ring_rep qc (sh_queue (?shs ! i)) (css ! i)" using rel i by (simp add: sharded_defs)
  obtain q where q: "spsc_push qc c (sh_queue (?shs ! i)) = Some (length (css ! i) < qc - 1, q)"
      "ring_rep qc q (if length (css ! i) < qc - 1 then css ! i @ [c] else css ! i)"
    using spsc.push_total [OF rep] by blast
  let ?sm = "(x_sm x)\<lparr>sm_shards := ?shs[i := (?shs ! i)\<lparr>sh_queue := q\<rparr>]\<rparr>"
  have push: "push_command qc i c (x_sm x) = Some (length (css ! i) < qc - 1, ?sm)"
    using il q(1) by (simp add: push_command_def)
  show ?thesis
  proof (cases "length (css ! i) < qc - 1")
    case False
    have "sharded_rel qc (x\<lparr>x_sm := ?sm\<rparr>) s css"
      using rel q(2) False il by (auto simp: sharded_defs nth_list_update)
    then show ?thesis using push False ad rn by (auto simp: offer_def sharded_inv_def)
  next
    case True
    let ?x = "x\<lparr>x_sm := ?sm, x_callers := x_callers x - set_option (cmd_order c), x_pending := Some i, x_sent := x_sent x @ [(i, c)]\<rparr>"
    let ?css = "css[i := css ! i @ [c]]"
    note qp = queued_perm [OF queued_grow [OF il(2), of c]]
    have "\<forall>j < length ?shs. shard_ok qc ?x ?css j"
      using rel q(2) True il pend fit by (auto simp: sharded_defs nth_list_update add.commute)
    moreover have "distinct (queued ?css)" "x_callers ?x \<union> set (queued ?css) \<subseteq> s_held s" "x_callers ?x \<inter> set (queued ?css) = {}"
      unfolding qp using rel own by (auto simp: sharded_rel_def Let_def)
    moreover have "engine_at (sh_engine (sm_shards ?sm ! j)) k (s_engine s) \<longleftrightarrow> engine_at (sh_engine (?shs ! j)) k (s_engine s)" for j k
      using il by (simp add: nth_list_update)
    ultimately have "sharded_rel qc ?x s ?css"
      using rel il by (simp add: sharded_rel_def Let_def num_shards_def)
    then show ?thesis using push True ad rn by (auto simp: offer_def sharded_inv_def)
  qed
qed

lemma count_inv:
  assumes inv: "sharded_inv qc s0 x" and pend: "x_pending x \<noteq> None"
  shows "\<exists>x'. sharded_exec qc E_count x = Some x' \<and> sharded_inv qc s0 x'"
proof -
  obtain s css where ad: "admissible sys_exec sys_allowed (x_log x) s0" and rn: "run sys_exec (x_log x) s0 = Some s"
      and rel: "sharded_rel qc x s css" using inv by (auto simp: sharded_inv_def)
  let ?shs = "sm_shards (x_sm x)"
  obtain i where i: "x_pending x = Some i" "i < length ?shs" using pend rel by (auto simp: sharded_defs)
  let ?sm = "(x_sm x)\<lparr>sm_shards := ?shs[i := (?shs ! i)\<lparr>sh_submitted := sh_submitted (?shs ! i) + 1\<rparr>]\<rparr>"
  let ?x = "x\<lparr>x_sm := ?sm, x_pending := None\<rparr>"
  have ex: "sharded_exec qc E_count x = Some ?x" using i by (simp add: count_submitted_def)
  have "\<forall>j < length ?shs. shard_ok qc ?x css j" using rel i by (auto simp: sharded_defs nth_list_update)
  moreover have "engine_at (sh_engine (sm_shards ?sm ! j)) k (s_engine s) \<longleftrightarrow> engine_at (sh_engine (?shs ! j)) k (s_engine s)" for j k
    using i by (simp add: nth_list_update)
  ultimately have "sharded_rel qc ?x s css" using rel by (simp add: sharded_rel_def Let_def num_shards_def)
  then show ?thesis using ex ad rn by (auto simp: sharded_inv_def)
qed

lemma work_rel_handled:
  assumes rel: "sharded_rel qc x s css" and i: "i < num_shards (x_sm x)" and hd: "css ! i = c # cs"
    and q: "ring_rep qc q cs" and s': "sys_ok s'" "s_pool s' = pl'"
    and at: "\<forall>k. shard_of (num_shards (x_sm x)) k = i \<longrightarrow> engine_at e' k (s_engine s')"
      "\<forall>k. shard_of (num_shards (x_sm x)) k \<noteq> i \<longrightarrow> engine_at (s_engine s') k (s_engine s)"
    and held: "\<forall>q \<in> s_held s - set_option (cmd_order c). q \<in> s_held s' \<and> storage pl' ! q = storage (s_pool s) ! q"
  shows "sharded_rel qc (x\<lparr>x_sm := (x_sm x)\<lparr>sm_pool := pl', sm_shards := (sm_shards (x_sm x))[i :=
      (sm_shards (x_sm x) ! i)\<lparr>sh_queue := q, sh_engine := e', sh_processed := sh_processed (sm_shards (x_sm x) ! i) + 1\<rparr>]\<rparr>,
      x_log := x_log x @ ops, x_handled := x_handled x @ [(i, c)]\<rparr>) s' (css[i := cs])"
    (is "sharded_rel qc ?x s' ?css")
proof -
  let ?shs = "sm_shards (x_sm x)" and ?n = "num_shards (x_sm x)"
  let ?S = "?shs ! i" and ?d = "if x_pending x = Some i then 1 else 0 :: u64"
  have il: "i < length ?shs" "i < length css" "length ?shs = ?n" "length css = ?n" using i rel by (auto simp: sharded_defs)
  note qp = queued_perm [OF queued_shrink [OF il(2) hd]]
  have q1: "distinct (queued ?css)" "set_option (cmd_order c) \<inter> set (queued ?css) = {}"
      "x_callers x \<union> set (queued ?css) \<subseteq> s_held s - set_option (cmd_order c)" "x_callers x \<inter> set (queued ?css) = {}"
    using rel unfolding sharded_rel_def Let_def qp by auto
  have fits: "list_all (cmd_fits ?n (storage pl') j) (?css ! j)" if "j < ?n" for j
  proof (rule cmd_fits_keep)
    show "list_all (cmd_fits ?n (storage (s_pool s)) j) (css ! j)" using rel that by (auto simp: sharded_defs)
    show "set (?css ! j) \<subseteq> set (css ! j)" using hd il that by (auto simp: nth_list_update)
    show "storage pl' ! p = storage (s_pool s) ! p" if "d \<in> set (?css ! j)" "cmd_order d = Some p" for d p
      using held q1(3) queued_member [of j ?css d] that il \<open>j < ?n\<close> by auto
  qed
  have "shard_ok qc ?x ?css j" if "j < ?n" for j
  proof (cases "j = i")
    case True
    have "shard_ok qc x css i" using rel i by (simp add: sharded_rel_def Let_def)
    then have old: "sh_submitted ?S + ?d = sh_processed ?S + of_nat (length (c # cs))"
        "of_shard i (x_sent x) = of_shard i (x_handled x) @ c # cs"
      unfolding shard_ok_def Let_def hd by blast+
    have "of_nat (length (c # cs)) = 1 + (of_nat (length cs) :: u64)" by simp
    then have cnt: "sh_submitted ?S + ?d = sh_processed ?S + 1 + of_nat (length cs)"
      using old(1) by (simp only: add.assoc)
    have at_i: "sm_shards (x_sm ?x) ! i = ?S\<lparr>sh_queue := q, sh_engine := e', sh_processed := sh_processed ?S + 1\<rparr>"
        "?css ! i = cs" using il by simp_all
    show ?thesis
      unfolding True shard_ok_def Let_def at_i
    proof (intro conjI)
      show "list_all (cmd_fits (num_shards (x_sm ?x)) (storage (sm_pool (x_sm ?x))) i) cs"
        using fits [OF i] at_i(2) by (simp add: num_shards_def)
    qed (use q old(2) cnt in simp_all)
  next
    case False
    have "shard_ok qc x css j" using rel that by (simp add: sharded_rel_def Let_def)
    then show ?thesis
      unfolding shard_ok_def Let_def using fits [OF that] False by (simp add: num_shards_def)
  qed
  moreover have "engine_at (sh_engine (sm_shards (x_sm ?x) ! shard_of ?n k)) k (s_engine s')" for k
  proof (cases "shard_of ?n k = i")
    case True
    then show ?thesis using at(1) il by simp
  next
    case False
    have "engine_at (sh_engine (?shs ! shard_of ?n k)) k (s_engine s)" using rel by (simp add: sharded_rel_def Let_def)
    then show ?thesis using at(2) False il by (simp add: engine_at_def)
  qed
  moreover have "x_callers x \<union> set (queued ?css) \<subseteq> s_held s'" using q1(3) held by blast
  ultimately show ?thesis
    using rel s' q1(1,4) il(1,2) by (simp add: sharded_rel_def Let_def num_shards_def)
qed

text \<open>A worker's turn: the first command of its queue, if any, is handled.\<close>

lemma work_rel:
  assumes rel: "sharded_rel qc x s css" and i: "i < num_shards (x_sm x)"
  obtains x' s' ops where "sharded_exec qc (E_work i clk) x = Some x'" and "x_log x' = x_log x @ ops"
    and "admissible sys_exec sys_allowed ops s" and "run sys_exec ops s = Some s'"
    and "sharded_rel qc x' s' (css[i := tl (css ! i)])" and "num_shards (x_sm x') = num_shards (x_sm x)"
    and "x_pending x' = x_pending x" and "x_sent x' = x_sent x"
proof -
  let ?shs = "sm_shards (x_sm x)" and ?n = "num_shards (x_sm x)"
  have il: "i < length ?shs" "i < length css" using i rel by (auto simp: sharded_defs)
  have sok: "shard_ok qc x css i" and pool: "sm_pool (x_sm x) = s_pool s" and ok: "sys_ok s"
    using rel i by (auto simp: sharded_rel_def Let_def)
  have rep: "ring_rep qc (sh_queue (?shs ! i)) (css ! i)" using sok by (simp add: shard_ok_def Let_def)
  show ?thesis
  proof (cases "css ! i")
    case Nil
    then have "spsc_pop qc (sh_queue (?shs ! i)) = Some (None, sh_queue (?shs ! i))" using spsc.pop_none rep by simp
    then have "sharded_exec qc (E_work i clk) x = Some x" using il by (simp add: worker_turn_def)
    moreover have "css[i := tl (css ! i)] = css" using Nil by (metis list.sel(2) list_update_id)
    ultimately show ?thesis using that [of x "[]" s] rel by simp
  next
    case (Cons c cs)
    obtain q where q: "spsc_pop qc (sh_queue (?shs ! i)) = Some (Some c, q)" "ring_rep qc q cs"
      using spsc.pop_some rep Cons by metis
    note qp = queued_perm [OF queued_shrink [OF il(2) Cons]]
    have fit: "cmd_fits ?n (storage (s_pool s)) i c" using sok Cons pool by (simp add: shard_ok_def Let_def)
    have own: "set_option (cmd_order c) \<subseteq> s_held s" using rel qp(1) by (auto simp: sharded_rel_def Let_def)
    have at: "\<forall>k. shard_of ?n k = i \<longrightarrow> engine_at (sh_engine (?shs ! i)) k (s_engine s)"
      using rel by (auto simp: sharded_rel_def Let_def)
    obtain pl' e' s' where r: "process_command clk c (s_pool s) (sh_engine (?shs ! i)) = Some (pl', e')"
        "run sys_exec (cmd_ops clk c pl') s = Some s'" "sys_ok s'" "s_pool s' = pl'"
        "admissible sys_exec sys_allowed (cmd_ops clk c pl') s"
        "\<forall>k. shard_of ?n k = i \<longrightarrow> engine_at e' k (s_engine s')"
        "\<forall>k. shard_of ?n k \<noteq> i \<longrightarrow> engine_at (s_engine s') k (s_engine s)"
        "\<forall>q \<in> s_held s - set_option (cmd_order c). q \<in> s_held s' \<and> storage pl' ! q = storage (s_pool s) ! q"
      by (rule process_refines [OF ok fit own at])
    let ?sh = "(?shs ! i)\<lparr>sh_queue := q, sh_engine := e', sh_processed := sh_processed (?shs ! i) + 1\<rparr>"
    let ?x = "x\<lparr>x_sm := (x_sm x)\<lparr>sm_pool := pl', sm_shards := ?shs[i := ?sh]\<rparr>, x_log := x_log x @ cmd_ops clk c pl',
      x_handled := x_handled x @ [(i, c)]\<rparr>" and ?css = "css[i := cs]"
    have "sharded_exec qc (E_work i clk) x = Some ?x" using il q(1) r(1) pool by (simp add: worker_turn_def)
    moreover have "sharded_rel qc ?x s' ?css"
      by (rule work_rel_handled [OF rel i Cons q(2) r(3,4,6-8)])
    ultimately show ?thesis using that [of ?x "cmd_ops clk c pl'" s'] r(2,5) Cons by (simp add: num_shards_def)
  qed
qed

lemma work_inv:
  assumes "sharded_inv qc s0 x" and "i < num_shards (x_sm x)"
  shows "\<exists>x'. sharded_exec qc (E_work i clk) x = Some x' \<and> sharded_inv qc s0 x'"
proof -
  obtain s css where ad: "admissible sys_exec sys_allowed (x_log x) s0" "run sys_exec (x_log x) s0 = Some s"
      and rel: "sharded_rel qc x s css" using assms(1) by (auto simp: sharded_inv_def)
  obtain x' s' ops where x': "sharded_exec qc (E_work i clk) x = Some x'" "x_log x' = x_log x @ ops"
      "admissible sys_exec sys_allowed ops s" "run sys_exec ops s = Some s'" "sharded_rel qc x' s' (css[i := tl (css ! i)])"
    by (rule work_rel [OF rel assms(2)])
  then show ?thesis using inv_extend [OF ad x'(3-5,2)] by blast
qed

lemma submit_inv:
  assumes inv: "sharded_inv qc s0 x" and p: "p \<in> x_callers x" and pend: "x_pending x = None"
  shows "\<exists>x'. sharded_exec qc (E_submit p) x = Some x' \<and> sharded_inv qc s0 x'"
proof -
  let ?sm = "x_sm x" and ?h = "storage (sm_pool (x_sm x))"
  have n: "0 < num_shards ?sm" and pl: "p < length ?h"
    using inv p by (auto simp: sharded_inv_def sharded_rel_def Let_def sys_ok_def)
  let ?c = "\<lparr>cmd_kind = Cmd_Submit, cmd_instrument = order_instrument (?h ! p), cmd_order_id = order_id (?h ! p), cmd_order = Some p\<rparr>"
  have "submit_command ?sm p = Some (shard_for ?sm (order_instrument (?h ! p)), ?c)"
    using pl by (simp add: submit_command_def)
  moreover have "\<exists>x'. offer qc (shard_for ?sm (order_instrument (?h ! p)), ?c) x = Some x' \<and> sharded_inv qc s0 x'"
    by (rule offer_inv [OF inv pend]) (use n p in \<open>auto simp: shard_for_def shard_of_less cmd_fits_def\<close>)
  ultimately show ?thesis by simp
qed

lemma cancel_inv:
  assumes inv: "sharded_inv qc s0 x" and pend: "x_pending x = None"
  shows "\<exists>x'. sharded_exec qc (E_cancel inst i) x = Some x' \<and> sharded_inv qc s0 x'"
proof -
  have "0 < num_shards (x_sm x)" using inv by (auto simp: sharded_inv_def sharded_rel_def Let_def)
  then show ?thesis unfolding sharded_exec.simps cancel_command_def
    by (intro offer_inv [OF inv pend]) (auto simp: shard_for_def shard_of_less cmd_fits_def)
qed

lemma sharded_exec_inv:
  "sharded_inv qc s0 x \<Longrightarrow> sharded_allowed a x \<Longrightarrow> \<exists>x'. sharded_exec qc a x = Some x' \<and> sharded_inv qc s0 x'"
  by (cases a) (auto simp only: sharded_allowed.simps
      intro: acquire_inv write_inv submit_inv cancel_inv count_inv work_inv)

interpretation shards: op_system "sharded_exec qc" sharded_allowed "sharded_inv qc s0" for qc s0
  by unfold_locales (rule sharded_exec_inv)

section \<open>Construction\<close>

lemma those_map_Some: "those (map (\<lambda>x. Some (g x)) xs) = Some (map g xs)"
  by (induction xs) auto

lemma sharded_new_cases:
  assumes "sharded_new qc r n cap = Some (Inr sm)"
  obtains pl where "pool_init cap = Some pl" and "0 < n" and "frozen r"
    and "sm = \<lparr>sm_pool = pl, sm_shards = map (\<lambda>i. \<lparr>sh_queue = new_ring qc blank_command,
      sh_engine = open_books (Some (\<lambda>id. shard_of n id = i)) (instruments r) \<lparr>matchers = [], book_slots = []\<rparr>,
      sh_submitted = 0, sh_processed = 0, sh_stop = False\<rparr>) [0..<n]\<rparr>"
  using assms that
  by (auto simp: sharded_new_def exec_simps engine_new_def those_map_Some comp_def split: if_splits)

lemma sharded_start_inv:
  assumes c: "valid_capacity qc" and new: "sharded_new qc r n cap = Some (Inr sm)"
  obtains s0 where "sys_init cap r None = Some s0" and "sharded_inv qc s0 (sharded_start sm)" and "num_shards sm = n"
proof -
  let ?e0 = "\<lparr>matchers = [], book_slots = []\<rparr>"
  obtain pl where i: "pool_init cap = Some pl" "0 < n" "frozen r"
      and sm: "sm = \<lparr>sm_pool = pl, sm_shards = map (\<lambda>i. \<lparr>sh_queue = new_ring qc blank_command,
        sh_engine = open_books (Some (\<lambda>id. shard_of n id = i)) (instruments r) ?e0,
        sh_submitted = 0, sh_processed = 0, sh_stop = False\<rparr>) [0..<n]\<rparr>"
    by (rule sharded_new_cases [OF new])
  let ?s0 = "\<lparr>s_pool = pl, s_engine = open_books None (instruments r) ?e0, s_held = {}\<rparr>"
  have s0: "sys_init cap r None = Some ?s0" using i by (simp add: sys_init_def engine_new_def)
  have n: "num_shards sm = n" by (simp add: sm num_shards_def)
  have at: "engine_at (open_books (Some (\<lambda>id. shard_of n id = shard_of n k)) (instruments r) ?e0) k (open_books None (instruments r) ?e0)" for k
    by (simp add: engine_at_def open_books_find passes_def)
  have q: "queued (replicate n []) = []" by (induction n) (simp_all add: queued_def)
  have "sharded_rel qc (sharded_start sm) ?s0 (replicate n [])"
    using sys_init_ok(1) [OF s0] i(2) new_ring_rep [OF c, of blank_command] at q shard_of_less [OF i(2)]
    by (simp add: sharded_rel_def Let_def n shard_ok_def sharded_start_def) (simp add: sm)
  then show ?thesis using that [OF s0 _ n] by (auto simp: sharded_inv_def sharded_start_def)
qed

end
