(* ===== verification/Sharded_Theorems.thy ===== *)
theory Sharded_Theorems
  imports Sharded_System
begin

text \<open>
  The theorems on the sharded engine: it refines a single engine, \<open>wait_idle\<close> is right, and the workers
  finish.
\<close>

section \<open>A concrete run\<close>

text \<open>Two shards and queues of four; a sell order rests, a buy order trades with part of it, the rest is cancelled.\<close>

definition demo_sharded :: sharded where
  "demo_sharded = \<lparr>sm_pool = \<lparr>storage = [order_default, order_default], free_slots = [0, 1], stack_top = 2\<rparr>,
     sm_shards = map (\<lambda>e. \<lparr>sh_queue = new_ring 4 blank_command, sh_engine = e, sh_submitted = 0, sh_processed = 0, sh_stop = False\<rparr>)
       [\<lparr>matchers = [], book_slots = []\<rparr>, \<lparr>matchers = [(1, new_matcher 1)], book_slots = [(1, 1)]\<rparr>]\<rparr>"

definition demo_events :: "sharded_event list" where
  "demo_events = [E_acquire, E_write 1 (demo_order 5 100 10 Sell), E_submit 1, E_work 1 (\<lambda>n. of_nat n), E_count,
     E_acquire, E_write 0 (demo_order 6 100 4 Buy), E_submit 0, E_count, E_work 0 (\<lambda>n. of_nat n), E_cancel 1 5,
     E_work 1 (\<lambda>n. of_nat n), E_work 1 (\<lambda>n. of_nat n), E_count]"

definition demo_run :: "sharded_event list \<Rightarrow> sharded_sys" where
  "demo_run evs = the (run (sharded_exec 4) evs (sharded_start demo_sharded))"

lemma demo_sharded_new: "valid_capacity 4" "sharded_new 4 demo_registry 2 2 = Some (Inr demo_sharded)"
  by (code_simp, simp add: sharded_new_def pool_init_def engine_new_def demo_registry_def demo_spec_def demo_sharded_def shard_of_def
      passes_def um_emplace_def um_find_def numeral_2_eq_2)

lemma demo_events_admissible: "admissible (sharded_exec 4) sharded_allowed demo_events (sharded_start demo_sharded)"
  "admissible (sharded_exec 4) sharded_allowed (take 9 demo_events) (sharded_start demo_sharded)"
  by code_simp+

lemma demo_events_run: "run (sharded_exec 4) demo_events (sharded_start demo_sharded) = Some (demo_run demo_events)"
  "run (sharded_exec 4) (take 9 demo_events) (sharded_start demo_sharded) = Some (demo_run (take 9 demo_events))"
proof -
  have "run (sharded_exec 4) demo_events (sharded_start demo_sharded) \<noteq> None"
    "run (sharded_exec 4) (take 9 demo_events) (sharded_start demo_sharded) \<noteq> None" by code_simp+
  then show "run (sharded_exec 4) demo_events (sharded_start demo_sharded) = Some (demo_run demo_events)"
    "run (sharded_exec 4) (take 9 demo_events) (sharded_start demo_sharded) = Some (demo_run (take 9 demo_events))"
    by (auto simp: demo_run_def)
qed

section \<open>Theorems\<close>

text \<open>\<open>submit\<close> and \<open>cancel\<close> are the push followed by the count; other threads may act in between.\<close>

lemma sharded_submit_events:
  assumes "sharded_submit qc p sm = Some (ok, sm')" and "x_sm x = sm" and "x_pending x = None"
  shows "\<exists>x'. run (sharded_exec qc) (if ok then [E_submit p, E_count] else [E_submit p]) x = Some x' \<and> x_sm x' = sm'"
proof -
  obtain c ok1 sm1 where c: "submit_command sm p = Some c" "push_command qc (fst c) (snd c) sm = Some (ok1, sm1)"
    using assms(1) by (auto simp: sharded_submit_def enqueue_def exec_simps)
  have "ok1 = ok" "if ok then count_submitted (fst c) sm1 = Some sm' else sm' = sm1"
    using assms(1) c by (auto simp: sharded_submit_def enqueue_def exec_simps split: if_splits)
  then show ?thesis using c assms(2,3) by (auto simp: offer_def)
qed

lemma idle_shard:
  assumes rel: "sharded_rel qc x s css" and pend: "x_pending x = None" and idle: "all_done (x_sm x)" and i: "i < num_shards (x_sm x)"
  shows "css ! i = []" and "spsc_empty (sh_queue (sm_shards (x_sm x) ! i)) \<and> of_shard i (x_handled x) = of_shard i (x_sent x)"
proof -
  let ?sh = "sm_shards (x_sm x) ! i"
  have ok: "ring_rep qc (sh_queue ?sh) (css ! i)" "sh_submitted ?sh = sh_processed ?sh + of_nat (length (css ! i))"
      "of_shard i (x_sent x) = of_shard i (x_handled x) @ css ! i"
    using rel i pend by (simp_all add: sharded_rel_def shard_ok_def Let_def)
  have "sh_submitted ?sh = sh_processed ?sh" using idle i by (simp add: all_done_def list_all_length num_shards_def)
  then have "(of_nat (length (css ! i)) :: u64) = 0" using ok(2) by simp
  moreover have "length (css ! i) < 2 ^ 64"
  proof -
    obtain k where "k < 64" "qc = 2 ^ k" using ok(1) by (auto simp: ring_rep_def valid_capacity_iff)
    moreover have "(2 :: nat) ^ k \<le> 2 ^ 64" by (rule power_increasing) (use calculation in auto)
    ultimately show ?thesis using ok(1) by (simp add: ring_rep_def)
  qed
  ultimately show e: "css ! i = []" by (simp add: word_of_nat_eq_0_iff) (auto dest: nat_dvd_not_less)
  show "spsc_empty (sh_queue ?sh) \<and> of_shard i (x_handled x) = of_shard i (x_sent x)"
    using ok(3) e ring_empty_iff [OF ok(1)] by (simp add: spsc_empty_def)
qed

lemma exec_num_shards: "sharded_exec qc a x = Some x' \<Longrightarrow> num_shards (x_sm x') = num_shards (x_sm x)"
  by (cases a)
    (auto simp: exec_simps num_shards_def sharded_acquire_def offer_def push_command_def count_submitted_def modify_at_def
      worker_turn_def split: if_splits option.splits)

lemma run_num_shards: "run (sharded_exec qc) evs x = Some x' \<Longrightarrow> num_shards (x_sm x') = num_shards (x_sm x)"
  by (induction evs arbitrary: x) (auto simp: exec_simps exec_num_shards simp del: sharded_exec.simps)

lemma work_turns:
  assumes "sharded_rel qc x s css" and "\<forall>w \<in> set ws. fst w < num_shards (x_sm x)"
  shows "\<exists>x' s' css'. run (sharded_exec qc) (map (\<lambda>(i, clk). E_work i clk) ws) x = Some x' \<and> sharded_rel qc x' s' css' \<and>
    num_shards (x_sm x') = num_shards (x_sm x) \<and> x_pending x' = x_pending x \<and> x_sent x' = x_sent x \<and>
    (\<forall>i < num_shards (x_sm x). css' ! i = drop (count_list (map fst ws) i) (css ! i))"
  using assms
proof (induction ws arbitrary: x s css)
  case (Cons w ws)
  obtain j clk where w: "w = (j, clk)" "j < num_shards (x_sm x)" using Cons.prems(2) by (cases w) auto
  obtain x1 s1 ops where x1: "sharded_exec qc (E_work j clk) x = Some x1" "sharded_rel qc x1 s1 (css[j := tl (css ! j)])"
      "num_shards (x_sm x1) = num_shards (x_sm x)" "x_pending x1 = x_pending x" "x_sent x1 = x_sent x"
    by (rule work_rel [OF Cons.prems(1) w(2)])
  have "length css = num_shards (x_sm x)" using Cons.prems(1) by (simp add: sharded_rel_def Let_def)
  then have "drop k (css[j := tl (css ! j)] ! i) = drop (k + (if i = j then 1 else 0)) (css ! i)" if "i < num_shards (x_sm x)" for i k
    using that w(2) by (simp add: nth_list_update drop_Suc)
  moreover obtain x2 s2 css2 where "run (sharded_exec qc) (map (\<lambda>(i, clk). E_work i clk) ws) x1 = Some x2" "sharded_rel qc x2 s2 css2"
      "num_shards (x_sm x2) = num_shards (x_sm x1)" "x_pending x2 = x_pending x1" "x_sent x2 = x_sent x1"
      "\<forall>i < num_shards (x_sm x1). css2 ! i = drop (count_list (map fst ws) i) (css[j := tl (css ! j)] ! i)"
    using Cons.IH [OF x1(2)] Cons.prems(2) x1(3) by auto
  ultimately show ?case using x1 w(1)
    by (intro exI [of _ x2] exI [of _ s2] exI [of _ css2]) (simp del: sharded_exec.simps)
qed auto

text \<open>The drain loop of a worker ends after the commands of its queue, and leaves the queue empty.\<close>

lemma worker_turn_popped:
  assumes "sharded_rel qc x s css" and "i < num_shards (x_sm x)" and "worker_turn qc clk i (x_sm x) = Some (cmd, sm)"
  shows "cmd = None \<longleftrightarrow> css ! i = []"
proof -
  have rep: "ring_rep qc (sh_queue (sm_shards (x_sm x) ! i)) (css ! i)"
    using assms(1,2) by (simp add: sharded_rel_def shard_ok_def Let_def)
  show ?thesis
    using spsc.pop_total [OF rep] assms(2,3)
    by (cases "css ! i") (auto simp: worker_turn_def num_shards_def exec_simps)
qed

lemma drain_shard_empties:
  assumes "sharded_rel qc x s css" and "i < num_shards (x_sm x)" and "length (css ! i) < fuel"
  shows "\<exists>sm. drain_shard qc clks i fuel (x_sm x) = Some sm \<and> spsc_empty (sh_queue (sm_shards sm ! i))"
  using assms
proof (induction fuel arbitrary: x s css)
  case (Suc fuel)
  obtain x' s' ops where x': "sharded_exec qc (E_work i (clks fuel)) x = Some x'" "sharded_rel qc x' s' (css[i := tl (css ! i)])"
      "num_shards (x_sm x') = num_shards (x_sm x)"
    by (rule work_rel [OF Suc.prems(1,2)])
  then obtain cmd where w: "worker_turn qc (clks fuel) i (x_sm x) = Some (cmd, x_sm x')"
    by (auto simp: exec_simps split: option.splits)
  have len: "i < length css" "length css = num_shards (x_sm x)" using Suc.prems(1,2) by (auto simp: sharded_rel_def Let_def)
  show ?case
  proof (cases "css ! i = []")
    case True
    then have "ring_rep qc (sh_queue (sm_shards (x_sm x') ! i)) []"
      using x'(2,3) Suc.prems(2) len by (auto simp: sharded_rel_def shard_ok_def Let_def)
    then show ?thesis
      using w True worker_turn_popped [OF Suc.prems(1,2) w] ring_empty_iff by (auto simp: spsc_empty_def)
  next
    case False
    then have "length (css[i := tl (css ! i)] ! i) < fuel" using Suc.prems(3) len by (cases "css ! i") auto
    then show ?thesis
      using Suc.IH [OF x'(2)] x'(3) Suc.prems(2) w False worker_turn_popped [OF Suc.prems(1,2) w] by auto
  qed
qed simp



text \<open>
  C38. \<open>wait_idle\<close> is right: when it sees equal counters in every shard and the producer is not in the
  middle of a call, every queue is empty, and each shard has handled exactly the commands that were
  accepted for it, in the order in which they were accepted.
\<close>

theorem sharded_wait_idle:
  assumes "valid_capacity qc" and "sharded_new qc r n cap = Some (Inr sm)"
    and "admissible (sharded_exec qc) sharded_allowed evs (sharded_start sm)"
    and "run (sharded_exec qc) evs (sharded_start sm) = Some x"
    and "x_pending x = None" and "all_done (x_sm x)" and "i < num_shards (x_sm x)"
  shows "spsc_empty (sh_queue (sm_shards (x_sm x) ! i)) \<and> of_shard i (x_handled x) = of_shard i (x_sent x)"
proof -
  obtain s0 where s0: "sharded_inv qc s0 (sharded_start sm)" by (rule sharded_start_inv [OF assms(1,2)])
  have "sharded_inv qc s0 x" using shards.run_inv [OF s0 assms(3)] assms(4) by simp
  then obtain s css where rel: "sharded_rel qc x s css" by (auto simp: sharded_inv_def)
  show ?thesis using idle_shard [OF rel assms(5,6,7)] by blast
qed

theorem sharded_wait_idle_witness:
  "of_shard 1 (x_handled (demo_run demo_events)) = of_shard 1 (x_sent (demo_run demo_events))"
proof -
  have "x_pending (demo_run demo_events) = None" "all_done (x_sm (demo_run demo_events))" "1 < num_shards (x_sm (demo_run demo_events))"
    by code_simp+
  from sharded_wait_idle [OF demo_sharded_new demo_events_admissible(1) demo_events_run(1) this] show ?thesis by blast
qed

text \<open>
  C39. The workers finish. From every state the system can reach, with the producer between two
  calls, let the workers take turns in any interleaving: as soon as each has had \<open>capacity - 1\<close> turns,
  \<open>wait_idle\<close> returns and the workers' drain loops have nothing left; every accepted command was handled.
\<close>

theorem sharded_drains:
  assumes "valid_capacity qc" and "sharded_new qc r n cap = Some (Inr sm)"
    and "admissible (sharded_exec qc) sharded_allowed evs (sharded_start sm)"
    and "run (sharded_exec qc) evs (sharded_start sm) = Some x" and "x_pending x = None"
    and "\<forall>w \<in> set ws. fst w < n" and "\<forall>i < n. qc - 1 \<le> count_list (map fst ws) i"
  shows "\<exists>x'. run (sharded_exec qc) (map (\<lambda>(i, clk). E_work i clk) ws) x = Some x' \<and> all_done (x_sm x') \<and>
    (\<forall>i < n. of_shard i (x_handled x') = of_shard i (x_sent x))"
proof -
  obtain s0 where s0: "sharded_inv qc s0 (sharded_start sm)" "num_shards sm = n"
    by (rule sharded_start_inv [OF assms(1,2)])
  have inv: "sharded_inv qc s0 x" using shards.run_inv [OF s0(1) assms(3)] assms(4) by simp
  have n: "num_shards (x_sm x) = n" using run_num_shards [OF assms(4)] s0(2) by (simp add: sharded_start_def)
  obtain s css where rel: "sharded_rel qc x s css" using inv by (auto simp: sharded_inv_def)
  obtain x' s' css' where x': "run (sharded_exec qc) (map (\<lambda>(i, clk). E_work i clk) ws) x = Some x'" "sharded_rel qc x' s' css'"
      "num_shards (x_sm x') = n" "x_pending x' = None" "x_sent x' = x_sent x" "\<forall>i < n. css' ! i = drop (count_list (map fst ws) i) (css ! i)"
    using work_turns [OF rel] assms(5,6) n by (metis (no_types, lifting))
  have "length (css ! i) \<le> qc - 1" if "i < n" for i
  proof (rule spsc.rep_bound)
    show "ring_rep qc (sh_queue (sm_shards (x_sm x) ! i)) (css ! i)"
      using rel that n by (simp add: sharded_rel_def shard_ok_def Let_def)
  qed
  then have e: "css' ! i = []" if "i < n" for i using that x'(6) assms(7) by fastforce
  have "sh_submitted (sm_shards (x_sm x') ! i) = sh_processed (sm_shards (x_sm x') ! i) \<and>
      of_shard i (x_handled x') = of_shard i (x_sent x)" if "i < n" for i
    using x'(2-5) e [OF that] that by (auto simp: sharded_rel_def shard_ok_def Let_def)
  then show ?thesis using x'(1,3) by (auto simp: all_done_def list_all_length num_shards_def)
qed

theorem sharded_drains_witness:
  "\<exists>x'. run (sharded_exec 4) (map (\<lambda>(i, clk). E_work i clk) (concat (replicate 3 [(0, \<lambda>n. of_nat n), (1, \<lambda>n. of_nat n)])))
     (demo_run (take 9 demo_events)) = Some x' \<and> all_done (x_sm x')"
proof -
  let ?ws = "concat (replicate 3 [(0, \<lambda>n. of_nat n), (1, \<lambda>n. of_nat n)]) :: (nat \<times> (nat \<Rightarrow> u64)) list"
  have "x_pending (demo_run (take 9 demo_events)) = None" by code_simp
  moreover have "\<forall>w \<in> set ?ws. fst w < 2" by simp
  moreover have "\<forall>i < 2. 4 - 1 \<le> count_list (map fst ?ws) i" by (auto simp: less_2_cases_iff numeral_3_eq_3)
  ultimately show ?thesis
    using sharded_drains [OF demo_sharded_new demo_events_admissible(2) demo_events_run(2)] by blast
qed

end
