(* ===== verification/Spec2Isabelle.thy ===== *)
theory Spec2Isabelle
  imports Server_Sessions Engine_Books Expiry Sharded_Theorems
begin

text \<open>
  A verification development for \<open>ordbk\<close>, a multi-instrument limit order book with a matching engine, a
  multi-threaded front end, and a binary gateway over TCP. File names below are relative to the
  repository; headers are under \<open>include/ordbk\<close>, implementations under \<open>src\<close>.

  \<^bold>\<open>The program.\<close> Orders live in the slots of a fixed slab, the pool. A matcher per instrument keeps a
  book: two ladders of price levels, each an intrusive list through the slots, and an index from order
  ids to places. The engine owns the matchers and routes orders to them. The sharded engine runs
  several engines on one pool, one per thread, and feeds each through a lock-free queue. Instruments
  are described in a registry that is frozen before trading; options are indexed by a chain, and a
  sweeper tells which have expired. The gateway reads bytes from a socket, frames and decodes
  messages, drives the engine, and encodes the answers; the client does the reverse.

  \<^bold>\<open>How the code is modelled.\<close> Objects are records, enumerations are datatypes, with a constructor
  for values a cast from the wire can produce. Unsigned integers are words of their width. Pointers to
  orders are indices into the slab; every access is checked, and \<open>None\<close> is undefined behaviour,
  an abort or a loop that does not end, so that a theorem that ends in \<open>Some\<close> is a statement of memory
  safety and termination. Exceptions, null results and failures are values. Things that are not in
  the sources are arguments: the readings of the clock (a function from the number of the reading),
  the results of system calls (lists or records of results, with the promise of \<open>send\<close> as a named
  hypothesis), and the callback of the sweeper.

  \<^bold>\<open>Theories.\<close>

  \<^item> \<open>Prelude\<close>: words, the execution monad, checked memory, frames (\<open>same_outside\<close>), and the locale
    \<open>op_system\<close> for sequences of operations that keep an invariant. It is interpreted by the engine
    with its callers (twice, for two invariants), by the sharded engine, and by the server with its
    sessions.
  \<^item> \<open>Containers\<close>: \<open>std::map\<close> and \<open>std::unordered_map\<close> as association lists, with what the code uses of them.
  \<^item> \<open>Core_Types\<close>: \<open>core/types.hpp\<close>, \<open>orderbook/order.hpp\<close>, \<open>orderbook/trade.hpp\<close>.
  \<^item> \<open>Pool\<close>: \<open>utils/pool.hpp\<close>, with the allocator interface as a locale, interpreted as \<open>slab\<close>.
  \<^item> \<open>Price_Level\<close> and \<open>Order_Book\<close>: \<open>orderbook/orderbook.hpp\<close> and \<open>orderbook/orderbook.cpp\<close>. The doubly linked
    list is related to a list of pointers, the book to a queue of orders per side.
  \<^item> \<open>Latency\<close>: \<open>utils/latency.hpp\<close>; a snapshot is exact as long as count and sum do not overflow.
  \<^item> \<open>Matcher\<close>: \<open>matching/matcher.hpp\<close> and \<open>matching/matcher.cpp\<close>. \<open>Matching\<close> holds the specification \<open>submit_spec\<close> on
    plain lists and the refinement, \<open>Cancelling\<close> the same for cancelling, \<open>Book_Invariants\<close> the
    invariants of the book. \<open>Matcher_Theorems\<close>: C1 to C9: refinement of the specification, invariants,
    conservation of quantity, price-time priority, fill-or-kill, no trade through the limit, and what
    cancelling does.
  \<^item> \<open>Contract\<close>, \<open>Chain\<close>, \<open>Registry\<close>: the files of those names in \<open>instruments\<close>. C10 to C16: the symbol of an option
    and its parser are inverse to each other, lookups after insertion and removal, and the errors of
    the registry.
  \<^item> \<open>Engine\<close>: \<open>matching/engine.hpp\<close> and \<open>matching/engine.cpp\<close>; \<open>Engine_Safety\<close>: C17 to C19: no sequence of operations of
    callers that respect ownership is undefined or confuses slots, no slot is lost without an
    expiry, instruments are independent. \<open>Engine_Books\<close>: C27: a type of books that every operation keeps:
    not crossed, and nothing rests that could not have been put there.
  \<^item> \<open>Sweeper\<close>: \<open>matching/sweeper.hpp\<close> and \<open>matching/sweeper.cpp\<close>, with C21 on double registrations. \<open>Expiry\<close>: the sweeper
    with the engine as its callback. C20: a sweep closes exactly the books that have expired.
  \<^item> \<open>Spsc_Ring\<close>: \<open>utils/spsc_ring_buffer.hpp\<close>, sequentially (a locale of bounded queues, interpreted as \<open>spsc\<close>) and
    as interleaved steps of two threads, one step per access to shared memory. C22, C23.
  \<^item> \<open>Messages\<close>, \<open>Wire\<close>, \<open>Codec\<close>, \<open>Framer\<close>, \<open>Session\<close>: \<open>protocol\<close>. The fields of the wire share the locale \<open>wire_field\<close>. C24
    to C26 and C28: encoding and decoding are inverse, decoding accepts exactly what re-encodes, framing does
    not depend on how the stream is cut, and a peer receives what a session emits.
  \<^item> \<open>Dispatcher\<close>, \<open>Gateway_Safety\<close>, \<open>Gateway_Theorems\<close>: \<open>gateway/dispatcher.cpp\<close>. C29 to C32: the handlers are safe on all
    inputs, a new order is answered truthfully, nothing happens before logon, and unchecked order
    types are accepted.
  \<^item> \<open>Tcp\<close>, \<open>Server\<close>: \<open>gateway/tcp.cpp\<close>, \<open>gateway/client.cpp\<close>, \<open>gateway/server.cpp\<close>. C33, C34, C36 and C40: sending, receiving,
    and the sockets of the server; the loop of one session as a sequence of turns. \<open>Server_Sessions\<close>: all sessions
    of a server, the acceptor and \<open>stop\<close>, interleaved turn by turn. C35: no clients, whatever they
    send, bring the server into undefined behaviour.
  \<^item> \<open>Sharded\<close>, \<open>Sharded_System\<close>, \<open>Sharded_Theorems\<close>: \<open>matching/sharded_engine.hpp\<close> and \<open>matching/sharded_engine.cpp\<close>. The producer
    and the workers are interleaved events; the queues are used through the locale of bounded queues,
    the pool and the books through the operations of the engine. C37 to C39: refinement of a single
    engine under every interleaving, correctness of \<open>wait_idle\<close>, and that the workers finish.

  \<^bold>\<open>Bounds and fuel.\<close> The matching loop and the walks along the levels (\<open>match_loop\<close>, \<open>fill_level\<close>,
  \<open>level_for\<close>) are partial functions in the option monad; that they return is part of the theorems. The loop of the
  dispatcher ends because every message shortens the input. \<open>drain_shard\<close> needs more fuel than there are queued
  commands (\<open>drain_shard_empties\<close>). The sharded engine is parametric in the queue capacity, which must
  satisfy the static assertions of the ring (\<open>valid_capacity\<close>); the code uses 4096. Lists of system
  call results that end stand for a call that blocks.

  \<^bold>\<open>Concurrency.\<close> The ring is verified at the level of single accesses under sequential
  consistency, which its acquire and release operations provide for the data it hands over. On that
  basis a push or a pop is one event of the sharded engine; a worker's turn is one event because
  workers touch disjoint books and slots and the pool is protected by its mutex. The increment of
  the \<open>submitted\<close> counter after a push is an event of its own, since a worker may run in between.

  \<^bold>\<open>Not modelled.\<close> Sessions whose turns overlap: the code gives them no lock around the engine, so an
  interleaving inside a handler is a data race and has no meaning; the model interleaves sessions
  turn by turn. The system calls themselves. The Windows branches of \<open>gateway/tcp.cpp\<close>. \<open>main.cpp\<close>, which prints the
  version; the legacy headers, which only include renamed ones; tests and benchmarks.
\<close>

end
